(* ===== verification/Prelude.thy ===== *)
theory Prelude
  imports Main "HOL-Library.Word"
begin

text \<open>
  Shared vocabulary of the development: the machine integer types of the kernel, the
  standard-library operations on them that the sources call (checked and saturating
  arithmetic, \<open>trailing_ones\<close>, \<open>count_ones\<close>), forward searches over index ranges, which
  are the shape of almost every loop of the kernel's fixed-size tables, and the lemmas on
  lists and words that the component theories share.
\<close>

unbundle bit_operations_syntax

type_synonym u8 = "8 word"
type_synonym u16 = "16 word"
type_synonym u32 = "32 word"
type_synonym u64 = "64 word"

named_theorems bitmap_simps \<open>reading and writing single bits and whole words of a bitmap\<close>
named_theorems table_simps \<open>reading and updating the fixed-size tables\<close>

section \<open>Standard-library arithmetic\<close>

text \<open>\<open>u64::checked_add\<close>: \<open>None\<close> when the sum does not fit.\<close>

definition checked_add :: "'a::len word \<Rightarrow> 'a word \<Rightarrow> 'a word option" where
  "checked_add a b = (if unat a + unat b < 2 ^ LENGTH('a) then Some (a + b) else None)"

definition saturating_add :: "'a::len word \<Rightarrow> 'a word \<Rightarrow> 'a word" where
  "saturating_add a b = (if unat a + unat b < 2 ^ LENGTH('a) then a + b else - 1)"

definition saturating_sub :: "'a::len word \<Rightarrow> 'a word \<Rightarrow> 'a word" where
  "saturating_sub a b = (if b \<le> a then a - b else 0)"

lemma unat_lt: "unat w < 2 ^ LENGTH('a)" for w :: "'a::len word"
  by (rule unsigned_less)

lemma unat64_lt: "unat w < 18446744073709551616" for w :: u64
  using unat_lt [of w] by simp

lemma checked_add_Some_iff:
  "checked_add a b = Some c \<longleftrightarrow> unat a + unat b = unat c"
  for a b c :: "'a::len word"
proof
  assume "checked_add a b = Some c"
  then show "unat a + unat b = unat c"
    by (auto simp: checked_add_def unat_word_ariths split: if_splits)
next
  assume eq: "unat a + unat b = unat c"
  then have "unat a + unat b < 2 ^ LENGTH('a)"
    using unat_lt [of c] by simp
  moreover from this eq have "a + b = c"
    by (simp add: word_unat_eq_iff unat_word_ariths)
  ultimately show "checked_add a b = Some c"
    by (simp add: checked_add_def)
qed

lemma checked_add_None_iff:
  "checked_add a b = None \<longleftrightarrow> 2 ^ LENGTH('a) \<le> unat a + unat b"
  for a b :: "'a::len word"
  by (auto simp: checked_add_def)

lemma unat_saturating_add:
  "unat (saturating_add a b) = min (unat a + unat b) (2 ^ LENGTH('a) - 1)"
  for a b :: "'a::len word"
  by (auto simp: saturating_add_def unat_word_ariths unsigned_minus_1_eq_mask mask_eq_exp_minus_1)

lemma saturating_add_code [code]:
  "saturating_add a b = (if uint a + uint b < 2 ^ LENGTH('a) then a + b else - 1)" for a b :: "'a::len word"
  unfolding saturating_add_def uint_nat by (metis of_nat_add of_nat_less_iff of_nat_numeral of_nat_power)

lemma checked_add_code [code]:
  "checked_add a b = (if uint a + uint b < 2 ^ LENGTH('a) then Some (a + b) else None)" for a b :: "'a::len word"
  unfolding checked_add_def uint_nat by (metis of_nat_add of_nat_less_iff of_nat_numeral of_nat_power)

lemma unat_saturating_sub:
  "unat (saturating_sub a b) = unat a - unat b" for a b :: "'a::len word"
  by (auto simp: saturating_sub_def unat_sub word_le_nat_alt)

text \<open>\<open>u64::trailing_ones\<close> and \<open>u64::count_ones\<close>.\<close>

function trailing_ones_from :: "u64 \<Rightarrow> nat \<Rightarrow> nat" where
  "trailing_ones_from w n = (if n < 64 \<and> bit w n then trailing_ones_from w (Suc n) else n)"
  by pat_completeness auto
termination
  by (relation "measure (\<lambda>(w, n). 64 - n)") auto

declare trailing_ones_from.simps [simp del]

definition trailing_ones :: "u64 \<Rightarrow> nat" where
  "trailing_ones w = trailing_ones_from w 0"

definition count_ones :: "u64 \<Rightarrow> nat" where
  "count_ones w = length (filter (bit w) [0..<64])"

lemma trailing_ones_from_spec:
  "n \<le> 64 \<Longrightarrow> n \<le> trailing_ones_from w n \<and> trailing_ones_from w n \<le> 64
     \<and> (\<forall>j. n \<le> j \<and> j < trailing_ones_from w n \<longrightarrow> bit w j)
     \<and> (trailing_ones_from w n < 64 \<longrightarrow> \<not> bit w (trailing_ones_from w n))"
proof (induction w n rule: trailing_ones_from.induct)
  case (1 w n)
  show ?case
  proof (cases "n < 64 \<and> bit w n")
    case True
    then have step: "trailing_ones_from w n = trailing_ones_from w (Suc n)"
      by (simp add: trailing_ones_from.simps [of w n])
    from True have IH: "Suc n \<le> trailing_ones_from w (Suc n)"
      "trailing_ones_from w (Suc n) \<le> 64"
      "\<forall>j. Suc n \<le> j \<and> j < trailing_ones_from w (Suc n) \<longrightarrow> bit w j"
      "trailing_ones_from w (Suc n) < 64 \<longrightarrow> \<not> bit w (trailing_ones_from w (Suc n))"
      using "1.IH" by auto
    have "bit w j" if "n \<le> j" "j < trailing_ones_from w n" for j
      using that True IH(3) step by (cases "j = n") auto
    with IH step show ?thesis by auto
  next
    case False
    with "1.prems" show ?thesis by (auto simp: trailing_ones_from.simps [of w n])
  qed
qed

lemma trailing_ones_le: "trailing_ones w \<le> 64"
  using trailing_ones_from_spec [of 0 w] by (simp add: trailing_ones_def)

lemma trailing_ones_below: "j < trailing_ones w \<Longrightarrow> bit w j"
  using trailing_ones_from_spec [of 0 w] by (simp add: trailing_ones_def)

lemma trailing_ones_bit: "trailing_ones w < 64 \<Longrightarrow> \<not> bit w (trailing_ones w)"
  using trailing_ones_from_spec [of 0 w] by (simp add: trailing_ones_def)

lemma word64_all_ones_iff: "w = - 1 \<longleftrightarrow> (\<forall>j<64. bit w j)" for w :: u64
  by (auto simp: bit_eq_iff)

lemma trailing_ones_lt: "w \<noteq> - 1 \<Longrightarrow> trailing_ones w < 64"
  using trailing_ones_below [of _ w] trailing_ones_le [of w] word64_all_ones_iff [of w]
  by (metis nat_less_le)

text \<open>
  The sources round an index up to a multiple of 64 with \<open>(i + 63) & !63\<close>. On the natural
  numbers the development uses, masking out the low six bits is subtracting the remainder.
\<close>

definition align64_up :: "nat \<Rightarrow> nat" where
  "align64_up i = (i + 63) - (i + 63) mod 64"

lemma and_not_63_unat: "unat (w AND NOT 63) = unat w - unat w mod 64" for w :: u64
proof -
  have "w AND NOT (mask 6) = push_bit 6 (drop_bit 6 w)"
    by (rule bit_eqI) (auto simp: bit_simps)
  then have "unat (w AND NOT 63) = unat (push_bit 6 (drop_bit 6 w))"
    by (simp add: mask_eq_exp_minus_1)
  also have "\<dots> = unat w div 64 * 64"
  proof -
    have "unat w div 64 * 64 \<le> unat w" by simp
    with unat64_lt [of w] have "unat w div 64 * 64 < 18446744073709551616"
      by (rule le_less_trans [rotated])
    moreover have "unat w div 64 < 18446744073709551616"
      using unat64_lt [of w] by (simp add: div_less_dividend le_less_trans [OF div_le_dividend])
    ultimately show ?thesis
      by (simp add: push_bit_eq_mult drop_bit_eq_div unat_word_ariths unat_div)
  qed
  finally show ?thesis
    by (simp add: minus_mod_eq_div_mult)
qed

lemma align64_up_mod [simp]: "align64_up i mod 64 = 0"
  by (simp add: align64_up_def minus_mod_eq_div_mult)

lemma align64_up_ge: "i \<le> align64_up i"
proof -
  have "(i + 63) mod 64 \<le> 63" by (simp add: mod_le_divisor less_Suc_eq_le [symmetric])
  then show ?thesis unfolding align64_up_def by linarith
qed

section \<open>Forward searches\<close>

text \<open>
  \<open>for i in a..b { if p(i) { return Some(i) } }\<close>: the least index of the half-open range
  that satisfies the test.
\<close>

definition find_from :: "(nat \<Rightarrow> bool) \<Rightarrow> nat \<Rightarrow> nat \<Rightarrow> nat option" where
  "find_from p a b = List.find p [a..<b]"

lemma find_from_None: "find_from p a b = None \<longleftrightarrow> (\<forall>j. a \<le> j \<and> j < b \<longrightarrow> \<not> p j)"
  by (auto simp: find_from_def find_None_iff)

lemma find_from_Some:
  "find_from p a b = Some k \<longleftrightarrow> a \<le> k \<and> k < b \<and> p k \<and> (\<forall>j. a \<le> j \<and> j < k \<longrightarrow> \<not> p j)"
proof
  assume "find_from p a b = Some k"
  then obtain i where i: "i < b - a" "p (a + i)" "k = a + i" "\<forall>j<i. \<not> p (a + j)"
    by (auto simp: find_from_def find_Some_iff)
  have "\<not> p j" if "a \<le> j" "j < k" for j
    using i(4) [rule_format, of "j - a"] that i(3) by simp
  with i show "a \<le> k \<and> k < b \<and> p k \<and> (\<forall>j. a \<le> j \<and> j < k \<longrightarrow> \<not> p j)" by auto
next
  assume k: "a \<le> k \<and> k < b \<and> p k \<and> (\<forall>j. a \<le> j \<and> j < k \<longrightarrow> \<not> p j)"
  then show "find_from p a b = Some k"
    unfolding find_from_def find_Some_iff
    by (intro exI [of _ "k - a"]) auto
qed

lemmas find_from_iff = find_from_None find_from_Some

lemma find_from_rec:
  "find_from p a b = (if a < b then if p a then Some a else find_from p (Suc a) b else None)"
  by (simp add: find_from_def upt_conv_Cons)

lemma find_from_cong:
  "(\<And>j. a \<le> j \<Longrightarrow> j < b \<Longrightarrow> p j = q j) \<Longrightarrow> find_from p a b = find_from q a b"
  unfolding find_from_def by (rule find_cong) auto

lemma find_from_append:
  "a \<le> m \<Longrightarrow> m \<le> b \<Longrightarrow>
   find_from p a b = (case find_from p a m of None \<Rightarrow> find_from p m b | Some k \<Rightarrow> Some k)"
proof -
  assume "a \<le> m" "m \<le> b"
  then have "[a..<b] = [a..<m] @ [m..<b]"
    by (metis le_add_diff_inverse upt_add_eq_append)
  moreover have "List.find p (xs @ ys) = (case List.find p xs of None \<Rightarrow> List.find p ys | Some k \<Rightarrow> Some k)"
    for xs ys by (induction xs) auto
  ultimately show ?thesis by (simp add: find_from_def split: option.split)
qed

lemma find_from_first_iff:
  "find_from p a b = None \<Longrightarrow> b \<le> c \<Longrightarrow> a \<le> b \<Longrightarrow> find_from p a c = find_from p b c"
  by (simp add: find_from_append [of a b c])

lemma find_SomeD: "List.find p xs = Some x \<Longrightarrow> x \<in> set xs \<and> p x"
  by (induction xs) (auto split: if_splits)

section \<open>Walks around a ring\<close>

text \<open>The indices that a loop visits which starts at \<open>start\<close> and wraps at \<open>cap\<close>: the clock
  of the eviction policy and the probe sequences of the hash tables.\<close>

definition ring_order :: "nat \<Rightarrow> nat \<Rightarrow> nat \<Rightarrow> nat list" where
  "ring_order cap start n = map (\<lambda>k. (start + k) mod cap) [0..<n]"

lemma ring_order_Suc:
  assumes "idx < cap"
  shows "ring_order cap idx (Suc n) = idx # ring_order cap (if idx + 1 \<ge> cap then 0 else idx + 1) n"
proof -
  have "(idx + Suc k) mod cap = ((if idx + 1 \<ge> cap then 0 else idx + 1) + k) mod cap" for k
  proof (cases "idx + 1 \<ge> cap")
    case True
    then have "idx + Suc k = k + cap" using assms by simp
    then show ?thesis using True by (simp only: mod_add_self2) simp
  qed simp
  then show ?thesis using assms
    by (simp add: ring_order_def upt_conv_Cons del: upt_Suc flip: map_Suc_upt)
qed

lemma set_ring_order:
  assumes "start < cap"
  shows "set (ring_order cap start cap) = {..<cap}"
proof
  show "set (ring_order cap start cap) \<subseteq> {..<cap}" using assms by (auto simp: ring_order_def)
  show "{..<cap} \<subseteq> set (ring_order cap start cap)"
  proof
    fix i assume i: "i \<in> {..<cap}"
    let ?k = "if start \<le> i then i - start else i + cap - start"
    have "?k < cap" using i assms by auto
    moreover have "(start + ?k) mod cap = i" using i assms by auto
    ultimately show "i \<in> set (ring_order cap start cap)" unfolding ring_order_def by force
  qed
qed

lemma distinct_ring_order: "start < cap \<Longrightarrow> distinct (ring_order cap start cap)"
  by (rule card_distinct) (simp add: set_ring_order, simp add: ring_order_def)

end
