(* ===== verification/Bitmap.thy ===== *)
theory Bitmap
  imports Prelude
begin

text \<open>
  Bitmaps stored as arrays of \<open>u64\<close> words, the representation of the physical frame
  allocator (\<open>kernel/mm/pmm.rs\<close>) and of the swap-slot allocator (\<open>kernel/mm/swap.rs\<close>).
  The single-bit operations are those the sources spell out inline; the interface
  \<open>bit_array\<close> states what the allocators rely on, and the batched loops of the sources
  (bits up to a word boundary, whole words, remaining bits) are shown equal to the
  bit-by-bit loops.
\<close>

type_synonym bitmap = "u64 list"

section \<open>Single bits\<close>

definition bm_test :: "bitmap \<Rightarrow> nat \<Rightarrow> bool" where
  "bm_test bm i = (bm ! (i div 64) AND push_bit (i mod 64) 1 \<noteq> 0)"

definition bm_set :: "bitmap \<Rightarrow> nat \<Rightarrow> bitmap" where
  "bm_set bm i = bm[i div 64 := bm ! (i div 64) OR push_bit (i mod 64) 1]"

definition bm_clear :: "bitmap \<Rightarrow> nat \<Rightarrow> bitmap" where
  "bm_clear bm i = bm[i div 64 := bm ! (i div 64) AND NOT (push_bit (i mod 64) 1)]"

lemma and_push_bit_1: "(w AND push_bit n 1 \<noteq> 0) = bit w n" if "n < 64" for w :: u64
proof -
  have "w AND push_bit n 1 = (if bit w n then push_bit n 1 else 0)"
    by (rule bit_eqI) (auto simp: bit_simps)
  moreover have "push_bit n (1::u64) \<noteq> 0"
    using that by (auto simp: bit_eq_iff bit_simps)
  ultimately show ?thesis by simp
qed

lemma bm_test_bit: "bm_test bm i = bit (bm ! (i div 64)) (i mod 64)"
  unfolding bm_test_def by (rule and_push_bit_1) simp

lemma word_index: "i < 64 * n \<Longrightarrow> i div 64 < n" for i n :: nat
  by (simp add: less_mult_imp_div_less mult.commute)

lemma same_word_bit: "i div 64 = j div 64 \<Longrightarrow> i mod 64 = j mod 64 \<longleftrightarrow> i = j" for i j :: nat
  by (metis div_mult_mod_eq)

lemma length_bm_set [simp]: "length (bm_set bm i) = length bm"
  by (simp add: bm_set_def)

lemma length_bm_clear [simp]: "length (bm_clear bm i) = length bm"
  by (simp add: bm_clear_def)

lemma bit_or_push: "n < 64 \<Longrightarrow> bit (w OR push_bit n 1) m = (m = n \<or> bit w m)" for w :: u64
  by (auto simp: bit_or_iff bit_exp_iff)

lemma bit_and_not_push: "m < 64 \<Longrightarrow> bit (w AND NOT (push_bit n 1)) m = (m \<noteq> n \<and> bit w m)"
  for w :: u64
  by (auto simp: bit_and_iff bit_not_iff bit_exp_iff)

lemma bm_test_set [bitmap_simps]:
  assumes "i < 64 * length bm"
  shows "bm_test (bm_set bm i) j = (j = i \<or> bm_test bm j)"
proof (cases "j div 64 = i div 64")
  case True
  then have "bm_test (bm_set bm i) j = (j mod 64 = i mod 64 \<or> bm_test bm j)"
    using word_index [OF assms] by (simp only: bm_test_bit bm_set_def nth_list_update_eq)
      (rule bit_or_push, simp)
  with same_word_bit [OF True] show ?thesis by simp
next
  case False
  then show ?thesis by (auto simp only: bm_test_bit bm_set_def nth_list_update_neq)
qed

lemma bm_test_clear [bitmap_simps]:
  assumes "i < 64 * length bm"
  shows "bm_test (bm_clear bm i) j = (j \<noteq> i \<and> bm_test bm j)"
proof (cases "j div 64 = i div 64")
  case True
  then have "bm_test (bm_clear bm i) j = (j mod 64 \<noteq> i mod 64 \<and> bm_test bm j)"
    using word_index [OF assms] by (simp only: bm_test_bit bm_clear_def nth_list_update_eq)
      (rule bit_and_not_push, simp)
  with same_word_bit [OF True] show ?thesis by simp
next
  case False
  then show ?thesis by (auto simp only: bm_test_bit bm_clear_def nth_list_update_neq)
qed

lemma bm_eqI:
  assumes "length bm = length bm'" and "\<And>i. i < 64 * length bm \<Longrightarrow> bm_test bm i = bm_test bm' i"
  shows "bm = bm'"
proof (rule nth_equalityI)
  fix k assume k: "k < length bm"
  show "bm ! k = bm' ! k"
  proof (rule bit_eqI)
    fix n assume "possible_bit TYPE(u64) n"
    then have n: "n < 64" by (simp add: possible_bit_word)
    with k have "64 * k + n < 64 * length bm" by simp
    from assms(2) [OF this] n show "bit (bm ! k) n = bit (bm' ! k) n"
      by (simp add: bm_test_bit)
  qed
qed (rule assms(1))

section \<open>What the allocators rely on\<close>

text \<open>
  An array of bits: reading, setting and clearing one bit leaves every other bit alone.
  The client's lemmas are about loops that set or clear a range bit by bit.
\<close>

locale bit_array =
  fixes test :: "'b \<Rightarrow> nat \<Rightarrow> bool"
    and set_bit :: "'b \<Rightarrow> nat \<Rightarrow> 'b"
    and clear_bit :: "'b \<Rightarrow> nat \<Rightarrow> 'b"
    and size_of :: "'b \<Rightarrow> nat"
  assumes test_set: "i < size_of b \<Longrightarrow> test (set_bit b i) j = (j = i \<or> test b j)"
    and test_clear: "i < size_of b \<Longrightarrow> test (clear_bit b i) j = (j \<noteq> i \<and> test b j)"
    and size_set: "size_of (set_bit b i) = size_of b"
    and size_clear: "size_of (clear_bit b i) = size_of b"
begin

lemma size_fold_set: "size_of (fold (\<lambda>i b. set_bit b i) is b) = size_of b"
  by (induction "is" arbitrary: b) (simp_all add: size_set)

lemma size_fold_clear: "size_of (fold (\<lambda>i b. clear_bit b i) is b) = size_of b"
  by (induction "is" arbitrary: b) (simp_all add: size_clear)

lemma test_fold_set:
  "\<forall>i\<in>set is. i < size_of b \<Longrightarrow>
   test (fold (\<lambda>i b. set_bit b i) is b) j = (j \<in> set is \<or> test b j)"
  by (induction "is" arbitrary: b) (auto simp: test_set size_set)

lemma test_fold_clear:
  "\<forall>i\<in>set is. i < size_of b \<Longrightarrow>
   test (fold (\<lambda>i b. clear_bit b i) is b) j = (j \<notin> set is \<and> test b j)"
  by (induction "is" arbitrary: b) (auto simp: test_clear size_clear)

end

interpretation wb: bit_array bm_test bm_set bm_clear "\<lambda>bm. 64 * length bm"
  by unfold_locales (simp_all add: bitmap_simps)

lemma length_fold_bm_set [simp]: "length (fold (\<lambda>i b. bm_set b i) is bm) = length bm"
  using wb.size_fold_set [of "is" bm] by simp

lemma length_fold_bm_clear [simp]: "length (fold (\<lambda>i b. bm_clear b i) is bm) = length bm"
  using wb.size_fold_clear [of "is" bm] by simp

section \<open>Whole-word loops\<close>

text \<open>\<open>while i + 64 <= end { bitmap[i / 64] = v; i += 64 }\<close>, with the final \<open>i\<close>.\<close>

function fill_words :: "u64 \<Rightarrow> nat \<Rightarrow> nat \<Rightarrow> bitmap \<Rightarrow> nat \<times> bitmap" where
  "fill_words v i e bm =
     (if i + 64 \<le> e then fill_words v (i + 64) e (bm[i div 64 := v]) else (i, bm))"
  by pat_completeness auto
termination
  by (relation "measure (\<lambda>(v, i, e, bm). e - i)") auto

declare fill_words.simps [simp del]

lemma bm_test_word_update:
  assumes "i mod 64 = 0" and "i + 64 \<le> 64 * length bm"
  shows "bm_test (bm[i div 64 := v]) j =
    (if i \<le> j \<and> j < i + 64 then bit v (j mod 64) else bm_test bm j)"
proof -
  from assms(1) obtain k where i: "i = 64 * k" by (auto elim: dvdE simp: mod_eq_0_iff_dvd)
  have "k = j div 64 \<longleftrightarrow> i \<le> j \<and> j < i + 64"
    unfolding i by linarith
  moreover have "k < length bm"
    using assms(2) i by simp
  ultimately show ?thesis
    using i by (simp add: bm_test_bit nth_list_update)
qed

lemma fill_words_spec:
  assumes "fill_words v i e bm = (i', bm')" and "i mod 64 = 0" and "i \<le> e"
    and "e \<le> 64 * length bm"
  shows "i \<le> i' \<and> i' \<le> e \<and> e < i' + 64 \<and> length bm' = length bm
    \<and> (\<forall>j. bm_test bm' j = (if i \<le> j \<and> j < i' then bit v (j mod 64) else bm_test bm j))"
  using assms
proof (induction v i e bm rule: fill_words.induct)
  case (1 v i e bm)
  show ?case
  proof (cases "i + 64 \<le> e")
    case True
    then have step: "fill_words v (i + 64) e (bm[i div 64 := v]) = (i', bm')"
      using "1.prems"(1) by (simp add: fill_words.simps [of v i e bm])
    have "i + 64 \<le> i' \<and> i' \<le> e \<and> e < i' + 64 \<and> length bm' = length bm
      \<and> (\<forall>j. bm_test bm' j = (if i + 64 \<le> j \<and> j < i' then bit v (j mod 64)
            else bm_test (bm[i div 64 := v]) j))"
      using "1.IH" [OF True step] "1.prems" True by simp
    then show ?thesis
      using bm_test_word_update [OF "1.prems"(2), of bm v] True "1.prems"(4) by auto
  next
    case False
    with "1.prems" show ?thesis by (auto simp: fill_words.simps [of v i e bm])
  qed
qed

section \<open>Batched range updates\<close>

text \<open>
  The allocators update a range of bits in three loops: bit by bit to the next word
  boundary, whole words, and bit by bit over what is left.
\<close>

definition batched :: "(nat \<Rightarrow> bitmap \<Rightarrow> bitmap) \<Rightarrow> u64 \<Rightarrow> nat \<Rightarrow> nat \<Rightarrow> bitmap \<Rightarrow> bitmap" where
  "batched f v start e bm =
     (let head_end = min (align64_up start) e;
          bm1 = fold f [start..<head_end] bm;
          (i, bm2) = fill_words v head_end e bm1
      in fold f [i..<e] bm2)"

lemma batched_split:
  assumes "start \<le> e" and "e \<le> 64 * length bm"
    and len: "\<And>is b. length (fold f is b) = length b"
  obtains h i bm2 where "start \<le> h" and "h \<le> i" and "i \<le> e"
    and "batched f v start e bm = fold f [i..<e] bm2"
    and "length bm2 = length bm"
    and "\<forall>j. bm_test bm2 j =
      (if h \<le> j \<and> j < i then bit v (j mod 64) else bm_test (fold f [start..<h] bm) j)"
proof -
  define h where "h = min (align64_up start) e"
  obtain i bm2 where fw: "fill_words v h e (fold f [start..<h] bm) = (i, bm2)"
    by fastforce
  have h: "start \<le> h" "h \<le> e"
    using assms(1) align64_up_ge [of start] by (auto simp: h_def)
  have "h \<le> i \<and> i \<le> e \<and> length bm2 = length bm \<and> (\<forall>j. bm_test bm2 j =
    (if h \<le> j \<and> j < i then bit v (j mod 64) else bm_test (fold f [start..<h] bm) j))"
  proof (cases "align64_up start \<le> e")
    case True
    then have "h mod 64 = 0" by (simp add: h_def)
    with fill_words_spec [OF fw this h(2)] assms(2) show ?thesis by (simp add: len)
  next
    case False
    then have "h = e" by (simp add: h_def)
    then have "fill_words v h e (fold f [start..<h] bm) = (h, fold f [start..<h] bm)"
      by (subst fill_words.simps) simp
    with fw \<open>h = e\<close> show ?thesis by (auto simp: len)
  qed
  moreover have "batched f v start e bm = fold f [i..<e] bm2"
    using fw by (simp add: batched_def h_def [symmetric] Let_def)
  ultimately show thesis using that h by blast
qed

lemma bm_test_batched_set:
  assumes "start \<le> e" and "e \<le> 64 * length bm"
  shows "bm_test (batched (\<lambda>i b. bm_set b i) (- 1) start e bm) j =
    (start \<le> j \<and> j < e \<or> bm_test bm j)"
proof -
  obtain h i bm2 where hi: "start \<le> h" "h \<le> i" "i \<le> e"
    and b: "batched (\<lambda>i b. bm_set b i) (- 1) start e bm = fold (\<lambda>i b. bm_set b i) [i..<e] bm2"
    and len: "length bm2 = length bm"
    and t: "\<forall>j. bm_test bm2 j = (if h \<le> j \<and> j < i then bit (- 1 :: u64) (j mod 64)
      else bm_test (fold (\<lambda>i b. bm_set b i) [start..<h] bm) j)"
    by (rule batched_split [OF assms length_fold_bm_set])
  have "bm_test (batched (\<lambda>i b. bm_set b i) (- 1) start e bm) j = (i \<le> j \<and> j < e \<or> bm_test bm2 j)"
    using assms(2) len by (subst b, subst wb.test_fold_set) auto
  also have "bm_test bm2 j = (start \<le> j \<and> j < i \<or> bm_test bm j)"
    using hi assms(2) by (subst t [rule_format], subst wb.test_fold_set) auto
  finally show ?thesis using hi by auto
qed

lemma bm_test_batched_clear:
  assumes "start \<le> e" and "e \<le> 64 * length bm"
  shows "bm_test (batched (\<lambda>i b. bm_clear b i) 0 start e bm) j =
    (\<not> (start \<le> j \<and> j < e) \<and> bm_test bm j)"
proof -
  obtain h i bm2 where hi: "start \<le> h" "h \<le> i" "i \<le> e"
    and b: "batched (\<lambda>i b. bm_clear b i) 0 start e bm = fold (\<lambda>i b. bm_clear b i) [i..<e] bm2"
    and len: "length bm2 = length bm"
    and t: "\<forall>j. bm_test bm2 j = (if h \<le> j \<and> j < i then bit (0 :: u64) (j mod 64)
      else bm_test (fold (\<lambda>i b. bm_clear b i) [start..<h] bm) j)"
    by (rule batched_split [OF assms length_fold_bm_clear])
  have "bm_test (batched (\<lambda>i b. bm_clear b i) 0 start e bm) j = (\<not> (i \<le> j \<and> j < e) \<and> bm_test bm2 j)"
    using assms(2) len by (subst b, subst wb.test_fold_clear) auto
  also have "bm_test bm2 j = (\<not> (start \<le> j \<and> j < i) \<and> bm_test bm j)"
    using hi assms(2) by (subst t [rule_format], subst wb.test_fold_clear) auto
  finally show ?thesis using hi by auto
qed

lemma length_batched:
  assumes "start \<le> e" and "e \<le> 64 * length bm" and "\<And>is b. length (fold f is b) = length b"
  shows "length (batched f v start e bm) = length bm"
proof (rule batched_split [OF assms, where v = v])
qed (simp add: assms(3))

end
