(* ===== verification/Pmm.thy ===== *)
theory Pmm
  imports Bitmap
begin

text \<open>
  The physical frame allocator, \<open>kernel/mm/pmm.rs\<close>: the bitmap allocator
  \<open>FrameAllocator\<close>, the copy-on-write reference counts and the emergency reserve. A set
  bit means that the frame is in use. Frame numbers and hints are natural numbers, since
  they stay below the frame cap; physical addresses and the two counters keep their
  machine width, so that the decrement in \<open>free_frames\<close> wraps as the source's does. Each
  function of the source runs under the allocator's lock and is one step of the model;
  \<open>cap\<close> is the value \<open>frame_cap()\<close> returns.
\<close>

section \<open>State\<close>

definition MAX_FRAMES :: nat where
  "MAX_FRAMES = 4 * 1024 * 1024"

definition FRAME_SIZE :: nat where
  "FRAME_SIZE = 4096"

record ram_info =
  TOTAL_RAM_BYTES :: u64
  FRAME_CAP :: nat

definition ram_init :: ram_info where
  "ram_init = \<lparr>TOTAL_RAM_BYTES = 0, FRAME_CAP = MAX_FRAMES\<rparr>"

definition register_total_ram :: "u64 \<Rightarrow> ram_info \<Rightarrow> ram_info" where
  "register_total_ram bytes r =
     (let frames = min (unat bytes div FRAME_SIZE) MAX_FRAMES
      in r\<lparr>TOTAL_RAM_BYTES := TOTAL_RAM_BYTES r + bytes,
           FRAME_CAP := max (FRAME_CAP r) frames\<rparr>)"

definition total_ram_kb :: "ram_info \<Rightarrow> u64" where
  "total_ram_kb r = TOTAL_RAM_BYTES r div 1024"

record frame_allocator =
  fa_bitmap :: bitmap
  fa_total :: u64
  fa_used :: u64
  fa_free_hint :: nat
  fa_contiguous_hint :: nat

definition fa_new :: frame_allocator where
  "fa_new = \<lparr>fa_bitmap = replicate (MAX_FRAMES div 64) (- 1), fa_total = 0, fa_used = 0,
             fa_free_hint = 0, fa_contiguous_hint = 0\<rparr>"

section \<open>Operations\<close>

definition mark_used :: "nat \<Rightarrow> frame_allocator \<Rightarrow> frame_allocator" where
  "mark_used frame s = s\<lparr>fa_bitmap := bm_set (fa_bitmap s) frame\<rparr>"

text \<open>The two hint updates that follow every range that became free.\<close>

definition lower_hints :: "nat \<Rightarrow> frame_allocator \<Rightarrow> frame_allocator" where
  "lower_hints frame s =
     (let s1 = (if frame < fa_free_hint s then s\<lparr>fa_free_hint := frame\<rparr> else s)
      in if frame < fa_contiguous_hint s1 then s1\<lparr>fa_contiguous_hint := frame\<rparr> else s1)"

definition mark_free :: "nat \<Rightarrow> frame_allocator \<Rightarrow> frame_allocator" where
  "mark_free frame s = lower_hints frame (s\<lparr>fa_bitmap := bm_clear (fa_bitmap s) frame\<rparr>)"

definition is_used :: "frame_allocator \<Rightarrow> nat \<Rightarrow> bool" where
  "is_used s frame = bm_test (fa_bitmap s) frame"

definition mark_range_free :: "nat \<Rightarrow> nat \<Rightarrow> frame_allocator \<Rightarrow> frame_allocator" where
  "mark_range_free start e s =
     (if start \<ge> e then s
      else lower_hints start
        (s\<lparr>fa_bitmap := batched (\<lambda>i b. bm_clear b i) 0 start e (fa_bitmap s)\<rparr>))"

definition add_region :: "nat \<Rightarrow> u64 \<Rightarrow> u64 \<Rightarrow> frame_allocator \<Rightarrow> frame_allocator" where
  "add_region cap base sz s =
     (let start_frame = unat (base + 4096 - 1) div FRAME_SIZE;
          end_frame = min (unat (base + sz) div FRAME_SIZE) cap;
          added = end_frame - start_frame;
          s1 = mark_range_free start_frame end_frame s
      in s1\<lparr>fa_total := fa_total s1 + of_nat added\<rparr>)"

text \<open>
  \<open>find_contiguous\<close>. For one frame: bits up to the word boundary, then whole words (the
  first word that is not all ones has its first free bit at \<open>trailing_ones\<close>), then the
  remaining bits. For more frames: a run counter that skips full words and takes empty
  words 64 bits at a time.
\<close>

function find_word :: "bitmap \<Rightarrow> nat \<Rightarrow> nat \<Rightarrow> nat + nat" where
  "find_word bm i to =
     (if i + 64 \<le> to
      then (let w = bm ! (i div 64)
            in if w \<noteq> - 1 then Inl (i + trailing_ones w) else find_word bm (i + 64) to)
      else Inr i)"
  by pat_completeness auto
termination
  by (relation "measure (\<lambda>(bm, i, to). to - i)") auto

declare find_word.simps [simp del]

definition find_single :: "bitmap \<Rightarrow> nat \<Rightarrow> nat \<Rightarrow> nat option" where
  "find_single bm from to =
     (let head_end = min (align64_up from) to
      in case find_from (\<lambda>i. \<not> bm_test bm i) from head_end of
           Some i \<Rightarrow> Some i
         | None \<Rightarrow>
             (case find_word bm head_end to of
                Inl i \<Rightarrow> Some i
              | Inr i \<Rightarrow> find_from (\<lambda>i. \<not> bm_test bm i) i to))"

function scan_run :: "bitmap \<Rightarrow> nat \<Rightarrow> nat \<Rightarrow> nat \<Rightarrow> nat \<Rightarrow> nat \<Rightarrow> nat option" where
  "scan_run bm count consecutive start_idx i to =
     (if i < to
      then
        if consecutive = 0 \<and> i mod 64 = 0 \<and> i + 64 \<le> to \<and> bm ! (i div 64) = - 1
        then scan_run bm count consecutive start_idx (i + 64) to
        else if consecutive = 0 \<and> i mod 64 = 0 \<and> i + 64 \<le> to \<and> bm ! (i div 64) = 0
        then (if 64 \<ge> count then Some i else scan_run bm count 64 i (i + 64) to)
        else if \<not> bm_test bm i
        then (let start_idx' = (if consecutive = 0 then i else start_idx)
              in if consecutive + 1 \<ge> count then Some start_idx'
                 else scan_run bm count (consecutive + 1) start_idx' (i + 1) to)
        else scan_run bm count 0 start_idx (i + 1) to
      else None)"
  by pat_completeness auto
termination
  by (relation "measure (\<lambda>(bm, count, consecutive, start_idx, i, to). to - i)") auto

declare scan_run.simps [simp del]

definition find_contiguous :: "frame_allocator \<Rightarrow> nat \<Rightarrow> nat \<Rightarrow> nat \<Rightarrow> nat option" where
  "find_contiguous s from to count =
     (if from \<ge> to \<or> count = 0 then None
      else if count = 1 then find_single (fa_bitmap s) from to
      else scan_run (fa_bitmap s) count 0 0 from to)"

definition alloc_frames :: "nat \<Rightarrow> nat \<Rightarrow> frame_allocator \<Rightarrow> u64 option \<times> frame_allocator" where
  "alloc_frames cap count s =
     (let search_start = (if count = 1 then fa_free_hint s else fa_contiguous_hint s);
          result = (case find_contiguous s search_start cap count of
                      Some r \<Rightarrow> Some r
                    | None \<Rightarrow> if search_start > 0 then find_contiguous s 0 search_start count
                              else None)
      in case result of
           None \<Rightarrow> (None, s)
         | Some start_idx \<Rightarrow>
             (let s1 = s\<lparr>fa_bitmap := batched (\<lambda>i b. bm_set b i) (- 1) start_idx
                                        (start_idx + count) (fa_bitmap s),
                         fa_used := fa_used s + of_nat count\<rparr>;
                  s2 = (if count = 1 then s1\<lparr>fa_free_hint := start_idx + 1\<rparr>
                        else s1\<lparr>fa_contiguous_hint := start_idx + count\<rparr>)
              in (Some (of_nat (start_idx * FRAME_SIZE)), s2)))"

text \<open>One iteration of the loop of \<open>free_frames\<close>.\<close>

definition release_frame :: "nat \<Rightarrow> frame_allocator \<Rightarrow> frame_allocator" where
  "release_frame i s =
     (if is_used s i
      then s\<lparr>fa_bitmap := bm_clear (fa_bitmap s) i, fa_used := fa_used s - 1\<rparr>
      else s)"

definition free_frames :: "nat \<Rightarrow> u64 \<Rightarrow> nat \<Rightarrow> frame_allocator \<Rightarrow> frame_allocator" where
  "free_frames cap phys count s =
     (let start_frame = unat phys div FRAME_SIZE;
          end_frame = min (start_frame + count) cap
      in lower_hints start_frame (fold release_frame [start_frame..<end_frame] s))"

definition guard_free_frame :: "nat \<Rightarrow> u64 \<Rightarrow> frame_allocator \<Rightarrow> frame_allocator" where
  "guard_free_frame cap phys s =
     (let frame = unat phys div FRAME_SIZE
      in if frame \<ge> cap then s else lower_hints frame (release_frame frame s))"

text \<open>\<open>reserve_region\<close>: the bit loops count a bit that was clear, the word loop counts
  \<open>count_ones\<close> of the complement; the counter never passes \<open>total\<close>.\<close>

definition reserve_bit :: "nat \<Rightarrow> frame_allocator \<Rightarrow> frame_allocator" where
  "reserve_bit i s =
     (if \<not> bm_test (fa_bitmap s) i
      then (let s1 = s\<lparr>fa_bitmap := bm_set (fa_bitmap s) i\<rparr>
            in if fa_used s1 < fa_total s1 then s1\<lparr>fa_used := fa_used s1 + 1\<rparr> else s1)
      else s)"

function reserve_words :: "nat \<Rightarrow> nat \<Rightarrow> frame_allocator \<Rightarrow> nat \<times> frame_allocator" where
  "reserve_words i e s =
     (if i + 64 \<le> e
      then (let newly = count_ones (NOT (fa_bitmap s ! (i div 64)));
                room = unat (saturating_sub (fa_total s) (fa_used s))
            in reserve_words (i + 64) e
                 (s\<lparr>fa_bitmap := (fa_bitmap s)[i div 64 := - 1],
                    fa_used := fa_used s + of_nat (min newly room)\<rparr>))
      else (i, s))"
  by pat_completeness auto
termination
  by (relation "measure (\<lambda>(i, e, s). e - i)") auto

declare reserve_words.simps [simp del]

definition reserve_region :: "nat \<Rightarrow> u64 \<Rightarrow> u64 \<Rightarrow> frame_allocator \<Rightarrow> frame_allocator" where
  "reserve_region cap base sz s =
     (let start_frame = unat base div 4096;
          end_frame = min (unat (base + sz + 4095) div 4096) cap
      in if start_frame \<ge> end_frame then s
         else (let head_end = min (align64_up start_frame) end_frame;
                   s1 = fold reserve_bit [start_frame..<head_end] s;
                   (i, s2) = reserve_words head_end end_frame s1
               in fold reserve_bit [i..<end_frame] s2))"

section \<open>Search\<close>

text \<open>The reference definition of the search: the least start of a free run that fits.\<close>

definition free_run :: "bitmap \<Rightarrow> nat \<Rightarrow> nat \<Rightarrow> bool" where
  "free_run bm count r = (\<forall>j\<in>{r..<r + count}. \<not> bm_test bm j)"

definition first_free_run :: "bitmap \<Rightarrow> nat \<Rightarrow> nat \<Rightarrow> nat \<Rightarrow> nat option" where
  "first_free_run bm from to count = find_from (\<lambda>r. r + count \<le> to \<and> free_run bm count r) from to"

lemma full_word_bits: "bm ! (i div 64) = - 1 \<Longrightarrow> i mod 64 = 0 \<Longrightarrow> i \<le> j \<Longrightarrow> j < i + 64 \<Longrightarrow> bm_test bm j"
proof -
  assume w: "bm ! (i div 64) = - 1" and "i mod 64 = 0" "i \<le> j" "j < i + 64"
  then have "j div 64 = i div 64" by (auto elim!: dvdE simp: mod_eq_0_iff_dvd)
  with w show ?thesis by (simp add: bm_test_bit)
qed

lemma empty_word_bits: "bm ! (i div 64) = 0 \<Longrightarrow> i mod 64 = 0 \<Longrightarrow> i \<le> j \<Longrightarrow> j < i + 64 \<Longrightarrow> \<not> bm_test bm j"
proof -
  assume w: "bm ! (i div 64) = 0" and "i mod 64 = 0" "i \<le> j" "j < i + 64"
  then have "j div 64 = i div 64" by (auto elim!: dvdE simp: mod_eq_0_iff_dvd)
  with w show ?thesis by (simp add: bm_test_bit)
qed

lemma word_bits_below: "i mod 64 = 0 \<Longrightarrow> k < 64 \<Longrightarrow> bm_test bm (i + k) = bit (bm ! (i div 64)) k"
  by (auto elim!: dvdE simp: mod_eq_0_iff_dvd bm_test_bit)

lemma find_word_spec:
  "i mod 64 = 0 \<Longrightarrow> i \<le> to \<Longrightarrow>
   (case find_word bm i to of
      Inl k \<Rightarrow> i \<le> k \<and> k < to \<and> \<not> bm_test bm k \<and> (\<forall>j. i \<le> j \<and> j < k \<longrightarrow> bm_test bm j)
    | Inr k \<Rightarrow> i \<le> k \<and> k \<le> to \<and> (\<forall>j. i \<le> j \<and> j < k \<longrightarrow> bm_test bm j))"
proof (induction bm i to rule: find_word.induct)
  case (1 bm i to)
  let ?w = "bm ! (i div 64)"
  consider (stop) "\<not> i + 64 \<le> to" | (hit) "i + 64 \<le> to" "?w \<noteq> - 1" | (skip) "i + 64 \<le> to" "?w = - 1"
    by blast
  then show ?case
  proof cases
    case stop
    with "1.prems" show ?thesis by (auto simp: find_word.simps [of bm i to])
  next
    case hit
    then have t: "trailing_ones ?w < 64" by (simp add: trailing_ones_lt)
    have "bm_test bm j" if "i \<le> j" "j < i + trailing_ones ?w" for j
      using trailing_ones_below [of "j - i" ?w] word_bits_below [OF "1.prems"(1), of "j - i" bm] that t
      by simp
    moreover have "\<not> bm_test bm (i + trailing_ones ?w)"
      using trailing_ones_bit [OF t] word_bits_below [OF "1.prems"(1) t] by simp
    ultimately show ?thesis
      using hit t by (simp add: find_word.simps [of bm i to] Let_def)
  next
    case skip
    have full: "bm_test bm j" if "i \<le> j" "j < i + 64" for j
      using full_word_bits [OF skip(2) "1.prems"(1)] that by simp
    have "find_word bm i to = find_word bm (i + 64) to"
      using skip by (simp add: find_word.simps [of bm i to])
    moreover have "case find_word bm (i + 64) to of
        Inl k \<Rightarrow> i + 64 \<le> k \<and> k < to \<and> \<not> bm_test bm k \<and> (\<forall>j. i + 64 \<le> j \<and> j < k \<longrightarrow> bm_test bm j)
      | Inr k \<Rightarrow> i + 64 \<le> k \<and> k \<le> to \<and> (\<forall>j. i + 64 \<le> j \<and> j < k \<longrightarrow> bm_test bm j)"
      using "1.IH" [OF skip(1) refl] skip "1.prems" by simp
    ultimately show ?thesis
      using full by (auto split: sum.splits) (metis not_le)+
  qed
qed

lemma find_single_eq:
  assumes "from < to"
  shows "find_single bm from to = find_from (\<lambda>i. \<not> bm_test bm i) from to"
proof -
  let ?p = "\<lambda>i. \<not> bm_test bm i" and ?h = "min (align64_up from) to"
  have h: "from \<le> ?h" "?h \<le> to"
    using assms align64_up_ge [of "from"] by auto
  have rest: "(case find_word bm ?h to of Inl i \<Rightarrow> Some i | Inr i \<Rightarrow> find_from ?p i to) = find_from ?p ?h to"
  proof (cases "align64_up from \<le> to")
    case True
    then have "?h mod 64 = 0" by simp
    from find_word_spec [OF this h(2), of bm] show ?thesis
      by (auto simp: find_from_Some find_from_None find_from_first_iff split: sum.splits
          intro!: find_from_first_iff [symmetric] find_from_Some [THEN iffD2, symmetric])
  next
    case False
    then have "find_word bm to to = Inr to"
      by (simp add: find_word.simps [of bm to to])
    with False show ?thesis by (simp add: min_def)
  qed
  show ?thesis
    unfolding find_single_def Let_def rest find_from_append [OF h]
    by (simp split: option.split)
qed

text \<open>
  The state of the scan at index \<open>i\<close>: no run starts before the current candidate, and the
  candidate run covers everything from its start up to \<open>i\<close> but is still too short.
\<close>

definition scan_inv :: "bitmap \<Rightarrow> nat \<Rightarrow> nat \<Rightarrow> nat \<Rightarrow> nat \<Rightarrow> nat \<Rightarrow> nat \<Rightarrow> bool" where
  "scan_inv bm count from to c s i =
     ((\<forall>r. from \<le> r \<and> r < (if c = 0 then i else s) \<longrightarrow> \<not> (r + count \<le> to \<and> free_run bm count r))
      \<and> (c > 0 \<longrightarrow> from \<le> s \<and> s + c = i \<and> c < count \<and> (\<forall>j. s \<le> j \<and> j < i \<longrightarrow> \<not> bm_test bm j)))"

lemma scan_inv_used:
  assumes "scan_inv bm count from to c s i" and "bm_test bm i" and "count > 0"
  shows "scan_inv bm count from to 0 s' (i + 1)"
proof -
  have "\<not> free_run bm count r" if "from \<le> r" "r < i + 1" "r + count \<le> to" for r
  proof (cases "r < (if c = 0 then i else s)")
    case True
    with assms(1) that show ?thesis by (auto simp: scan_inv_def)
  next
    case False
    with assms that have "i \<in> {r..<r + count}"
      by (auto simp: scan_inv_def split: if_splits)
    with assms(2) show ?thesis by (auto simp: free_run_def)
  qed
  then show ?thesis by (auto simp: scan_inv_def)
qed

lemma scan_inv_full_word:
  assumes "scan_inv bm count from to 0 s i" and "i mod 64 = 0" and "bm ! (i div 64) = - 1" and "count > 0"
  shows "scan_inv bm count from to 0 s (i + 64)"
proof -
  have "\<not> free_run bm count r" if "from \<le> r" "r < i + 64" "r + count \<le> to" for r
  proof (cases "r < i")
    case True
    with assms(1) that show ?thesis by (auto simp: scan_inv_def)
  next
    case False
    then have "bm_test bm r" using full_word_bits [OF assms(3,2)] that by simp
    with assms(4) show ?thesis by (auto simp: free_run_def)
  qed
  then show ?thesis by (auto simp: scan_inv_def)
qed

lemma scan_hit:
  assumes "\<forall>r. from \<le> r \<and> r < k \<longrightarrow> \<not> (r + count \<le> to \<and> free_run bm count r)"
    and "from \<le> k" and "k + count \<le> to" and "free_run bm count k" and "count > 0"
  shows "first_free_run bm from to count = Some k"
  using assms by (auto simp: first_free_run_def find_from_Some)

lemma scan_run_eq:
  assumes "scan_inv bm count from to c s i" and "from \<le> i" and "i \<le> to" and "count > 0"
  shows "scan_run bm count c s i to = first_free_run bm from to count"
  using assms
proof (induction bm count c s i to rule: scan_run.induct)
  case (1 bm count c s i to)
  note inv = "1.prems"(1) and bounds = "1.prems"(2,3) and pos = "1.prems"(4)
  let ?w = "bm ! (i div 64)" and ?word = "c = 0 \<and> i mod 64 = 0 \<and> i + 64 \<le> to"
  let ?s = "if c = 0 then i else s"
  consider (stop) "\<not> i < to"
    | (full) "i < to" "?word" "?w = - 1"
    | (empty) "i < to" "?word" "?w = 0"
    | (free) "i < to" "\<not> (?word \<and> (?w = - 1 \<or> ?w = 0))" "\<not> bm_test bm i"
    | (used) "i < to" "\<not> (?word \<and> (?w = - 1 \<or> ?w = 0))" "bm_test bm i"
    by blast
  then show ?case
  proof cases
    case stop
    then have "first_free_run bm from to count = None"
      using inv bounds pos by (auto simp: first_free_run_def find_from_None scan_inv_def split: if_splits)
    with stop show ?thesis by (simp add: scan_run.simps [of bm count c s i to])
  next
    case full
    then have "scan_inv bm count from to c s (i + 64)"
      using scan_inv_full_word inv pos by simp
    with "1.IH"(1) [OF full(1)] full bounds pos show ?thesis
      by (subst scan_run.simps) simp
  next
    case empty
    then have fr: "\<not> bm_test bm j" if "i \<le> j" "j < i + 64" for j
      using empty_word_bits [of bm i j] that by simp
    have none: "\<forall>r. from \<le> r \<and> r < i \<longrightarrow> \<not> (r + count \<le> to \<and> free_run bm count r)"
      using inv empty by (auto simp: scan_inv_def)
    show ?thesis
    proof (cases "64 \<ge> count")
      case True
      then have "free_run bm count i" using fr by (auto simp: free_run_def)
      with scan_hit [OF none] bounds True empty pos have "first_free_run bm from to count = Some i"
        by simp
      with True empty show ?thesis by (subst scan_run.simps) simp
    next
      case False
      then have "scan_inv bm count from to 64 i (i + 64)"
        using none fr bounds by (auto simp: scan_inv_def)
      with "1.IH"(2) [OF empty(1) _ _ False] empty False bounds pos show ?thesis
        by (subst scan_run.simps) simp
    qed
  next
    case free
    have cur: "\<forall>r. from \<le> r \<and> r < ?s \<longrightarrow> \<not> (r + count \<le> to \<and> free_run bm count r)"
      and st: "from \<le> ?s" "?s + c = i" and fr: "\<forall>j. ?s \<le> j \<and> j < i + 1 \<longrightarrow> \<not> bm_test bm j"
      using inv free(3) bounds by (auto simp: scan_inv_def less_Suc_eq split: if_splits)
    have eq: "scan_run bm count c s i to =
      (if c + 1 \<ge> count then Some ?s else scan_run bm count (c + 1) ?s (i + 1) to)"
      using free by (subst scan_run.simps) (auto simp: Let_def)
    show ?thesis
    proof (cases "c + 1 \<ge> count")
      case True
      then have "c + 1 = count" using inv pos by (cases "c = 0") (auto simp: scan_inv_def)
      then have "free_run bm count ?s" "?s + count \<le> to"
        using st fr free(1) by (auto simp: free_run_def)
      with scan_hit [OF cur st(1)] True eq pos show ?thesis by simp
    next
      case False
      then have "scan_inv bm count from to (c + 1) ?s (i + 1)"
        using cur st fr by (auto simp: scan_inv_def)
      then have "scan_run bm count (c + 1) ?s (i + 1) to = first_free_run bm from to count"
        using "1.IH"(3) [OF free(1) _ _ free(3) refl False] free bounds pos by auto
      with False eq show ?thesis by simp
    qed
  next
    case used
    have eq: "scan_run bm count c s i to = scan_run bm count 0 s (i + 1) to"
      using used by (subst scan_run.simps) auto
    show ?thesis
      unfolding eq using "1.IH"(4) [OF used(1)] used scan_inv_used [OF inv used(3) pos] bounds pos by auto
  qed
qed

text \<open>The optimised search returns exactly the first free run of the reference definition.\<close>

lemma find_contiguous_eq:
  assumes "count > 0"
  shows "find_contiguous s from to count = first_free_run (fa_bitmap s) from to count"
proof (cases "from < to")
  case True
  show ?thesis
  proof (cases "count = 1")
    case one: True
    have "first_free_run (fa_bitmap s) from to count = find_from (\<lambda>i. \<not> bm_test (fa_bitmap s) i) from to"
      unfolding first_free_run_def one by (rule find_from_cong) (auto simp: free_run_def)
    with True one show ?thesis by (simp add: find_contiguous_def find_single_eq)
  next
    case False
    have "scan_inv (fa_bitmap s) count from to 0 0 from" by (auto simp: scan_inv_def)
    from scan_run_eq [OF this] True False assms show ?thesis by (simp add: find_contiguous_def)
  qed
next
  case False
  then show ?thesis by (simp add: find_contiguous_def first_free_run_def find_from_def)
qed

section \<open>The allocator as a set of free frames\<close>

text \<open>
  What the allocator promises is stated over the set of free frames. \<open>fa_wf\<close> is what the
  operations need to stay inside the bitmap and to keep the byte address of a frame below
  \<open>2 ^ 64\<close>. \<open>fa_counts\<close> relates the counters to the frames handed to \<open>add_region\<close> so
  far (the set \<open>M\<close>); \<open>fa_inv\<close> adds that no frame below \<open>free_hint\<close> is free.
\<close>

definition free_set :: "nat \<Rightarrow> frame_allocator \<Rightarrow> nat set" where
  "free_set cap s = {i. i < cap \<and> \<not> bm_test (fa_bitmap s) i}"

definition fa_wf :: "nat \<Rightarrow> frame_allocator \<Rightarrow> bool" where
  "fa_wf cap s =
     (cap \<le> 64 * length (fa_bitmap s) \<and> cap \<le> 2 ^ 52
      \<and> fa_free_hint s \<le> cap \<and> fa_contiguous_hint s \<le> cap)"

definition fa_counts :: "nat \<Rightarrow> nat set \<Rightarrow> frame_allocator \<Rightarrow> bool" where
  "fa_counts cap M s =
     (fa_wf cap s \<and> M \<subseteq> {..<cap} \<and> free_set cap s \<subseteq> M
      \<and> unat (fa_total s) = card M \<and> unat (fa_used s) = card (M - free_set cap s))"

definition fa_inv :: "nat \<Rightarrow> nat set \<Rightarrow> frame_allocator \<Rightarrow> bool" where
  "fa_inv cap M s = (fa_counts cap M s \<and> (\<forall>i\<in>free_set cap s. fa_free_hint s \<le> i))"

lemma free_set_code [code]:
  "free_set cap s = set (filter (\<lambda>i. \<not> bm_test (fa_bitmap s) i) [0..<cap])"
  by (auto simp: free_set_def)

lemma finite_free_set [simp]: "finite (free_set cap s)"
  by (simp add: free_set_def)

lemma free_set_cong: "fa_bitmap s = fa_bitmap t \<Longrightarrow> free_set cap s = free_set cap t"
  by (simp add: free_set_def)

lemma free_set_free_run:
  "r + count \<le> cap \<Longrightarrow> free_run (fa_bitmap s) count r \<longleftrightarrow> {r..<r + count} \<subseteq> free_set cap s"
  by (auto simp: free_run_def free_set_def)

lemma lower_hints_simps [simp]:
  "fa_bitmap (lower_hints f s) = fa_bitmap s"
  "fa_total (lower_hints f s) = fa_total s"
  "fa_used (lower_hints f s) = fa_used s"
  "fa_free_hint (lower_hints f s) = min f (fa_free_hint s)"
  "fa_contiguous_hint (lower_hints f s) = min f (fa_contiguous_hint s)"
  by (auto simp: lower_hints_def Let_def)

lemma frame_addr: "r < 2 ^ 52 \<Longrightarrow> unat (of_nat (r * 4096) :: u64) = r * 4096"
proof -
  assume "r < 2 ^ 52"
  then have "r * 4096 < 2 ^ 64" by simp
  then show ?thesis by (subst unat_of_nat) simp
qed

subsection \<open>Allocation\<close>

text \<open>What the two calls of the search in \<open>alloc_frames\<close> find, in terms of the reference.\<close>

definition alloc_search :: "nat \<Rightarrow> nat \<Rightarrow> frame_allocator \<Rightarrow> nat option" where
  "alloc_search cap count s =
     (let h = (if count = 1 then fa_free_hint s else fa_contiguous_hint s)
      in case first_free_run (fa_bitmap s) h cap count of
           Some r \<Rightarrow> Some r
         | None \<Rightarrow> first_free_run (fa_bitmap s) 0 h count)"

definition commit_alloc :: "nat \<Rightarrow> nat \<Rightarrow> frame_allocator \<Rightarrow> frame_allocator" where
  "commit_alloc r count s =
     (let s1 = s\<lparr>fa_bitmap := batched (\<lambda>i b. bm_set b i) (- 1) r (r + count) (fa_bitmap s),
                 fa_used := fa_used s + of_nat count\<rparr>
      in if count = 1 then s1\<lparr>fa_free_hint := r + 1\<rparr> else s1\<lparr>fa_contiguous_hint := r + count\<rparr>)"

lemma alloc_frames_eq:
  assumes "count > 0"
  shows "alloc_frames cap count s =
    (case alloc_search cap count s of
       None \<Rightarrow> (None, s)
     | Some r \<Rightarrow> (Some (of_nat (r * FRAME_SIZE)), commit_alloc r count s))"
proof -
  have z: "(if h > 0 then first_free_run (fa_bitmap s) 0 h count else None) =
      first_free_run (fa_bitmap s) 0 h count" for h
    by (simp add: first_free_run_def find_from_def)
  show ?thesis
    unfolding alloc_frames_def find_contiguous_eq [OF assms] z alloc_search_def commit_alloc_def Let_def
    by (rule refl)
qed

lemma alloc_frames_0 [simp]: "alloc_frames cap 0 s = (None, s)"
  by (simp add: alloc_frames_def find_contiguous_def Let_def)

lemma alloc_search_Some:
  assumes "alloc_search cap count s = Some r" and "fa_wf cap s"
  shows "r + count \<le> cap \<and> {r..<r + count} \<subseteq> free_set cap s"
proof -
  have "r + count \<le> cap \<and> free_run (fa_bitmap s) count r"
    using assms by (auto simp: alloc_search_def Let_def first_free_run_def find_from_Some fa_wf_def
        split: option.splits if_splits)
  then show ?thesis using free_set_free_run by blast
qed

lemma commit_alloc_free_set:
  assumes "r + count \<le> cap" and "fa_wf cap s"
  shows "free_set cap (commit_alloc r count s) = free_set cap s - {r..<r + count}"
proof -
  have t: "bm_test (fa_bitmap (commit_alloc r count s)) j = (r \<le> j \<and> j < r + count \<or> bm_test (fa_bitmap s) j)" for j
    using assms by (simp add: commit_alloc_def Let_def fa_wf_def bm_test_batched_set)
  show ?thesis by (rule set_eqI) (simp add: free_set_def t, blast)
qed

lemma commit_alloc_simps [simp]:
  "fa_total (commit_alloc r count s) = fa_total s"
  "fa_used (commit_alloc r count s) = fa_used s + of_nat count"
  "fa_free_hint (commit_alloc r count s) = (if count = 1 then r + 1 else fa_free_hint s)"
  "fa_contiguous_hint (commit_alloc r count s) =
     (if count = 1 then fa_contiguous_hint s else r + count)"
  by (simp_all add: commit_alloc_def Let_def)

lemma commit_alloc_wf:
  assumes "r + count \<le> cap" and "fa_wf cap s"
  shows "fa_wf cap (commit_alloc r count s)"
proof -
  have "length (fa_bitmap (commit_alloc r count s)) = length (fa_bitmap s)"
    using assms by (simp add: commit_alloc_def Let_def fa_wf_def length_batched)
  with assms show ?thesis by (auto simp: fa_wf_def)
qed

text \<open>With the hint a lower bound of the free frames, the search for one frame finds the least.\<close>

lemma alloc_search_one:
  assumes "fa_wf cap s"
  shows "alloc_search cap 1 s = None \<longleftrightarrow> free_set cap s = {}"
    and "\<forall>i\<in>free_set cap s. fa_free_hint s \<le> i \<Longrightarrow> free_set cap s \<noteq> {} \<Longrightarrow>
         alloc_search cap 1 s = Some (Min (free_set cap s))"
proof -
  have one: "first_free_run (fa_bitmap s) a b 1 = find_from (\<lambda>i. \<not> bm_test (fa_bitmap s) i) a b" for a b
    unfolding first_free_run_def by (rule find_from_cong) (auto simp: free_run_def)
  show "alloc_search cap 1 s = None \<longleftrightarrow> free_set cap s = {}"
    using assms unfolding alloc_search_def one Let_def
    by (auto simp: free_set_def find_from_None fa_wf_def split: option.split)
      (metis not_le, auto simp: find_from_Some)
  assume lb: "\<forall>i\<in>free_set cap s. fa_free_hint s \<le> i" and ne: "free_set cap s \<noteq> {}"
  let ?m = "Min (free_set cap s)"
  obtain m where m: "?m = m" "m \<in> free_set cap s" "\<And>j. j < m \<Longrightarrow> j \<notin> free_set cap s"
    using Min_in [OF finite_free_set ne] by (meson Min_le finite_free_set leD)
  then have "\<And>j. j < m \<Longrightarrow> j < cap \<Longrightarrow> bm_test (fa_bitmap s) j" "m < cap" "\<not> bm_test (fa_bitmap s) m"
    by (auto simp: free_set_def)
  moreover have "fa_free_hint s \<le> m" using lb m by blast
  ultimately have "find_from (\<lambda>i. \<not> bm_test (fa_bitmap s) i) (fa_free_hint s) cap = Some m"
    by (simp add: find_from_Some)
  then show "alloc_search cap 1 s = Some ?m" unfolding alloc_search_def one Let_def m(1) by simp
qed

lemma alloc_frames_Some:
  assumes "alloc_frames cap count s = (Some p, s')" and "fa_wf cap s"
  obtains r where "count > 0" "alloc_search cap count s = Some r" "p = of_nat (r * 4096)"
    "s' = commit_alloc r count s" "r + count \<le> cap" "{r..<r + count} \<subseteq> free_set cap s"
    "unat p = r * 4096"
proof (cases "count = 0")
  case False
  then obtain r where r: "alloc_search cap count s = Some r" "p = of_nat (r * 4096)" "s' = commit_alloc r count s"
    using assms(1) by (auto simp: alloc_frames_eq FRAME_SIZE_def split: option.splits)
  with alloc_search_Some [OF r(1) assms(2)] have "r + count \<le> cap" "{r..<r + count} \<subseteq> free_set cap s"
    by blast+
  moreover have "unat p = r * 4096"
    using r(2) frame_addr [of r] calculation(1) False assms(2) by (simp add: fa_wf_def)
  ultimately show thesis using that False r by blast
qed (use assms in simp)

lemma card_diff_range:
  assumes "finite M" and "F \<subseteq> M" and "R \<subseteq> F"
  shows "card (M - (F - R)) = card (M - F) + card R"
proof -
  have "M - (F - R) = (M - F) \<union> R" "(M - F) \<inter> R = {}" "finite R"
    using assms by (auto intro: finite_subset)
  then show ?thesis using assms(1) by (simp add: card_Un_disjoint)
qed

lemma fa_counts_finite: "fa_counts cap M s \<Longrightarrow> finite M"
  by (auto simp: fa_counts_def finite_subset)

lemma fa_counts_card:
  assumes "fa_counts cap M s"
  shows "card M \<le> 2 ^ 52" and "A \<subseteq> M \<Longrightarrow> card A \<le> 2 ^ 52"
proof -
  have "card M \<le> card {..<cap}" using assms by (intro card_mono) (auto simp: fa_counts_def)
  then show *: "card M \<le> 2 ^ 52" using assms by (simp add: fa_counts_def fa_wf_def)
  assume "A \<subseteq> M"
  from order_trans [OF card_mono [OF fa_counts_finite [OF assms] this] *] show "card A \<le> 2 ^ 52" .
qed

lemma unat_add_nat:
  fixes w :: u64
  assumes "unat w + n < 2 ^ 64"
  shows "unat (w + of_nat n) = unat w + n"
  using assms by (simp add: unat_word_ariths unat_of_nat mod_add_right_eq)

text \<open>Marking a set of free frames as used and adding its size to the counter keeps the
  counters right; the other direction for frames that become free.\<close>

lemma fa_counts_take:
  assumes "fa_counts cap M s" and "fa_wf cap s'" and "R \<subseteq> free_set cap s"
    and "free_set cap s' = free_set cap s - R" and "fa_total s' = fa_total s"
    and "fa_used s' = fa_used s + of_nat (card R)"
  shows "fa_counts cap M s'"
proof -
  have fin: "finite M" and sub: "free_set cap s \<subseteq> M" "M - free_set cap s' \<subseteq> M"
    using fa_counts_finite [OF assms(1)] assms(1) by (auto simp: fa_counts_def)
  have c: "card (M - free_set cap s') = card (M - free_set cap s) + card R"
    using card_diff_range [OF fin sub(1) assms(3)] assms(4) by simp
  moreover have "card (M - free_set cap s') \<le> 2 ^ 52"
    using fa_counts_card(2) [OF assms(1) sub(2)] .
  ultimately have "unat (fa_used s') = card (M - free_set cap s')"
    using assms(1,6) by (simp add: fa_counts_def unat_add_nat)
  with assms(1,2,4,5) show ?thesis by (auto simp: fa_counts_def)
qed

lemma fa_counts_give:
  assumes "fa_counts cap M s" and "fa_wf cap s'" and "i \<in> M" and "i \<notin> free_set cap s"
    and "free_set cap s' = insert i (free_set cap s)" and "fa_total s' = fa_total s"
    and "fa_used s' = fa_used s - 1"
  shows "fa_counts cap M s'"
proof -
  have fin: "finite M" using fa_counts_finite [OF assms(1)] .
  have i: "i \<in> M - free_set cap s" using assms by blast
  have "M - free_set cap s' = M - free_set cap s - {i}" unfolding assms(5) by blast
  then have c: "card (M - free_set cap s') = card (M - free_set cap s) - 1"
    using card_Diff_singleton [OF i] by simp
  have "card (M - free_set cap s) > 0" using i fin card_gt_0_iff [of "M - free_set cap s"] by blast
  then have "fa_used s \<noteq> 0" using assms(1) by (auto simp: fa_counts_def)
  then have "unat (fa_used s - 1) = unat (fa_used s) - 1" by (rule unat_minus_one)
  with c assms(1,2,3,5,6,7) show ?thesis by (auto simp: fa_counts_def)
qed

lemma fa_inv_alloc:
  assumes "fa_inv cap M s"
  shows "fa_inv cap M (snd (alloc_frames cap count s))"
proof (cases "alloc_frames cap count s")
  case (Pair res s')
  have wf: "fa_wf cap s" and cnt: "fa_counts cap M s" and lb: "\<forall>i\<in>free_set cap s. fa_free_hint s \<le> i"
    using assms by (auto simp: fa_inv_def fa_counts_def)
  show ?thesis
  proof (cases res)
    case None
    then have "s' = s" using Pair
      by (cases "count = 0") (auto simp: alloc_frames_eq split: option.splits)
    with Pair assms show ?thesis by simp
  next
    case (Some p)
    obtain r where r: "alloc_search cap count s = Some r" "s' = commit_alloc r count s" "r + count \<le> cap"
      "{r..<r + count} \<subseteq> free_set cap s" "count > 0"
      using alloc_frames_Some [OF Pair [unfolded Some] wf] by metis
    have fs: "free_set cap s' = free_set cap s - {r..<r + count}"
      using commit_alloc_free_set [OF r(3) wf] r(2) by simp
    have "fa_counts cap M s'"
      using fa_counts_take [OF cnt commit_alloc_wf [OF r(3) wf] r(4)] fs r(2) by simp
    moreover have "fa_free_hint s' \<le> i" if "i \<in> free_set cap s'" for i
    proof (cases "count = 1")
      case True
      with that fs r(4) have ne: "free_set cap s \<noteq> {}" and i: "i \<in> free_set cap s" "i \<noteq> r" by auto
      then have "r = Min (free_set cap s)"
        using alloc_search_one(2) [OF wf lb] r(1) True by simp
      then have "r \<le> i" using i(1) by simp
      with True i(2) r(2) show ?thesis by simp
    next
      case False
      with r(2) lb that fs show ?thesis by simp
    qed
    ultimately show ?thesis using Pair by (simp add: fa_inv_def)
  qed
qed

subsection \<open>Release\<close>

lemma bm_clear_length [simp]: "length (bm_clear bm i) = length bm"
  by (simp add: bm_clear_def)

lemma release_frame_simps [simp]:
  "fa_total (release_frame i s) = fa_total s"
  "fa_free_hint (release_frame i s) = fa_free_hint s"
  "fa_contiguous_hint (release_frame i s) = fa_contiguous_hint s"
  "length (fa_bitmap (release_frame i s)) = length (fa_bitmap s)"
  by (auto simp: release_frame_def)

lemma release_frame_wf: "fa_wf cap s \<Longrightarrow> fa_wf cap (release_frame i s)"
  by (simp add: fa_wf_def)

lemma release_frame_free_set:
  assumes "fa_wf cap s" and "i < cap"
  shows "free_set cap (release_frame i s) = insert i (free_set cap s)"
proof -
  have "i < 64 * length (fa_bitmap s)" using assms by (simp add: fa_wf_def)
  then have "bm_test (fa_bitmap (release_frame i s)) j = (j \<noteq> i \<and> bm_test (fa_bitmap s) j)" for j
    by (auto simp: release_frame_def is_used_def bm_test_clear)
  with assms(2) show ?thesis unfolding free_set_def by blast
qed

lemma release_frame_counts:
  assumes "fa_counts cap M s" and "i \<in> M"
  shows "fa_counts cap M (release_frame i s)"
proof -
  have wf: "fa_wf cap s" and i: "i < cap" using assms by (auto simp: fa_counts_def)
  show ?thesis
  proof (cases "is_used s i")
    case True
    with i have "i \<notin> free_set cap s" by (simp add: free_set_def is_used_def)
    from fa_counts_give [OF assms(1) release_frame_wf [OF wf] assms(2) this release_frame_free_set [OF wf i]]
    show ?thesis using True by (simp add: release_frame_def)
  next
    case False
    with assms show ?thesis by (simp add: release_frame_def)
  qed
qed

lemma release_frames_fold:
  assumes "fa_wf cap s" and "\<forall>i\<in>set is. i < cap"
  shows "free_set cap (fold release_frame is s) = free_set cap s \<union> set is
    \<and> fa_wf cap (fold release_frame is s) \<and> fa_free_hint (fold release_frame is s) = fa_free_hint s"
  using assms
  by (induction "is" arbitrary: s) (auto simp: release_frame_free_set release_frame_wf)

lemma release_frames_counts:
  "fa_counts cap M s \<Longrightarrow> set is \<subseteq> M \<Longrightarrow> fa_counts cap M (fold release_frame is s)"
  by (induction "is" arbitrary: s) (auto simp: release_frame_counts)

lemma lower_hints_wf: "fa_wf cap s \<Longrightarrow> fa_wf cap (lower_hints f s)"
  by (auto simp: fa_wf_def min_le_iff_disj)

lemma lower_hints_free_set [simp]: "free_set cap (lower_hints f s) = free_set cap s"
  by (simp add: free_set_def)

lemma lower_hints_counts: "fa_counts cap M s \<Longrightarrow> fa_counts cap M (lower_hints f s)"
  by (simp add: fa_counts_def lower_hints_wf)

text \<open>The frames a free request names: those of the byte range, cut off at the frame cap.\<close>

definition frame_span :: "nat \<Rightarrow> u64 \<Rightarrow> nat \<Rightarrow> nat set" where
  "frame_span cap phys count =
     {unat phys div FRAME_SIZE..<min (unat phys div FRAME_SIZE + count) cap}"

lemma free_frames_free_set:
  "fa_wf cap s \<Longrightarrow> free_set cap (free_frames cap phys count s) = free_set cap s \<union> frame_span cap phys count"
  using release_frames_fold [of cap s "[unat phys div FRAME_SIZE..<min (unat phys div FRAME_SIZE + count) cap]"]
  by (simp add: free_frames_def frame_span_def Let_def)

lemma free_frames_wf: "fa_wf cap s \<Longrightarrow> fa_wf cap (free_frames cap phys count s)"
  using release_frames_fold [of cap s "[unat phys div FRAME_SIZE..<min (unat phys div FRAME_SIZE + count) cap]"]
  by (simp add: free_frames_def Let_def lower_hints_wf)

lemma fa_inv_free:
  assumes "fa_inv cap M s" and "frame_span cap phys count \<subseteq> M"
  shows "fa_inv cap M (free_frames cap phys count s)"
proof -
  let ?f = "unat phys div FRAME_SIZE"
  let ?s = "fold release_frame [?f..<min (?f + count) cap] s"
  have wf: "fa_wf cap s" and cnt: "fa_counts cap M s" using assms by (auto simp: fa_inv_def fa_counts_def)
  have sp: "fa_wf cap ?s" "fa_free_hint ?s = fa_free_hint s"
    using release_frames_fold [OF wf, of "[?f..<min (?f + count) cap]"] by auto
  have "fa_counts cap M ?s" using release_frames_counts [OF cnt] assms(2) by (simp add: frame_span_def)
  then have c: "fa_counts cap M (free_frames cap phys count s)"
    by (simp add: free_frames_def Let_def lower_hints_counts)
  have "fa_free_hint (free_frames cap phys count s) = min ?f (fa_free_hint s)"
    using sp(2) by (simp add: free_frames_def Let_def)
  then have "fa_free_hint (free_frames cap phys count s) \<le> i" if "i \<in> free_set cap (free_frames cap phys count s)" for i
    using that assms(1) unfolding free_frames_free_set [OF wf]
    by (auto simp: frame_span_def fa_inv_def min_le_iff_disj)
  with c show ?thesis by (simp add: fa_inv_def)
qed

lemma guard_free_frame_eq: "guard_free_frame cap phys s = (if unat phys div FRAME_SIZE \<ge> cap then s else free_frames cap phys 1 s)"
  by (simp add: guard_free_frame_def free_frames_def Let_def)

subsection \<open>Regions\<close>

definition region_frames :: "nat \<Rightarrow> u64 \<Rightarrow> u64 \<Rightarrow> nat set" where
  "region_frames cap base sz = {unat (base + 4096 - 1) div FRAME_SIZE..<min (unat (base + sz) div FRAME_SIZE) cap}"

definition reserved_frames :: "nat \<Rightarrow> u64 \<Rightarrow> u64 \<Rightarrow> nat set" where
  "reserved_frames cap base sz = {unat base div 4096..<min (unat (base + sz + 4095) div 4096) cap}"

lemma mark_range_free_spec:
  assumes "fa_wf cap s" and "e \<le> cap"
  shows "free_set cap (mark_range_free a e s) = free_set cap s \<union> {a..<e}"
    and "fa_wf cap (mark_range_free a e s)"
    and "fa_free_hint (mark_range_free a e s) = (if a < e then min a (fa_free_hint s) else fa_free_hint s)"
    and "fa_total (mark_range_free a e s) = fa_total s" "fa_used (mark_range_free a e s) = fa_used s"
proof -
  have bnd: "a < e \<Longrightarrow> a \<le> e" "e \<le> 64 * length (fa_bitmap s)" using assms by (auto simp: fa_wf_def)
  show "free_set cap (mark_range_free a e s) = free_set cap s \<union> {a..<e}"
  proof (cases "a < e")
    case True
    have t: "bm_test (fa_bitmap (mark_range_free a e s)) j =
        (\<not> (a \<le> j \<and> j < e) \<and> bm_test (fa_bitmap s) j)" for j
      using True by (simp add: mark_range_free_def bm_test_batched_clear bnd)
    show ?thesis using assms(2) by (auto simp: free_set_def t)
  qed (simp add: mark_range_free_def)
  have "a < e \<Longrightarrow> length (batched (\<lambda>i b. bm_clear b i) 0 a e (fa_bitmap s)) = length (fa_bitmap s)"
    using bnd by (simp add: length_batched)
  then show "fa_wf cap (mark_range_free a e s)"
    using assms by (auto simp: mark_range_free_def fa_wf_def min_le_iff_disj)
qed (auto simp: mark_range_free_def)

lemma fa_inv_add_region:
  assumes inv: "fa_inv cap M s" and disj: "region_frames cap base sz \<inter> M = {}"
  shows "fa_inv cap (M \<union> region_frames cap base sz) (add_region cap base sz s)"
proof -
  let ?a = "unat (base + 4096 - 1) div FRAME_SIZE" and ?e = "min (unat (base + sz) div FRAME_SIZE) cap"
  let ?t = "add_region cap base sz s" and ?m = "mark_range_free ?a ?e s" and ?R = "region_frames cap base sz"
  have wf: "fa_wf cap s" and cnt: "fa_counts cap M s" and fin: "finite M"
    using inv by (auto simp: fa_inv_def fa_counts_def finite_subset)
  have R: "?R = {?a..<?e}" by (simp add: region_frames_def)
  note spec = mark_range_free_spec [OF wf, of ?e ?a]
  have bm: "fa_bitmap ?t = fa_bitmap ?m" "fa_used ?t = fa_used s" "fa_free_hint ?t = fa_free_hint ?m"
    using spec by (simp_all add: add_region_def Let_def)
  have fs: "free_set cap ?t = free_set cap s \<union> ?R"
    using spec(1) free_set_cong [OF bm(1)] by (simp add: R)
  have sub: "M \<union> ?R \<subseteq> {..<cap}" using cnt by (auto simp: fa_counts_def R)
  have card: "card (M \<union> ?R) = card M + (?e - ?a)"
    using fin disj by (subst card_Un_disjoint) (auto simp: R)
  have "card (M \<union> ?R) \<le> cap" using card_mono [OF _ sub] by simp
  then have "card M + (?e - ?a) < 2 ^ 64" using wf card by (simp add: fa_wf_def)
  then have "unat (fa_total ?t) = card (M \<union> ?R)"
    using cnt spec(4) card by (simp add: add_region_def Let_def fa_counts_def unat_add_nat)
  moreover have "M \<union> ?R - free_set cap ?t = M - free_set cap s" using disj fs by blast
  moreover have "fa_wf cap ?t" using spec(2) by (simp add: add_region_def Let_def fa_wf_def)
  ultimately have "fa_counts cap (M \<union> ?R) ?t"
    using cnt fs sub bm(2) by (auto simp: fa_counts_def)
  moreover have "fa_free_hint ?t \<le> i" if "i \<in> free_set cap ?t" for i
    using that inv spec(3) unfolding fs R bm(3) by (auto simp: fa_inv_def min_le_iff_disj split: if_splits)
  ultimately show ?thesis by (simp add: fa_inv_def)
qed

lemma bm_set_length [simp]: "length (bm_set bm i) = length bm"
  by (simp add: bm_set_def)

text \<open>One step of reserving: the frames \<open>R\<close> are taken out of the free set and counted.\<close>

definition reserves :: "nat \<Rightarrow> nat set \<Rightarrow> nat set \<Rightarrow> frame_allocator \<Rightarrow> frame_allocator \<Rightarrow> bool" where
  "reserves cap M R s s' =
     (fa_counts cap M s' \<and> free_set cap s' = free_set cap s - R \<and> fa_free_hint s' = fa_free_hint s
      \<and> fa_total s' = fa_total s)"

lemma reserves_refl: "fa_counts cap M s \<Longrightarrow> reserves cap M {} s s"
  by (simp add: reserves_def)

lemma reserves_trans: "reserves cap M R s t \<Longrightarrow> reserves cap M Q t u \<Longrightarrow> reserves cap M (R \<union> Q) s u"
  by (auto simp: reserves_def)

lemma counts_room:
  assumes "fa_counts cap M s" and "R \<subseteq> free_set cap s"
  shows "unat (fa_used s) + card R \<le> unat (fa_total s)"
proof -
  have fin: "finite M" using fa_counts_finite [OF assms(1)] .
  have "card (M - (free_set cap s - R)) = card (M - free_set cap s) + card R"
    using card_diff_range [OF fin _ assms(2)] assms(1) by (simp add: fa_counts_def)
  moreover have "card (M - (free_set cap s - R)) \<le> card M" using fin by (simp add: card_mono)
  ultimately show ?thesis using assms(1) by (simp add: fa_counts_def)
qed

lemma reserve_bit_reserves:
  assumes "fa_counts cap M s" and "i < cap"
  shows "reserves cap M {i} s (reserve_bit i s)"
proof (cases "bm_test (fa_bitmap s) i")
  case True
  with assms show ?thesis by (auto simp: reserves_def reserve_bit_def free_set_def)
next
  case False
  have wf: "fa_wf cap s" using assms(1) by (simp add: fa_counts_def)
  have i: "{i} \<subseteq> free_set cap s" using False assms(2) by (simp add: free_set_def)
  then have "fa_used s < fa_total s" using counts_room [OF assms(1) i] by (simp add: word_less_nat_alt)
  then have b: "reserve_bit i s = s\<lparr>fa_bitmap := bm_set (fa_bitmap s) i, fa_used := fa_used s + 1\<rparr>"
    using False by (simp add: reserve_bit_def)
  have t: "bm_test (bm_set (fa_bitmap s) i) j = (j = i \<or> bm_test (fa_bitmap s) j)" for j
    using wf assms(2) by (intro bm_test_set) (simp add: fa_wf_def)
  have fs: "free_set cap (reserve_bit i s) = free_set cap s - {i}"
    unfolding b by (auto simp: free_set_def t)
  have "fa_wf cap (reserve_bit i s)" using wf by (simp add: b fa_wf_def)
  from fa_counts_take [OF assms(1) this i fs] show ?thesis using fs by (simp add: b reserves_def)
qed

lemma reserve_bits_reserves:
  "fa_counts cap M s \<Longrightarrow> \<forall>i\<in>set is. i < cap \<Longrightarrow> reserves cap M (set is) s (fold reserve_bit is s)"
proof (induction "is" arbitrary: s)
  case (Cons i "is")
  have st: "reserves cap M {i} s (reserve_bit i s)" using reserve_bit_reserves Cons.prems by simp
  then have "reserves cap M (set is) (reserve_bit i s) (fold reserve_bit is (reserve_bit i s))"
    using Cons by (simp add: reserves_def)
  from reserves_trans [OF st this] show ?case by simp
qed (simp add: reserves_refl)

lemma count_ones_not:
  fixes w :: u64
  shows "count_ones (NOT w) = card {k. k < 64 \<and> \<not> bit w k}"
proof -
  have "count_ones (NOT w) = card (set (filter (bit (NOT w)) [0..<64]))"
    unfolding count_ones_def by (rule distinct_card [symmetric]) simp
  also have "set (filter (bit (NOT w)) [0..<64]) = {k. k < 64 \<and> \<not> bit w k}"
    by (auto simp: bit_not_iff)
  finally show ?thesis .
qed

lemma count_ones_window:
  assumes "i mod 64 = 0" and "i + 64 \<le> cap"
  shows "count_ones (NOT (fa_bitmap s ! (i div 64))) = card (free_set cap s \<inter> {i..<i + 64})"
proof -
  have "free_set cap s \<inter> {i..<i + 64} = (\<lambda>k. i + k) ` {k. k < 64 \<and> \<not> bit (fa_bitmap s ! (i div 64)) k}"
  proof (intro set_eqI iffI)
    fix j assume j: "j \<in> free_set cap s \<inter> {i..<i + 64}"
    then have "j = i + (j - i)" "j - i < 64" by auto
    with j show "j \<in> (\<lambda>k. i + k) ` {k. k < 64 \<and> \<not> bit (fa_bitmap s ! (i div 64)) k}"
      using word_bits_below [OF assms(1), of "j - i" "fa_bitmap s"] by (auto simp: free_set_def)
  next
    fix j assume "j \<in> (\<lambda>k. i + k) ` {k. k < 64 \<and> \<not> bit (fa_bitmap s ! (i div 64)) k}"
    then show "j \<in> free_set cap s \<inter> {i..<i + 64}"
      using word_bits_below [OF assms(1), of _ "fa_bitmap s"] assms(2) by (auto simp: free_set_def)
  qed
  then show ?thesis by (simp add: count_ones_not card_image)
qed

lemma reserve_words_reserves:
  assumes "fa_counts cap M s" and "i mod 64 = 0" and "i \<le> e" and "e \<le> cap"
    and "reserve_words i e s = (i', s')"
  shows "i \<le> i' \<and> i' \<le> e \<and> reserves cap M {i..<i'} s s'"
  using assms
proof (induction i e s rule: reserve_words.induct)
  case (1 i e s)
  show ?case
  proof (cases "i + 64 \<le> e")
    case False
    then show ?thesis using "1.prems" by (simp add: reserve_words.simps [of i e s] reserves_refl)
  next
    case True
    let ?R = "free_set cap s \<inter> {i..<i + 64}"
    let ?newly = "count_ones (NOT (fa_bitmap s ! (i div 64)))"
    let ?room = "unat (saturating_sub (fa_total s) (fa_used s))"
    let ?t = "s\<lparr>fa_bitmap := (fa_bitmap s)[i div 64 := - 1], fa_used := fa_used s + of_nat (min ?newly ?room)\<rparr>"
    have wf: "fa_wf cap s" using "1.prems"(1) by (simp add: fa_counts_def)
    have cap: "i + 64 \<le> cap" "i + 64 \<le> 64 * length (fa_bitmap s)"
      using True "1.prems"(4) wf by (auto simp: fa_wf_def)
    have newly: "?newly = card ?R" using count_ones_window [OF "1.prems"(2) cap(1)] by simp
    have "unat (fa_used s) + card ?R \<le> unat (fa_total s)"
      using counts_room [OF "1.prems"(1), of ?R] by simp
    then have used: "fa_used ?t = fa_used s + of_nat (card ?R)"
      by (simp add: newly unat_saturating_sub min_absorb1)
    have "bm_test (fa_bitmap ?t) j = (i \<le> j \<and> j < i + 64 \<or> bm_test (fa_bitmap s) j)" for j
      using bm_test_word_update [OF "1.prems"(2) cap(2), of "- 1" j] by auto
    then have fs: "free_set cap ?t = free_set cap s - ?R"
      unfolding free_set_def by (intro set_eqI) (simp, blast)
    have "fa_wf cap ?t" using wf by (simp add: fa_wf_def)
    then have st: "reserves cap M {i..<i + 64} s ?t"
      using fa_counts_take [OF "1.prems"(1) _ _ fs _ used] fs by (auto simp: reserves_def)
    have "reserve_words (i + 64) e ?t = (i', s')"
      using "1.prems"(5) True by (simp add: reserve_words.simps [of i e s] Let_def)
    with "1.IH" [OF True refl refl, of] st "1.prems"(2,4) True
    have "i + 64 \<le> i' \<and> i' \<le> e \<and> reserves cap M {i + 64..<i'} ?t s'"
      by (simp add: reserves_def)
    moreover from this have "{i..<i + 64} \<union> {i + 64..<i'} = {i..<i'}" by auto
    ultimately show ?thesis using reserves_trans [OF st, of "{i + 64..<i'}" s'] by auto
  qed
qed

lemma reserve_words_done: "e < i + 64 \<Longrightarrow> reserve_words i e s = (i, s)"
  by (simp add: reserve_words.simps)

lemma reserve_span_reserves:
  assumes cnt: "fa_counts cap M s" and "a < e" and "e \<le> cap" and h: "h = min (align64_up a) e"
    and w: "reserve_words h e (fold reserve_bit [a..<h] s) = (i, s2)"
  shows "reserves cap M {a..<e} s (fold reserve_bit [i..<e] s2)"
proof -
  let ?s1 = "fold reserve_bit [a..<h] s"
  have ah: "a \<le> h" "h \<le> e" using assms(2) align64_up_ge [of a] by (auto simp: h)
  have r1: "reserves cap M {a..<h} s ?s1"
    using reserve_bits_reserves [OF cnt, of "[a..<h]"] ah assms(3) by simp
  have i: "h \<le> i \<and> i \<le> e \<and> reserves cap M {h..<i} ?s1 s2"
  proof (cases "h = e")
    case True
    with w r1 show ?thesis by (auto simp: reserve_words_done reserves_def)
  next
    case False
    then have "h mod 64 = 0" by (auto simp: h min_def)
    moreover have "fa_counts cap M ?s1" using r1 by (simp add: reserves_def)
    ultimately show ?thesis by (intro reserve_words_reserves [OF _ _ ah(2) assms(3) w])
  qed
  then have "reserves cap M {i..<e} s2 (fold reserve_bit [i..<e] s2)"
    using reserve_bits_reserves [of cap M s2 "[i..<e]"] assms(3) by (simp add: reserves_def)
  then have "reserves cap M ({a..<h} \<union> {h..<i} \<union> {i..<e}) s (fold reserve_bit [i..<e] s2)"
    using i by (intro reserves_trans [OF reserves_trans [OF r1]]) auto
  moreover have "{a..<h} \<union> {h..<i} \<union> {i..<e} = {a..<e}" using ah i by auto
  ultimately show ?thesis by simp
qed

lemma reserve_region_reserves:
  assumes "fa_counts cap M s"
  shows "reserves cap M (reserved_frames cap base sz) s (reserve_region cap base sz s)"
proof -
  obtain a e where ae: "a = unat base div 4096" "e = min (unat (base + sz + 4095) div 4096) cap" by blast
  obtain i s2 where w: "reserve_words (min (align64_up a) e) e (fold reserve_bit [a..<min (align64_up a) e] s) = (i, s2)"
    by fastforce
  show ?thesis
  proof (cases "a < e")
    case False
    with assms show ?thesis
      by (simp add: reserve_region_def reserved_frames_def Let_def reserves_refl flip: ae)
  next
    case True
    moreover have "reserve_region cap base sz s = fold reserve_bit [i..<e] s2"
      using True w by (simp add: reserve_region_def Let_def flip: ae)
    moreover have "e \<le> cap" using ae by simp
    ultimately show ?thesis
      using reserve_span_reserves [OF assms True _ refl w] by (simp add: reserved_frames_def flip: ae)
  qed
qed

lemma fa_inv_reserve:
  "fa_inv cap M s \<Longrightarrow> fa_inv cap M (reserve_region cap base sz s)"
  using reserve_region_reserves [of cap M s base sz] by (auto simp: fa_inv_def reserves_def)

section \<open>Reachable allocator states\<close>

text \<open>
  \<open>pmm_reach cap M s\<close>: \<open>s\<close> is reached from the initial allocator by any sequence of calls,
  \<open>M\<close> the frames added so far. A region is added once, and only frames of added
  regions are freed; nothing is required of allocations and reservations.
\<close>

inductive pmm_reach :: "nat \<Rightarrow> nat set \<Rightarrow> frame_allocator \<Rightarrow> bool" for cap :: nat where
  init: "pmm_reach cap {} fa_new"
| add: "pmm_reach cap M s \<Longrightarrow> region_frames cap base sz \<inter> M = {} \<Longrightarrow>
    pmm_reach cap (M \<union> region_frames cap base sz) (add_region cap base sz s)"
| reserve: "pmm_reach cap M s \<Longrightarrow> pmm_reach cap M (reserve_region cap base sz s)"
| alloc: "pmm_reach cap M s \<Longrightarrow> pmm_reach cap M (snd (alloc_frames cap count s))"
| free: "pmm_reach cap M s \<Longrightarrow> frame_span cap phys count \<subseteq> M \<Longrightarrow>
    pmm_reach cap M (free_frames cap phys count s)"
| guard_free: "pmm_reach cap M s \<Longrightarrow> frame_span cap phys 1 \<subseteq> M \<Longrightarrow>
    pmm_reach cap M (guard_free_frame cap phys s)"

lemma fa_inv_new: "cap \<le> MAX_FRAMES \<Longrightarrow> fa_inv cap {} fa_new"
proof -
  assume cap: "cap \<le> MAX_FRAMES"
  have used: "bm_test (replicate (MAX_FRAMES div 64) (- 1)) j" if "j < cap" for j
  proof -
    have "j div 64 < MAX_FRAMES div 64" using that cap by (simp add: MAX_FRAMES_def)
    then show ?thesis by (simp add: bm_test_bit)
  qed
  then show ?thesis
    using cap by (auto simp: fa_inv_def fa_counts_def fa_wf_def fa_new_def free_set_def MAX_FRAMES_def)
qed

lemma pmm_reach_inv: "pmm_reach cap M s \<Longrightarrow> cap \<le> MAX_FRAMES \<Longrightarrow> fa_inv cap M s"
  by (induction rule: pmm_reach.induct)
    (simp_all add: fa_inv_new fa_inv_add_region fa_inv_reserve fa_inv_alloc fa_inv_free guard_free_frame_eq)

section \<open>Properties\<close>

text \<open>C1: In every state reached from the initial allocator by adding regions, reserving,
  allocating and freeing, the bitmap and the two counters agree: \<open>total\<close> is the number of
  frames added, \<open>used\<close> the number of them whose bit is set, only added frames are free, the
  hints stay inside the bitmap and no frame below \<open>free_hint\<close> is free.\<close>

theorem pmm_reachable_consistent:
  assumes "pmm_reach cap M s" and "cap \<le> MAX_FRAMES"
  shows "unat (fa_total s) = card M \<and> unat (fa_used s) = card (M - free_set cap s)
    \<and> free_set cap s \<subseteq> M \<and> fa_free_hint s \<le> cap \<and> fa_contiguous_hint s \<le> cap
    \<and> cap \<le> 64 * length (fa_bitmap s) \<and> (\<forall>i<fa_free_hint s. i \<notin> free_set cap s)"
  using pmm_reach_inv [OF assms] by (auto simp: fa_inv_def fa_counts_def fa_wf_def)

theorem pmm_reachable_consistent_witness:
  "unat (fa_total (add_region MAX_FRAMES 0x100000 0x3000 fa_new)) = 3"
proof -
  have R: "region_frames MAX_FRAMES 0x100000 0x3000 = {256..<259}"
    by (simp add: region_frames_def FRAME_SIZE_def MAX_FRAMES_def)
  have "pmm_reach MAX_FRAMES ({} \<union> region_frames MAX_FRAMES 0x100000 0x3000)
      (add_region MAX_FRAMES 0x100000 0x3000 fa_new)"
    by (intro pmm_reach.add pmm_reach.init) simp
  from pmm_reachable_consistent [OF this] show ?thesis by (simp add: R)
qed

text \<open>C7: The word-parallel search of \<open>find_contiguous\<close>, which skips full words, takes
  empty words whole and uses \<open>trailing_ones\<close>, returns exactly the least index at which a
  run of \<open>count\<close> free frames inside the interval starts, and \<open>None\<close> if there is none.\<close>

theorem find_contiguous_first_fit:
  "find_contiguous s from to count =
     (if count = 0 then None else first_free_run (fa_bitmap s) from to count)"
  by (cases "count = 0") (simp_all add: find_contiguous_def [of _ _ _ 0] find_contiguous_eq)

text \<open>C6: A successful allocation returns the page-aligned address of a run of \<open>count\<close>
  frames that were all free, marks exactly these as used and adds \<open>count\<close> to the counter; a
  failed one changes nothing, and one frame is refused only when no frame is free.\<close>

theorem alloc_frames_correct:
  assumes "fa_wf cap s"
  shows "case alloc_frames cap count s of
      (None, s') \<Rightarrow> s' = s \<and> (count \<noteq> 1 \<or> free_set cap s = {})
    | (Some p, s') \<Rightarrow>
        (let r = unat p div FRAME_SIZE
         in count > 0 \<and> unat p mod FRAME_SIZE = 0 \<and> r + count \<le> cap
            \<and> {r..<r + count} \<subseteq> free_set cap s
            \<and> free_set cap s' = free_set cap s - {r..<r + count}
            \<and> fa_used s' = fa_used s + of_nat count \<and> fa_total s' = fa_total s \<and> fa_wf cap s')"
proof (cases "alloc_frames cap count s")
  case (Pair res s')
  show ?thesis
  proof (cases res)
    case None
    then have "s' = s \<and> (count \<noteq> 1 \<or> free_set cap s = {})"
      using Pair alloc_search_one(1) [OF assms]
      by (cases "count = 0") (auto simp: alloc_frames_eq split: option.splits)
    with Pair None show ?thesis by simp
  next
    case (Some p)
    obtain r where r: "count > 0" "s' = commit_alloc r count s" "r + count \<le> cap"
      "{r..<r + count} \<subseteq> free_set cap s" "unat p = r * 4096"
      using alloc_frames_Some [OF Pair [unfolded Some] assms] by metis
    then show ?thesis
      unfolding Pair Some
      using commit_alloc_free_set [OF r(3) assms] commit_alloc_wf [OF r(3) assms]
      by (simp add: FRAME_SIZE_def Let_def)
  qed
qed

lemmas pmm_eval = alloc_frames_def find_contiguous_def find_single_def find_from_def scan_run.simps
  find_word.simps batched_def fill_words.simps bm_test_def bm_set_def bm_clear_def align64_up_def upt_rec
  free_frames_def release_frame_def is_used_def FRAME_SIZE_def lower_hints_def

definition fa_example :: frame_allocator where
  "fa_example = \<lparr>fa_bitmap = [- 16], fa_total = 4, fa_used = 0, fa_free_hint = 0, fa_contiguous_hint = 3\<rparr>"

lemma fa_example_alloc: "alloc_frames 8 1 fa_example =
    (Some 0, fa_example\<lparr>fa_bitmap := [- 15], fa_used := 1, fa_free_hint := 1\<rparr>)"
  by (simp add: fa_example_def pmm_eval)

lemma fa_example_free_set: "free_set 8 fa_example = {0, 1, 2, 3}"
  by (simp add: free_set_code fa_example_def pmm_eval) (simp add: numeral_2_eq_2 numeral_3_eq_3)

theorem alloc_frames_correct_witness:
  "fa_wf 8 fa_example \<and> snd (alloc_frames 8 1 fa_example) = fa_example\<lparr>fa_bitmap := [- 15], fa_used := 1, fa_free_hint := 1\<rparr>
   \<and> {0..<1} \<subseteq> free_set 8 fa_example"
proof -
  have wf: "fa_wf 8 fa_example" by (simp add: fa_wf_def fa_example_def)
  from alloc_frames_correct [OF wf, of 1] wf show ?thesis unfolding fa_example_alloc by (simp add: Let_def FRAME_SIZE_def)
qed

text \<open>C25: In a consistent state a request for one frame returns the lowest free frame, and
  fails only when there is none.\<close>

theorem alloc_one_lowest:
  assumes "fa_inv cap M s"
  shows "fst (alloc_frames cap 1 s) =
    (if free_set cap s = {} then None else Some (of_nat (Min (free_set cap s) * FRAME_SIZE)))"
proof -
  have wf: "fa_wf cap s" and lb: "\<forall>i\<in>free_set cap s. fa_free_hint s \<le> i"
    using assms by (auto simp: fa_inv_def fa_counts_def)
  show ?thesis
    using alloc_search_one [OF wf] lb
    by (cases "free_set cap s = {}") (simp_all only: alloc_frames_eq, simp_all)
qed

lemma fa_example_inv: "fa_inv 8 {0..<4} fa_example"
proof -
  have "card ({0..<4} - {0, 1, 2, 3::nat}) = 0" by (auto simp: card_eq_0_iff)
  then show ?thesis unfolding fa_inv_def fa_counts_def fa_example_free_set by (auto simp: fa_wf_def fa_example_def)
qed

theorem alloc_one_lowest_witness: "fst (alloc_frames 8 1 fa_example) = Some 0"
  using alloc_one_lowest [OF fa_example_inv] by (simp add: fa_example_free_set FRAME_SIZE_def)

text \<open>C26: Freeing what an allocation returned gives back exactly the free frames and the
  counters of before, for any number of frames, and keeps the state consistent.\<close>

theorem alloc_free_roundtrip:
  assumes "fa_inv cap M s" and "alloc_frames cap count s = (Some p, s')"
  shows "free_set cap (free_frames cap p count s') = free_set cap s
    \<and> fa_used (free_frames cap p count s') = fa_used s
    \<and> fa_total (free_frames cap p count s') = fa_total s \<and> fa_inv cap M (free_frames cap p count s')"
proof -
  have wf: "fa_wf cap s" and sub: "free_set cap s \<subseteq> M" using assms(1) by (auto simp: fa_inv_def fa_counts_def)
  obtain r where r: "s' = commit_alloc r count s" "r + count \<le> cap" "{r..<r + count} \<subseteq> free_set cap s"
    "unat p = r * 4096"
    using alloc_frames_Some [OF assms(2) wf] by metis
  have span: "frame_span cap p count = {r..<r + count}" using r by (simp add: frame_span_def FRAME_SIZE_def)
  have inv: "fa_inv cap M (free_frames cap p count s')"
    using fa_inv_free [OF fa_inv_alloc [OF assms(1), of count]] assms(2) r(3) sub by (simp add: span)
  have fs: "free_set cap (free_frames cap p count s') = free_set cap s"
    using r commit_alloc_free_set [OF r(2) wf] by (auto simp: free_frames_free_set commit_alloc_wf wf span)
  with inv assms(1) have "unat (fa_used (free_frames cap p count s')) = unat (fa_used s)"
    "unat (fa_total (free_frames cap p count s')) = unat (fa_total s)"
    by (simp_all add: fa_inv_def fa_counts_def)
  with fs inv show ?thesis by (auto dest: unsigned_word_eqI)
qed

theorem alloc_free_roundtrip_witness:
  "free_set 8 (free_frames 8 0 1 (snd (alloc_frames 8 1 fa_example))) = {0, 1, 2, 3}"
proof -
  have a: "snd (alloc_frames 8 1 fa_example) = fa_example\<lparr>fa_bitmap := [- 15], fa_used := 1, fa_free_hint := 1\<rparr>"
    unfolding fa_example_alloc by simp
  show ?thesis
    using alloc_free_roundtrip [OF fa_example_inv fa_example_alloc] unfolding a fa_example_free_set by (rule conjunct1)
qed


end
