(* ===== verification/Cow.thy ===== *)
theory Cow
  imports Pmm
begin

text \<open>
  The copy-on-write reference counts of \<open>kernel/mm/pmm.rs\<close> (\<open>REFCOUNTS\<close>, the functions
  \<open>ref_inc\<close>, \<open>ref_dec\<close>, \<open>ref_get\<close>, \<open>free_frame_cow\<close>) and the emergency pool of 64 frames.
  The table holds only counts of at least two; a frame without entry has one owner. The
  counts are 16 bits wide and saturate.
\<close>

section \<open>Reference counts\<close>

type_synonym refcounts = "u64 \<rightharpoonup> u16"

definition frame_of :: "u64 \<Rightarrow> u64" where
  "frame_of phys = phys AND NOT 0xFFF"

definition ref_inc :: "u64 \<Rightarrow> refcounts \<Rightarrow> refcounts" where
  "ref_inc phys rc =
     (let frame = frame_of phys;
          entry = (case rc frame of None \<Rightarrow> 1 | Some c \<Rightarrow> c)
      in rc(frame \<mapsto> saturating_add entry 1))"

definition ref_dec :: "u64 \<Rightarrow> refcounts \<Rightarrow> u16 \<times> refcounts" where
  "ref_dec phys rc =
     (let frame = frame_of phys
      in case rc frame of
           None \<Rightarrow> (0, rc)
         | Some c \<Rightarrow>
             (let v = saturating_sub c 1
              in (v, if v \<le> 1 then rc(frame := None) else rc(frame \<mapsto> v))))"

definition ref_get :: "u64 \<Rightarrow> refcounts \<Rightarrow> u16" where
  "ref_get phys rc = (case rc (frame_of phys) of None \<Rightarrow> 1 | Some c \<Rightarrow> c)"

text \<open>The decision shared by the functions that free: the new table, and whether the frame
  goes back to the allocator.\<close>

definition cow_release :: "u64 \<Rightarrow> refcounts \<Rightarrow> bool \<times> refcounts" where
  "cow_release phys rc =
     (let frame = frame_of phys
      in case rc frame of
           None \<Rightarrow> (True, rc)
         | Some c \<Rightarrow>
             (let v = saturating_sub c 1
              in (v = 0, if v \<le> 1 then rc(frame := None) else rc(frame \<mapsto> v))))"

definition free_frame_cow :: "nat \<Rightarrow> u64 \<Rightarrow> refcounts \<times> frame_allocator \<Rightarrow> refcounts \<times> frame_allocator" where
  "free_frame_cow cap phys st =
     (let (should_free, rc) = cow_release phys (fst st)
      in (rc, if should_free then free_frames cap phys 1 (snd st) else snd st))"

definition free_frame_cow_batched ::
    "nat \<Rightarrow> u64 \<Rightarrow> refcounts \<times> frame_allocator \<Rightarrow> bool \<times> refcounts \<times> frame_allocator" where
  "free_frame_cow_batched cap phys st =
     (let (should_free, rc) = cow_release phys (fst st)
      in (should_free, rc, if should_free then guard_free_frame cap phys (snd st) else snd st))"

datatype outcome = Free | NowUnique | StillShared

definition cow_outcome :: "u64 \<Rightarrow> refcounts \<Rightarrow> outcome \<times> refcounts" where
  "cow_outcome phys rc =
     (let frame = frame_of phys
      in case rc frame of
           None \<Rightarrow> (Free, rc)
         | Some c \<Rightarrow>
             (let v = saturating_sub c 1
              in if v = 0 then (Free, rc(frame := None))
                 else if v = 1 then (NowUnique, rc(frame := None))
                 else (StillShared, rc(frame \<mapsto> v))))"

section \<open>Emergency pool\<close>

definition EMERGENCY_POOL_SIZE :: nat where
  "EMERGENCY_POOL_SIZE = 64"

record emergency_pool =
  ep_frames :: "u64 list"
  ep_count :: nat

definition ep_new :: emergency_pool where
  "ep_new = \<lparr>ep_frames = replicate EMERGENCY_POOL_SIZE 0, ep_count = 0\<rparr>"

definition ep_push :: "u64 \<Rightarrow> emergency_pool \<Rightarrow> bool \<times> emergency_pool" where
  "ep_push phys p =
     (if ep_count p \<ge> EMERGENCY_POOL_SIZE then (False, p)
      else (True, p\<lparr>ep_frames := (ep_frames p)[ep_count p := phys], ep_count := ep_count p + 1\<rparr>))"

definition ep_pop :: "emergency_pool \<Rightarrow> u64 option \<times> emergency_pool" where
  "ep_pop p =
     (if ep_count p = 0 then (None, p)
      else (Some (ep_frames p ! (ep_count p - 1)), p\<lparr>ep_count := ep_count p - 1\<rparr>))"

text \<open>\<open>refill_emergency_pool\<close>: the frames collected under the allocator's lock, then pushed;
  a frame that finds no room is freed, with all that follow it.\<close>

fun collect_frames :: "nat \<Rightarrow> nat \<Rightarrow> frame_allocator \<Rightarrow> u64 list \<times> frame_allocator" where
  "collect_frames cap 0 s = ([], s)"
| "collect_frames cap (Suc n) s =
     (case alloc_frames cap 1 s of
        (None, s') \<Rightarrow> ([], s')
      | (Some f, s') \<Rightarrow> (let (fs, s'') = collect_frames cap n s' in (f # fs, s'')))"

fun push_frames :: "nat \<Rightarrow> u64 list \<Rightarrow> emergency_pool \<times> frame_allocator \<Rightarrow> emergency_pool \<times> frame_allocator" where
  "push_frames cap [] st = st"
| "push_frames cap (f # fs) (p, s) =
     (case ep_push f p of
        (True, p') \<Rightarrow> push_frames cap fs (p', s)
      | (False, p') \<Rightarrow> (p', fold (\<lambda>g. free_frames cap g 1) (f # fs) s))"

definition refill_emergency_pool ::
    "nat \<Rightarrow> emergency_pool \<times> frame_allocator \<Rightarrow> emergency_pool \<times> frame_allocator" where
  "refill_emergency_pool cap st =
     (let (p, s) = st; current = ep_count p
      in if current \<ge> EMERGENCY_POOL_SIZE then (p, s)
         else (let needed = EMERGENCY_POOL_SIZE - current;
                   (frames, s') = collect_frames cap needed s
               in if length frames > 0 then push_frames cap frames (p, s') else (p, s')))"

section \<open>Lemmas on the counts\<close>

text \<open>The tables the operations build hold only counts of two or more.\<close>

definition rc_wf :: "refcounts \<Rightarrow> bool" where
  "rc_wf rc = (\<forall>f c. rc f = Some c \<longrightarrow> 2 \<le> unat c)"

lemma rc_wf_empty [simp]: "rc_wf Map.empty"
  by (simp add: rc_wf_def)

lemma unat_one16 [simp]: "unat (1 :: u16) = 1" "unat (2 :: u16) = 2"
  by simp_all

lemma word16_le_one: "v \<le> 1 \<longleftrightarrow> unat v \<le> 1" "v = 0 \<longleftrightarrow> unat v = 0" for v :: u16
  by (simp_all add: word_le_nat_alt unat_eq_zero)

text \<open>The number of owners of a frame, and the two operations in terms of it.\<close>

definition owners :: "u64 \<Rightarrow> refcounts \<Rightarrow> nat" where
  "owners phys rc = unat (ref_get phys rc)"

lemma owners_ge1: "rc_wf rc \<Longrightarrow> 1 \<le> owners phys rc"
  by (fastforce simp: owners_def ref_get_def rc_wf_def split: option.split)

lemma owners_le: "owners phys rc \<le> 65535"
  using unat_lt [of "ref_get phys rc"] by (simp add: owners_def)

lemma owners_ref_inc: "owners phys (ref_inc phys rc) = min (owners phys rc + 1) 65535"
  by (simp add: owners_def ref_get_def ref_inc_def Let_def unat_saturating_add split: option.split)

lemma owners_ref_inc_other:
  "frame_of q \<noteq> frame_of phys \<Longrightarrow> owners q (ref_inc phys rc) = owners q rc"
  by (simp add: owners_def ref_get_def ref_inc_def Let_def)

lemma rc_wf_ref_inc: "rc_wf rc \<Longrightarrow> rc_wf (ref_inc phys rc)"
  by (fastforce simp: rc_wf_def ref_inc_def Let_def unat_saturating_add split: option.splits)

lemma cow_release_owners:
  assumes "rc_wf rc"
  shows "fst (cow_release phys rc) = (owners phys rc = 1)"
    and "owners phys rc > 1 \<Longrightarrow> owners phys (snd (cow_release phys rc)) = owners phys rc - 1"
    and "owners phys rc = 1 \<Longrightarrow> snd (cow_release phys rc) = rc"
    and "frame_of q \<noteq> frame_of phys \<Longrightarrow> owners q (snd (cow_release phys rc)) = owners q rc"
    and "rc_wf (snd (cow_release phys rc))"
proof -
  have "\<And>c. rc (frame_of phys) = Some c \<Longrightarrow> 2 \<le> unat c" using assms by (simp add: rc_wf_def)
  then consider "rc (frame_of phys) = None" | c where "rc (frame_of phys) = Some c" "2 \<le> unat c"
    by (cases "rc (frame_of phys)") auto
  note cases = this
  note defs = cow_release_def owners_def ref_get_def Let_def unat_saturating_sub word16_le_one
  show "fst (cow_release phys rc) = (owners phys rc = 1)" by (rule cases) (auto simp: defs)
  show "owners phys rc > 1 \<Longrightarrow> owners phys (snd (cow_release phys rc)) = owners phys rc - 1"
    by (rule cases) (auto simp: defs)
  show "owners phys rc = 1 \<Longrightarrow> snd (cow_release phys rc) = rc" by (rule cases) (auto simp: defs)
  show "frame_of q \<noteq> frame_of phys \<Longrightarrow> owners q (snd (cow_release phys rc)) = owners q rc"
    by (rule cases) (auto simp: defs)
  show "rc_wf (snd (cow_release phys rc))"
    using assms by (auto simp: rc_wf_def defs split: option.split)
qed

lemma cow_release_shared:
  assumes "rc_wf rc" and "owners phys rc > 1"
  shows "free_frame_cow cap phys (rc, s) = (snd (cow_release phys rc), s)"
  using cow_release_owners(1) [OF assms(1), of phys] assms(2)
  by (simp add: free_frame_cow_def case_prod_beta Let_def)

lemma cow_release_last:
  assumes "rc_wf rc" and "owners phys rc = 1"
  shows "free_frame_cow cap phys (rc, s) = (rc, free_frames cap phys 1 s)"
  using cow_release_owners(1,3) [OF assms(1), of phys] assms(2)
  by (simp add: free_frame_cow_def case_prod_beta Let_def)

lemma owners_incs:
  "rc_wf rc \<Longrightarrow> owners phys rc + k \<le> 65535 \<Longrightarrow>
   rc_wf ((ref_inc phys ^^ k) rc) \<and> owners phys ((ref_inc phys ^^ k) rc) = owners phys rc + k"
  by (induction k) (auto simp: rc_wf_ref_inc owners_ref_inc)

lemma owners_releases:
  assumes "rc_wf rc" and "k < owners phys rc"
  shows "\<exists>rc'. (free_frame_cow cap phys ^^ k) (rc, s) = (rc', s) \<and> rc_wf rc' \<and> owners phys rc' = owners phys rc - k"
  using assms(2)
proof (induction k)
  case 0
  with assms(1) show ?case by simp
next
  case (Suc k)
  then obtain rc' where r: "(free_frame_cow cap phys ^^ k) (rc, s) = (rc', s)" "rc_wf rc'"
    "owners phys rc' = owners phys rc - k" by auto
  with Suc.prems cow_release_shared [OF r(2)] cow_release_owners(2,5) [OF r(2)] show ?case
    by simp
qed

lemma cow_outcome_release:
  assumes "rc_wf rc"
  shows "snd (cow_outcome phys rc) = snd (cow_release phys rc)"
    and "fst (cow_outcome phys rc) =
      (if owners phys rc = 1 then Free else if owners phys rc = 2 then NowUnique else StillShared)"
proof -
  have *: "v = 1 \<longleftrightarrow> unat v = 1" for v :: u16 by (metis unat_one16(1) unsigned_word_eqI)
  show "snd (cow_outcome phys rc) = snd (cow_release phys rc)"
    by (auto simp: cow_outcome_def cow_release_def Let_def word16_le_one * split: option.split)
  show "fst (cow_outcome phys rc) =
      (if owners phys rc = 1 then Free else if owners phys rc = 2 then NowUnique else StillShared)"
    using assms by (fastforce simp: cow_outcome_def owners_def ref_get_def Let_def rc_wf_def
        unat_saturating_sub word16_le_one * split: option.split)
qed

section \<open>Lemmas on the emergency pool\<close>

text \<open>The pool seen as a stack: the frames below \<open>count\<close>, the last one on top.\<close>

definition ep_wf :: "emergency_pool \<Rightarrow> bool" where
  "ep_wf p = (length (ep_frames p) = EMERGENCY_POOL_SIZE \<and> ep_count p \<le> EMERGENCY_POOL_SIZE)"

definition ep_stack :: "emergency_pool \<Rightarrow> u64 list" where
  "ep_stack p = take (ep_count p) (ep_frames p)"

lemma ep_push_stack:
  assumes "ep_wf p" and "ep_count p < EMERGENCY_POOL_SIZE"
  shows "\<exists>p'. ep_push f p = (True, p') \<and> ep_wf p' \<and> ep_stack p' = ep_stack p @ [f] \<and> ep_count p' = ep_count p + 1"
  using assms by (simp add: ep_push_def ep_wf_def ep_stack_def take_Suc_conv_app_nth)

lemma ep_pop_stack:
  assumes "ep_wf p"
  shows "ep_wf (snd (ep_pop p))"
    and "fst (ep_pop p) = (if ep_stack p = [] then None else Some (last (ep_stack p)))"
    and "ep_stack (snd (ep_pop p)) = butlast (ep_stack p)"
  using assms by (auto simp: ep_pop_def ep_wf_def ep_stack_def butlast_take last_conv_nth
      EMERGENCY_POOL_SIZE_def)

lemma push_frames_room:
  "ep_wf p \<Longrightarrow> ep_count p + length fs \<le> EMERGENCY_POOL_SIZE \<Longrightarrow>
   \<exists>p'. push_frames cap fs (p, s) = (p', s) \<and> ep_wf p' \<and> ep_stack p' = ep_stack p @ fs"
proof (induction fs arbitrary: p)
  case (Cons f fs)
  then obtain p' where "ep_push f p = (True, p')" "ep_wf p'" "ep_stack p' = ep_stack p @ [f]"
    "ep_count p' = ep_count p + 1"
    using ep_push_stack [of p f] by auto
  with Cons.IH [of p'] Cons.prems(2) show ?case by simp
qed simp

lemma collect_frames_spec:
  assumes "fa_inv cap M s" and "collect_frames cap n s = (fs, s')"
  shows "length fs \<le> n \<and> fa_inv cap M s' \<and> (length fs < n \<longrightarrow> free_set cap s' = {})
    \<and> distinct fs \<and> free_set cap s' = free_set cap s - (\<lambda>f. unat f div 4096) ` set fs
    \<and> (\<lambda>f. unat f div 4096) ` set fs \<subseteq> free_set cap s \<and> (\<forall>f\<in>set fs. unat f mod 4096 = 0)"
  using assms
proof (induction n arbitrary: s fs)
  case (Suc n)
  have wf: "fa_wf cap s" using Suc.prems(1) by (simp add: fa_inv_def fa_counts_def)
  show ?case
  proof (cases "alloc_frames cap 1 s")
    case (Pair res t)
    have inv: "fa_inv cap M t" using fa_inv_alloc [OF Suc.prems(1), of 1] Pair by simp
    show ?thesis
    proof (cases res)
      case None
      have "alloc_search cap 1 s = None" using Pair None by (simp add: alloc_frames_eq split: option.splits)
      moreover have "t = s" using Pair None by (auto simp: alloc_frames_eq split: option.splits)
      ultimately show ?thesis using Suc.prems Pair None alloc_search_one(1) [OF wf] by simp
    next
      case (Some p)
      obtain r where r: "t = commit_alloc r 1 s" "r + 1 \<le> cap" "{r..<r + 1} \<subseteq> free_set cap s" "unat p = r * 4096"
        using alloc_frames_Some [OF Pair [unfolded Some] wf] by metis
      have fs: "free_set cap t = free_set cap s - {r}"
        using commit_alloc_free_set [OF r(2) wf] r(1) by simp
      obtain gs where gs: "collect_frames cap n t = (gs, s')" "fs = p # gs"
        using Suc.prems(2) Pair Some by (auto split: prod.splits)
      have "r \<notin> (\<lambda>f. unat f div 4096) ` set gs" using Suc.IH [OF inv gs(1)] fs by blast
      then have "p \<notin> set gs" using r(4) image_eqI [of r "\<lambda>f. unat f div 4096" p "set gs"] by auto
      with Suc.IH [OF inv gs(1)] gs(2) fs r(3,4) show ?thesis by auto
    qed
  qed
qed simp

section \<open>Properties\<close>

text \<open>C19: A frame shared by \<open>k\<close> calls of \<open>ref_inc\<close> is given back exactly by the last of its
  \<open>k + 1\<close> owners: the first \<open>k\<close> calls of \<open>free_frame_cow\<close> leave the allocator as it is, and
  the next one frees the frame, as long as the 16-bit count does not saturate.\<close>

theorem cow_last_owner_frees:
  assumes "rc_wf rc" and "ref_get phys rc = 1" and "k < 65535"
  shows "\<exists>rc1 rc2. (free_frame_cow cap phys ^^ k) ((ref_inc phys ^^ k) rc, s) = (rc1, s)
    \<and> (free_frame_cow cap phys ^^ Suc k) ((ref_inc phys ^^ k) rc, s) = (rc2, free_frames cap phys 1 s)
    \<and> rc_wf rc2 \<and> ref_get phys rc2 = 1"
proof -
  have one: "owners phys rc = 1" using assms(2) by (simp add: owners_def)
  then have inc: "rc_wf ((ref_inc phys ^^ k) rc)" "owners phys ((ref_inc phys ^^ k) rc) = 1 + k"
    using owners_incs [OF assms(1), of phys k] assms(3) by auto
  then obtain rc1 where r: "(free_frame_cow cap phys ^^ k) ((ref_inc phys ^^ k) rc, s) = (rc1, s)" "rc_wf rc1"
    "owners phys rc1 = 1"
    using owners_releases [OF inc(1), of k phys cap s] by auto
  have "unat (ref_get phys rc1) = unat (1 :: u16)" using r(3) by (simp add: owners_def)
  then have "ref_get phys rc1 = 1" by (rule unsigned_word_eqI)
  with r cow_release_last [OF r(2,3)] show ?thesis by auto
qed

theorem cow_last_owner_frees_witness:
  "\<exists>rc1 rc2. (free_frame_cow 8 0x1000 ^^ 2) ((ref_inc 0x1000 ^^ 2) Map.empty, fa_example) = (rc1, fa_example)
    \<and> (free_frame_cow 8 0x1000 ^^ Suc 2) ((ref_inc 0x1000 ^^ 2) Map.empty, fa_example) =
      (rc2, free_frames 8 0x1000 1 fa_example)
    \<and> rc_wf rc2 \<and> ref_get 0x1000 rc2 = 1"
  using cow_last_owner_frees [of Map.empty "0x1000" 2 8 fa_example] by (simp add: ref_get_def)

text \<open>C28: Refilling moves frames from the allocator to the emergency pool and loses none: the
  pool grows by pairwise different page-aligned frames that were free and no longer are, it
  ends up full unless the allocator ran out of frames, and the allocator stays consistent.\<close>

theorem refill_emergency_pool_moves_frames:
  assumes "fa_inv cap M s" and "ep_wf p" and "refill_emergency_pool cap (p, s) = (p', s')"
  shows "\<exists>fs. ep_stack p' = ep_stack p @ fs \<and> distinct fs \<and> (\<forall>f\<in>set fs. unat f mod 4096 = 0)
    \<and> (\<lambda>f. unat f div 4096) ` set fs \<subseteq> free_set cap s
    \<and> free_set cap s' = free_set cap s - (\<lambda>f. unat f div 4096) ` set fs
    \<and> fa_inv cap M s' \<and> ep_wf p' \<and> (free_set cap s' = {} \<or> length (ep_stack p') = EMERGENCY_POOL_SIZE)"
proof (cases "ep_count p \<ge> EMERGENCY_POOL_SIZE")
  case True
  with assms have "p' = p" "s' = s" by (auto simp: refill_emergency_pool_def)
  with assms True show ?thesis by (intro exI [of _ "[]"]) (auto simp: ep_wf_def ep_stack_def)
next
  case False
  obtain fs t where c: "collect_frames cap (EMERGENCY_POOL_SIZE - ep_count p) s = (fs, t)" by fastforce
  note spec = collect_frames_spec [OF assms(1) c]
  then have "ep_count p + length fs \<le> EMERGENCY_POOL_SIZE" using False by auto
  from push_frames_room [OF assms(2) this, of cap t] obtain q where
    q: "push_frames cap fs (p, t) = (q, t)" "ep_wf q" "ep_stack q = ep_stack p @ fs" by blast
  then have "p' = q" "s' = t" using assms(3) False c
    by (auto simp: refill_emergency_pool_def Let_def split: if_splits)
  moreover have "length (ep_stack p) = ep_count p" using assms(2) by (simp add: ep_wf_def ep_stack_def)
  ultimately show ?thesis using q spec False by (intro exI [of _ fs]) auto
qed

theorem refill_emergency_pool_moves_frames_witness:
  "\<exists>fs. ep_stack (fst (refill_emergency_pool 8 (ep_new, fa_example))) = fs \<and> distinct fs
    \<and> (\<lambda>f. unat f div 4096) ` set fs \<subseteq> free_set 8 fa_example"
proof -
  have "ep_wf ep_new" "ep_stack ep_new = []" by (simp_all add: ep_wf_def ep_new_def ep_stack_def)
  with refill_emergency_pool_moves_frames [OF fa_example_inv, of ep_new] show ?thesis
    by (metis append_Nil prod.collapse)
qed

end
