(* ===== verification/Bytes.thy ===== *)
theory Bytes
  imports Prelude
begin

text \<open>
  Byte buffers: \<open>to_le_bytes\<close>, \<open>from_le_bytes\<close> and their big-endian forms for every width,
  slices \<open>&buf[a..b]\<close> and \<open>copy_from_slice\<close>, and the codec interface that the on-disk and
  on-wire formats of the kernel are built from.
\<close>

section \<open>Encoding integers\<close>

definition to_le_bytes :: "'a::len word \<Rightarrow> u8 list" where
  "to_le_bytes w = map (\<lambda>i. ucast (drop_bit (8 * i) w)) [0..<LENGTH('a) div 8]"

definition from_le_bytes :: "u8 list \<Rightarrow> 'a::len word" where
  "from_le_bytes bs = foldr (\<lambda>b acc. ucast b OR push_bit 8 acc) bs 0"

definition to_be_bytes :: "'a::len word \<Rightarrow> u8 list" where
  "to_be_bytes w = rev (to_le_bytes w)"

definition from_be_bytes :: "u8 list \<Rightarrow> 'a::len word" where
  "from_be_bytes bs = from_le_bytes (rev bs)"

lemma length_to_le_bytes [simp]: "length (to_le_bytes w) = LENGTH('a) div 8" for w :: "'a::len word"
  by (simp add: to_le_bytes_def)

lemma length_to_be_bytes [simp]: "length (to_be_bytes w) = LENGTH('a) div 8" for w :: "'a::len word"
  by (simp add: to_be_bytes_def)

lemma bit_from_le_bytes:
  "bit (from_le_bytes bs :: 'a::len word) k \<longleftrightarrow> k < LENGTH('a) \<and> k < 8 * length bs \<and> bit (bs ! (k div 8)) (k mod 8)"
proof (induction bs arbitrary: k)
  case Nil
  then show ?case by (simp add: from_le_bytes_def)
next
  case (Cons b bs)
  have step: "from_le_bytes (b # bs) = (ucast b OR push_bit 8 (from_le_bytes bs) :: 'a word)"
    by (simp add: from_le_bytes_def)
  show ?case
  proof (cases "k < 8")
    case True
    then show ?thesis
      by (auto simp: step bit_or_iff bit_push_bit_iff bit_ucast_iff dest: bit_imp_le_length)
  next
    case False
    then obtain j where j: "k = j + 8" by (metis add.commute le_add_diff_inverse not_le)
    have "\<not> bit b (j + 8)" using bit_imp_le_length [of b "j + 8"] by auto
    then have "bit (from_le_bytes (b # bs) :: 'a word) k \<longleftrightarrow> k < LENGTH('a) \<and> bit (from_le_bytes bs :: 'a word) j"
      by (auto simp: step j bit_or_iff bit_push_bit_iff bit_ucast_iff dest: bit_imp_le_length)
    moreover have "(j + 8) div 8 - Suc 0 = j div 8" by simp
    ultimately show ?thesis by (auto simp: Cons.IH j)
  qed
qed

lemma from_le_to_le_bytes:
  fixes w :: "'a::len word"
  assumes "8 dvd LENGTH('a)"
  shows "from_le_bytes (to_le_bytes w) = w"
proof (rule bit_eqI)
  fix k
  assume "possible_bit TYPE('a word) k"
  then have k: "k < LENGTH('a)" by simp
  have n: "8 * (LENGTH('a) div 8) = LENGTH('a)" using assms by simp
  then have "k div 8 < LENGTH('a) div 8" using k by (simp add: less_mult_imp_div_less)
  then have "bit (to_le_bytes w ! (k div 8)) (k mod 8) \<longleftrightarrow> bit w k"
    by (simp add: to_le_bytes_def bit_ucast_iff bit_drop_bit_eq)
  with k n show "bit (from_le_bytes (to_le_bytes w) :: 'a word) k \<longleftrightarrow> bit w k"
    by (simp add: bit_from_le_bytes)
qed

lemma to_le_from_le_bytes:
  assumes "8 * length bs = LENGTH('a::len)"
  shows "to_le_bytes (from_le_bytes bs :: 'a word) = bs"
proof (rule nth_equalityI)
  show len: "length (to_le_bytes (from_le_bytes bs :: 'a word)) = length bs" using assms by simp
  fix i assume "i < length (to_le_bytes (from_le_bytes bs :: 'a word))"
  then have i: "i < length bs" using len by simp
  show "to_le_bytes (from_le_bytes bs :: 'a word) ! i = bs ! i"
  proof (rule bit_eqI)
    fix k assume "possible_bit TYPE(u8) k"
    then have k: "k < 8" by simp
    have "(8 * i + k) div 8 = i" "(8 * i + k) mod 8 = k" using k by simp_all
    moreover have "8 * i + k < LENGTH('a)" using i k assms by linarith
    ultimately show "bit (to_le_bytes (from_le_bytes bs :: 'a word) ! i) k = bit (bs ! i) k"
      using i k len by (simp add: to_le_bytes_def bit_ucast_iff bit_drop_bit_eq bit_from_le_bytes assms)
  qed
qed

section \<open>Slices\<close>

definition slice :: "nat \<Rightarrow> nat \<Rightarrow> 'a list \<Rightarrow> 'a list" where
  "slice a b xs = take (b - a) (drop a xs)"

definition copy_at :: "nat \<Rightarrow> 'a list \<Rightarrow> 'a list \<Rightarrow> 'a list" where
  "copy_at a ys xs = take a xs @ ys @ drop (a + length ys) xs"

lemma length_slice [simp]: "b \<le> length xs \<Longrightarrow> length (slice a b xs) = b - a"
  by (simp add: slice_def)

lemma length_copy_at [simp]: "a + length ys \<le> length xs \<Longrightarrow> length (copy_at a ys xs) = length xs"
  by (simp add: copy_at_def)

lemma slice_copy_same: "a \<le> length xs \<Longrightarrow> slice a (a + length ys) (copy_at a ys xs) = ys"
  by (simp add: slice_def copy_at_def)

lemma nth_copy_at:
  assumes "a + length ys \<le> length xs" and "i < length xs"
  shows "copy_at a ys xs ! i = (if a \<le> i \<and> i < a + length ys then ys ! (i - a) else xs ! i)"
  using assms by (auto simp: copy_at_def nth_append min_def)

lemma nth_slice: "i < b - a \<Longrightarrow> b \<le> length xs \<Longrightarrow> slice a b xs ! i = xs ! (a + i)"
  by (simp add: slice_def)

lemma slice_copy_other:
  assumes "b \<le> c \<or> c + length ys \<le> a" and "c + length ys \<le> length xs" and "b \<le> length xs"
  shows "slice a b (copy_at c ys xs) = slice a b xs"
  by (rule nth_equalityI) (use assms in \<open>auto simp: nth_slice nth_copy_at\<close>)

section \<open>Fixed-width fields\<close>

text \<open>
  A codec writes a value into a fixed number of bytes and reads it back. A record laid out
  in a buffer is a sequence of fields at fixed offsets: reading a field returns what was
  written there last, and is not affected by writes elsewhere.
\<close>

locale codec =
  fixes enc :: "'v \<Rightarrow> u8 list" and dec :: "u8 list \<Rightarrow> 'v" and width :: nat
  assumes dec_enc: "dec (enc v) = v"
    and length_enc: "length (enc v) = width"
begin

lemma get_put: "a \<le> length buf \<Longrightarrow> dec (slice a (a + width) (copy_at a (enc v) buf)) = v"
  using slice_copy_same [of a buf "enc v"] by (simp add: dec_enc length_enc)

lemma get_other:
  assumes "a + width \<le> c \<or> c + length ys \<le> a" and "c + length ys \<le> length buf" and "a + width \<le> length buf"
  shows "dec (slice a (a + width) (copy_at c ys buf)) = dec (slice a (a + width) buf)"
  using slice_copy_other [OF assms] by simp

end

interpretation le16: codec "to_le_bytes :: u16 \<Rightarrow> u8 list" from_le_bytes 2
  by unfold_locales (simp_all add: from_le_to_le_bytes)

interpretation le32: codec "to_le_bytes :: u32 \<Rightarrow> u8 list" from_le_bytes 4
  by unfold_locales (simp_all add: from_le_to_le_bytes)

interpretation le64: codec "to_le_bytes :: u64 \<Rightarrow> u8 list" from_le_bytes 8
  by unfold_locales (simp_all add: from_le_to_le_bytes)

interpretation be16: codec "to_be_bytes :: u16 \<Rightarrow> u8 list" from_be_bytes 2
  by unfold_locales (simp_all add: from_le_to_le_bytes to_be_bytes_def from_be_bytes_def)

interpretation be32: codec "to_be_bytes :: u32 \<Rightarrow> u8 list" from_be_bytes 4
  by unfold_locales (simp_all add: from_le_to_le_bytes to_be_bytes_def from_be_bytes_def)

end
