(* ===== verification/Alloc.thy ===== *)
theory Alloc
  imports Prelude
begin

text \<open>
  The interface that the kernel's allocators of single objects share: physical frames
  (\<open>kernel/mm/pmm.rs\<close>), swap slots (\<open>kernel/mm/swap.rs\<close>) and slab indices
  (\<open>kernel/fs/vfs/slab.rs\<close>). A client holds the objects it was given and gives back only
  those; \<open>serve\<close> runs a sequence of its requests.
\<close>

datatype request = Acquire | Release nat

fun serve1 :: "('s \<Rightarrow> 'i option \<times> 's) \<Rightarrow> ('i \<Rightarrow> 's \<Rightarrow> 's) \<Rightarrow> request \<Rightarrow> 'i list \<times> 's \<Rightarrow> 'i list \<times> 's" where
  "serve1 alloc release Acquire (held, s) =
     (case alloc s of (None, s') \<Rightarrow> (held, s') | (Some i, s') \<Rightarrow> (i # held, s'))"
| "serve1 alloc release (Release n) (held, s) =
     (if n < length held then (take n held @ drop (Suc n) held, release (held ! n) s) else (held, s))"

definition serve :: "('s \<Rightarrow> 'i option \<times> 's) \<Rightarrow> ('i \<Rightarrow> 's \<Rightarrow> 's) \<Rightarrow> request list \<Rightarrow> 'i list \<times> 's \<Rightarrow> 'i list \<times> 's" where
  "serve alloc release rs st = fold (serve1 alloc release) rs st"

lemma distinct_remove_nth:
  assumes "distinct xs" and "n < length xs"
  shows "distinct (take n xs @ drop (Suc n) xs) \<and> set (take n xs @ drop (Suc n) xs) = set xs - {xs ! n}"
proof -
  have xs: "xs = take n xs @ xs ! n # drop (Suc n) xs" using assms(2) by (rule id_take_nth_drop)
  have d: "distinct (take n xs @ xs ! n # drop (Suc n) xs)" using assms(1) xs by simp
  then have "set (take n xs @ xs ! n # drop (Suc n) xs) - {xs ! n} = set (take n xs @ drop (Suc n) xs)"
    "distinct (take n xs @ drop (Suc n) xs)"
    by auto
  then show ?thesis unfolding xs [symmetric] by blast
qed

locale allocator =
  fixes inv :: "'s \<Rightarrow> bool"
    and used :: "'s \<Rightarrow> 'i set"
    and pool :: "'s \<Rightarrow> 'i set"
    and alloc :: "'s \<Rightarrow> 'i option \<times> 's"
    and release :: "'i \<Rightarrow> 's \<Rightarrow> 's"
  assumes alloc_Some: "inv s \<Longrightarrow> alloc s = (Some i, s') \<Longrightarrow>
      i \<in> pool s \<and> i \<notin> used s \<and> used s' = insert i (used s) \<and> pool s' = pool s \<and> inv s'"
    and alloc_None: "inv s \<Longrightarrow> alloc s = (None, s') \<Longrightarrow> s' = s \<and> pool s \<subseteq> used s"
    and release_used: "inv s \<Longrightarrow> i \<in> used s \<Longrightarrow> i \<in> pool s \<Longrightarrow>
      used (release i s) = used s - {i} \<and> pool (release i s) = pool s \<and> inv (release i s)"
begin

text \<open>The client's side: what it holds is always allocated, and never twice.\<close>

definition holds :: "'i set \<Rightarrow> 'i set \<Rightarrow> 'i list \<times> 's \<Rightarrow> bool" where
  "holds P U st = (inv (snd st) \<and> distinct (fst st) \<and> pool (snd st) = P \<and> set (fst st) \<subseteq> P
     \<and> set (fst st) \<inter> U = {} \<and> used (snd st) = U \<union> set (fst st))"

lemma holds_serve1: "holds P U st \<Longrightarrow> holds P U (serve1 alloc release r st)"
proof -
  obtain held s where st: "st = (held, s)" by fastforce
  assume h: "holds P U st"
  then have inv: "inv s" and d: "distinct held" and P: "pool s = P" "set held \<subseteq> P"
    and u: "used s = U \<union> set held" and dis: "set held \<inter> U = {}"
    by (auto simp: holds_def st)
  show ?thesis
  proof (cases r)
    case Acquire
    obtain res s' where a: "alloc s = (res, s')" by fastforce
    show ?thesis
    proof (cases res)
      case None
      with alloc_None [OF inv] a h Acquire show ?thesis by (auto simp: st)
    next
      case (Some i)
      with alloc_Some [OF inv] a have "i \<in> P \<and> i \<notin> used s \<and> used s' = insert i (used s) \<and> pool s' = P \<and> inv s'"
        using P(1) by blast
      with Some a Acquire d P(2) u dis show ?thesis by (auto simp: holds_def st)
    qed
  next
    case (Release n)
    show ?thesis
    proof (cases "n < length held")
      case True
      then have i: "held ! n \<in> used s" "held ! n \<in> pool s" using u P by auto
      have nU: "held ! n \<notin> U" using True dis by (meson disjoint_iff nth_mem)
      note dr = distinct_remove_nth [OF d True]
      have "used s - {held ! n} = U \<union> (set held - {held ! n})" using u nU by blast
      with release_used [OF inv i] dr P dis True Release show ?thesis
        by (auto simp: holds_def st)
    next
      case False
      with h Release show ?thesis by (simp add: st)
    qed
  qed
qed

lemma holds_serve: "holds P U st \<Longrightarrow> holds P U (serve alloc release rs st)"
  unfolding serve_def by (induction rs arbitrary: st) (simp_all add: holds_serve1)

lemma serve_exclusive:
  assumes "inv s" and "serve alloc release rs ([], s) = (held, s')"
  shows "distinct held \<and> set held \<subseteq> pool s \<and> set held \<inter> used s = {} \<and> used s' = used s \<union> set held \<and> inv s'"
proof -
  have "holds (pool s) (used s) ([], s)" using assms(1) by (simp add: holds_def)
  from holds_serve [OF this, of rs] assms(2) show ?thesis by (simp add: holds_def)
qed

lemma release_alloc:
  assumes "inv s" and "alloc s = (Some i, s')"
  shows "used (release i s') = used s"
  using alloc_Some [OF assms] release_used [of s' i] by auto

end

end
