(* ===== verification/Swap.thy ===== *)
theory Swap
  imports Bytes Alloc Cow
begin

text \<open>
  Swap space, \<open>kernel/mm/swap.rs\<close>: the slot bitmap of \<open>SwapState\<close>, writing a page out to a
  slot and reading it back, the header page that \<open>mkswap\<close> writes and \<open>swapon\<close> reads, and
  \<open>swapoff\<close>. The block layer below is a parameter: \<open>blk_write dev lba page disk\<close> and
  \<open>blk_read dev lba disk\<close> transfer one page of 4096 bytes (\<open>SWAP_SECS_PER_PAGE\<close> sectors) or
  report an error. Slots are numbered from 1; slot \<open>k + 1\<close> is bit \<open>k\<close> of the bitmap.
\<close>

section \<open>State\<close>

abbreviation SWAP_SECS_PER_PAGE :: u32 where "SWAP_SECS_PER_PAGE \<equiv> 8"

definition SWAP_MAGIC :: "u8 list" where
  "SWAP_MAGIC = [0x53, 0x57, 0x41, 0x50, 0x53, 0x50, 0x41, 0x43, 0x45, 0x32]"

definition SWAP_MAX_PAGES :: nat where
  "SWAP_MAX_PAGES = 65536"

definition SWAP_BITMAP_WORDS :: nat where
  "SWAP_BITMAP_WORDS = SWAP_MAX_PAGES div 64"

datatype blk_error =
    NoDevice | BufferTooSmall | DeviceFault | Timeout | ReadOnly | Unsupported | Offline

datatype swap_error =
    Io blk_error | AlreadyActive | NotActive | InvalidMagic | UnsupportedVersion | NoSpace
  | InvalidSlot | SwapInUse

record swap_state =
  ss_active :: bool
  ss_dev_id :: u8
  ss_partition_lba :: u32
  ss_total_pages :: u32
  ss_used_pages :: u32
  ss_bitmap :: bitmap

definition swap_new :: swap_state where
  "swap_new = \<lparr>ss_active = False, ss_dev_id = 0, ss_partition_lba = 0, ss_total_pages = 0,
               ss_used_pages = 0, ss_bitmap = replicate SWAP_BITMAP_WORDS 0\<rparr>"

section \<open>Slots\<close>

text \<open>The test of the loop of \<open>alloc_slot\<close> on one word: the word has a free bit and the slot
  of its first one is inside the device.\<close>

definition word_slot :: "swap_state \<Rightarrow> nat \<Rightarrow> nat" where
  "word_slot s word_idx = word_idx * 64 + trailing_ones (ss_bitmap s ! word_idx)"

definition alloc_slot :: "swap_state \<Rightarrow> u32 option \<times> swap_state" where
  "alloc_slot s =
     (case find_from (\<lambda>word_idx. ss_bitmap s ! word_idx \<noteq> - 1 \<and> word_slot s word_idx < unat (ss_total_pages s))
             0 SWAP_BITMAP_WORDS of
        None \<Rightarrow> (None, s)
      | Some word_idx \<Rightarrow>
          (let bit = trailing_ones (ss_bitmap s ! word_idx)
           in (Some (of_nat (word_slot s word_idx) + 1),
               s\<lparr>ss_bitmap := (ss_bitmap s)[word_idx := (ss_bitmap s ! word_idx) OR push_bit bit 1],
                 ss_used_pages := ss_used_pages s + 1\<rparr>)))"

definition free_slot :: "u32 \<Rightarrow> swap_state \<Rightarrow> swap_state" where
  "free_slot slot s =
     (if slot = 0 \<or> slot > ss_total_pages s then s
      else if bm_test (ss_bitmap s) (unat slot - 1)
      then s\<lparr>ss_bitmap := bm_clear (ss_bitmap s) (unat slot - 1),
             ss_used_pages := saturating_sub (ss_used_pages s) 1\<rparr>
      else s)"

definition slot_is_used :: "swap_state \<Rightarrow> u32 \<Rightarrow> bool" where
  "slot_is_used s slot =
     (if slot = 0 \<or> slot > ss_total_pages s then False else bm_test (ss_bitmap s) (unat slot - 1))"

definition swap_free_pages :: "swap_state \<Rightarrow> u32" where
  "swap_free_pages s = saturating_sub (ss_total_pages s) (ss_used_pages s)"

definition free_swap_slot :: "u32 \<Rightarrow> swap_state \<Rightarrow> swap_state" where
  "free_swap_slot slot s = (if slot = 0 then s else free_slot slot s)"

section \<open>Transfers\<close>

type_synonym page = "u8 list"
type_synonym 'd blk_write = "u8 \<Rightarrow> u64 \<Rightarrow> page \<Rightarrow> 'd \<Rightarrow> blk_error option \<times> 'd"
type_synonym 'd blk_read = "u8 \<Rightarrow> u64 \<Rightarrow> 'd \<Rightarrow> blk_error + page"

definition lba_for_slot :: "swap_state \<Rightarrow> u32 \<Rightarrow> u32" where
  "lba_for_slot s slot = ss_partition_lba s + slot * SWAP_SECS_PER_PAGE"

definition swap_out_internal ::
    "'d blk_write \<Rightarrow> page \<Rightarrow> swap_state \<times> 'd \<Rightarrow> (swap_error + u32) \<times> swap_state \<times> 'd" where
  "swap_out_internal wr contents st =
     (let (s, disk) = st
      in if \<not> ss_active s then (Inl NotActive, s, disk)
         else (case alloc_slot s of
                 (None, s') \<Rightarrow> (Inl NoSpace, s', disk)
               | (Some slot, s') \<Rightarrow>
                   (case wr (ss_dev_id s) (ucast (lba_for_slot s' slot)) contents disk of
                      (Some e, disk') \<Rightarrow> (Inl (Io e), s', disk')
                    | (None, disk') \<Rightarrow> (Inr slot, s', disk'))))"

definition swap_in_internal ::
    "'d blk_read \<Rightarrow> u32 \<Rightarrow> swap_state \<times> 'd \<Rightarrow> (swap_error + page) \<times> swap_state" where
  "swap_in_internal rd slot st =
     (let (s, disk) = st
      in if \<not> ss_active s then (Inl NotActive, s)
         else if \<not> slot_is_used s slot then (Inl InvalidSlot, s)
         else (case rd (ss_dev_id s) (ucast (lba_for_slot s slot)) disk of
                 Inl e \<Rightarrow> (Inl (Io e), s)
               | Inr contents \<Rightarrow> (Inr contents, free_slot slot s)))"

section \<open>The header page\<close>

definition guid_pseudo_swap :: "u32 \<Rightarrow> u8 list" where
  "guid_pseudo_swap seed =
     (let a = seed * 0xDEADBEEF + 0x12345678;
          b = a * 0xCAFEBABE + 0xABCDEF01
      in to_le_bytes a @ to_le_bytes b @ to_le_bytes (a + b) @ to_le_bytes (b - a))"

definition swap_page0 :: "u32 \<Rightarrow> u32 \<Rightarrow> u8 list \<Rightarrow> page" where
  "swap_page0 partition_lba total_pages label =
     (let page0 = replicate 4096 0;
          page0 = copy_at 0 (to_le_bytes (1 :: u32)) page0;
          last_page = total_pages - 1;
          page0 = copy_at 4 (to_le_bytes last_page) page0;
          page0 = copy_at 8 (to_le_bytes (0 :: u32)) page0;
          page0 = copy_at 12 (guid_pseudo_swap partition_lba) page0;
          llen = min (length label) 15;
          page0 = copy_at 28 (take llen label) page0
      in copy_at 4086 SWAP_MAGIC page0)"

text \<open>\<open>mkswap\<close>; \<open>fl\<close> is the flush of the device.\<close>

definition mkswap ::
    "'d blk_write \<Rightarrow> (u8 \<Rightarrow> 'd \<Rightarrow> blk_error option \<times> 'd) \<Rightarrow> u8 \<Rightarrow> u32 \<Rightarrow> u32 \<Rightarrow> u8 list \<Rightarrow> 'd \<Rightarrow>
     blk_error option \<times> 'd" where
  "mkswap wr fl dev partition_lba partition_sectors label disk =
     (let total_pages = partition_sectors div SWAP_SECS_PER_PAGE
      in if total_pages < 10 then (Some DeviceFault, disk)
         else (case wr dev (ucast partition_lba) (swap_page0 partition_lba total_pages label) disk of
                 (Some e, disk') \<Rightarrow> (Some e, disk')
               | (None, disk') \<Rightarrow> fl dev disk'))"

definition swapon_header :: "page \<Rightarrow> swap_error + u32" where
  "swapon_header page0 =
     (if slice 4086 4096 page0 \<noteq> SWAP_MAGIC then Inl InvalidMagic
      else (let version = from_le_bytes (slice 0 4 page0) :: u32;
                last_page = from_le_bytes (slice 4 8 page0)
            in if version \<noteq> 1 then Inl UnsupportedVersion else Inr (last_page + 1)))"

type_synonym frames_state = "emergency_pool \<times> frame_allocator"

definition swapon ::
    "'d blk_read \<Rightarrow> nat \<Rightarrow> u8 \<Rightarrow> u32 \<Rightarrow> u32 \<Rightarrow> 'd \<Rightarrow> swap_state \<times> frames_state \<Rightarrow>
     (swap_error + u32) \<times> swap_state \<times> frames_state" where
  "swapon rd cap dev partition_lba partition_sectors disk st =
     (let (s, frames) = st
      in if ss_active s then (Inl AlreadyActive, s, frames)
         else (case rd dev (ucast partition_lba) disk of
                 Inl e \<Rightarrow> (Inl (Io e), s, frames)
               | Inr page0 \<Rightarrow>
                   (case swapon_header page0 of
                      Inl e \<Rightarrow> (Inl e, s, frames)
                    | Inr total_pages \<Rightarrow>
                        (let s' = \<lparr>ss_active = True, ss_dev_id = dev, ss_partition_lba = partition_lba,
                                   ss_total_pages = min (saturating_sub total_pages 1) (of_nat SWAP_MAX_PAGES),
                                   ss_used_pages = 0, ss_bitmap = replicate SWAP_BITMAP_WORDS 0\<rparr>
                         in (Inr total_pages, s', refill_emergency_pool cap frames)))))"

definition swapoff :: "swap_state \<Rightarrow> swap_error option \<times> swap_state" where
  "swapoff s =
     (if \<not> ss_active s then (Some NotActive, s)
      else if ss_used_pages s > 0 then (Some SwapInUse, s)
      else (None, s\<lparr>ss_active := False, ss_total_pages := 0, ss_used_pages := 0,
                    ss_partition_lba := 0, ss_bitmap := replicate SWAP_BITMAP_WORDS 0\<rparr>))"

section \<open>The slot allocator\<close>

definition used_bits :: "swap_state \<Rightarrow> nat set" where
  "used_bits s = {k. k < unat (ss_total_pages s) \<and> bm_test (ss_bitmap s) k}"

definition swap_wf :: "swap_state \<Rightarrow> bool" where
  "swap_wf s = (length (ss_bitmap s) = SWAP_BITMAP_WORDS \<and> unat (ss_total_pages s) \<le> SWAP_MAX_PAGES
     \<and> unat (ss_used_pages s) = card (used_bits s))"

definition used_slots :: "swap_state \<Rightarrow> u32 set" where
  "used_slots s = {slot. slot_is_used s slot}"

definition all_slots :: "swap_state \<Rightarrow> u32 set" where
  "all_slots s = {slot. slot \<noteq> 0 \<and> slot \<le> ss_total_pages s}"

lemmas swap_sizes = SWAP_BITMAP_WORDS_def SWAP_MAX_PAGES_def

lemma trailing_ones_eq:
  assumes "\<forall>j<n. bit w j" and "\<not> bit w n" and "n < 64"
  shows "trailing_ones w = n"
proof (rule linorder_cases [of "trailing_ones w" n])
  assume "trailing_ones w < n"
  with assms(1,3) trailing_ones_bit [of w] show ?thesis by auto
qed (use assms trailing_ones_below in auto)

lemma swap_wf_bound: "swap_wf s \<Longrightarrow> k < unat (ss_total_pages s) \<Longrightarrow> k < 64 * length (ss_bitmap s)"
  by (simp add: swap_wf_def swap_sizes)

lemma finite_used_bits [simp]: "finite (used_bits s)"
  by (simp add: used_bits_def)

text \<open>The word-by-word search finds the first clear bit of the device.\<close>

lemma word_slot_first:
  assumes first: "find_from (\<lambda>k. \<not> bm_test (ss_bitmap s) k) 0 (unat (ss_total_pages s)) = Some k"
  shows "ss_bitmap s ! (k div 64) \<noteq> - 1" and "trailing_ones (ss_bitmap s ! (k div 64)) = k mod 64"
    and "word_slot s (k div 64) = k"
proof -
  have k: "\<not> bit (ss_bitmap s ! (k div 64)) (k mod 64)" and lt: "\<And>j. j < k \<Longrightarrow> bm_test (ss_bitmap s) j"
    using first by (auto simp: find_from_Some bm_test_bit)
  show "ss_bitmap s ! (k div 64) \<noteq> - 1" using k by auto
  have "bit (ss_bitmap s ! (k div 64)) j" if "j < k mod 64" for j
  proof -
    have "64 * (k div 64) + j < k" using that div_mult_mod_eq [of k 64] by linarith
    moreover have "(64 * (k div 64) + j) div 64 = k div 64" "(64 * (k div 64) + j) mod 64 = j"
      using that by auto
    ultimately show ?thesis using lt [of "64 * (k div 64) + j"] by (simp only: bm_test_bit)
  qed
  with k show t: "trailing_ones (ss_bitmap s ! (k div 64)) = k mod 64" by (intro trailing_ones_eq) auto
  then show "word_slot s (k div 64) = k" by (simp add: word_slot_def)
qed

lemma word_slot_clear:
  assumes "ss_bitmap s ! i \<noteq> - 1"
  shows "\<not> bm_test (ss_bitmap s) (word_slot s i)"
proof -
  have "trailing_ones (ss_bitmap s ! i) < 64" using assms by (rule trailing_ones_lt)
  then show ?thesis using trailing_ones_bit by (simp add: word_slot_def bm_test_bit)
qed

lemma alloc_slot_eq:
  assumes "swap_wf s"
  shows "alloc_slot s =
    (case find_from (\<lambda>k. \<not> bm_test (ss_bitmap s) k) 0 (unat (ss_total_pages s)) of
       None \<Rightarrow> (None, s)
     | Some k \<Rightarrow> (Some (of_nat k + 1),
         s\<lparr>ss_bitmap := bm_set (ss_bitmap s) k, ss_used_pages := ss_used_pages s + 1\<rparr>))"
proof (cases "find_from (\<lambda>k. \<not> bm_test (ss_bitmap s) k) 0 (unat (ss_total_pages s))")
  case None
  then have "\<And>i. ss_bitmap s ! i \<noteq> - 1 \<Longrightarrow> \<not> word_slot s i < unat (ss_total_pages s)"
    using word_slot_clear by (auto simp: find_from_None)
  then have "find_from (\<lambda>i. ss_bitmap s ! i \<noteq> - 1 \<and> word_slot s i < unat (ss_total_pages s)) 0 SWAP_BITMAP_WORDS = None"
    by (auto simp: find_from_None)
  with None show ?thesis by (simp add: alloc_slot_def)
next
  case (Some k)
  note first = word_slot_first [OF Some]
  have k: "k < unat (ss_total_pages s)" "\<And>j. j < k \<Longrightarrow> bm_test (ss_bitmap s) j"
    using Some by (auto simp: find_from_Some)
  have "k div 64 < SWAP_BITMAP_WORDS" using swap_wf_bound [OF assms k(1)] assms by (simp add: swap_wf_def)
  moreover have "\<not> (ss_bitmap s ! i \<noteq> - 1 \<and> word_slot s i < unat (ss_total_pages s))" if "i < k div 64" for i
  proof
    assume a: "ss_bitmap s ! i \<noteq> - 1 \<and> word_slot s i < unat (ss_total_pages s)"
    then have "word_slot s i < (i + 1) * 64" using trailing_ones_lt by (simp add: word_slot_def)
    also have "(i + 1) * 64 \<le> k" using that by (simp add: less_eq_div_iff_mult_less_eq)
    finally show False using word_slot_clear a k(2) by blast
  qed
  ultimately have "find_from (\<lambda>i. ss_bitmap s ! i \<noteq> - 1 \<and> word_slot s i < unat (ss_total_pages s)) 0 SWAP_BITMAP_WORDS = Some (k div 64)"
    using first k(1) by (auto simp: find_from_Some)
  with Some first show ?thesis by (simp add: alloc_slot_def Let_def bm_set_def)
qed

lemma slot_index:
  fixes slot n :: u32
  assumes "slot \<noteq> 0" and "slot \<le> n"
  shows "unat slot - 1 < unat n" and "of_nat (unat slot - 1) + 1 = slot"
proof -
  have "unat slot > 0" using assms(1) by (simp add: unat_gt_0)
  moreover have "unat slot \<le> unat n" using assms(2) by (simp add: word_le_nat_alt)
  ultimately show "unat slot - 1 < unat n" by simp
  show "of_nat (unat slot - 1) + 1 = slot" using \<open>unat slot > 0\<close> by (simp add: of_nat_diff)
qed

lemma index_slot:
  fixes n :: u32
  assumes "k < unat n"
  shows "unat (of_nat k + 1 :: u32) = k + 1" and "of_nat k + 1 \<noteq> (0 :: u32)" and "of_nat k + 1 \<le> n"
proof -
  have lt: "k + 1 < 2 ^ 32" using assms unat_lt [of n] by simp
  have "unat (of_nat (k + 1) :: u32) = k + 1" using lt by (subst unat_of_nat) simp
  then show u: "unat (of_nat k + 1 :: u32) = k + 1" by (simp add: add.commute)
  show "of_nat k + 1 \<noteq> (0 :: u32)" using u by (metis Suc_eq_plus1 nat.distinct(1) unsigned_0)
  show "of_nat k + 1 \<le> n" using u assms by (simp add: word_le_nat_alt)
qed

lemma used_slots_bits: "used_slots s = (\<lambda>k. of_nat k + 1) ` used_bits s"
proof (intro set_eqI iffI)
  fix slot :: u32 assume "slot \<in> used_slots s"
  then have "slot \<noteq> 0" "slot \<le> ss_total_pages s" "bm_test (ss_bitmap s) (unat slot - 1)"
    by (auto simp: used_slots_def slot_is_used_def split: if_splits)
  with slot_index [of slot "ss_total_pages s"] show "slot \<in> (\<lambda>k. of_nat k + 1) ` used_bits s"
    by (intro image_eqI [of _ _ "unat slot - 1"]) (auto simp: used_bits_def)
next
  fix slot :: u32 assume "slot \<in> (\<lambda>k. of_nat k + 1) ` used_bits s"
  then obtain k where k: "slot = of_nat k + 1" "k < unat (ss_total_pages s)" "bm_test (ss_bitmap s) k"
    by (auto simp: used_bits_def)
  with index_slot [OF k(2)] show "slot \<in> used_slots s"
    by (auto simp: used_slots_def slot_is_used_def)
qed

lemma alloc_slot_Some:
  assumes wf: "swap_wf s" and a: "alloc_slot s = (Some slot, s')"
  shows "slot \<in> all_slots s \<and> slot \<notin> used_slots s \<and> used_slots s' = insert slot (used_slots s)
    \<and> all_slots s' = all_slots s \<and> swap_wf s'"
    and "ss_active s' = ss_active s \<and> ss_dev_id s' = ss_dev_id s \<and> ss_partition_lba s' = ss_partition_lba s
      \<and> ss_used_pages s' = ss_used_pages s + 1"
proof -
  obtain k where f: "find_from (\<lambda>k. \<not> bm_test (ss_bitmap s) k) 0 (unat (ss_total_pages s)) = Some k"
    and slot: "slot = of_nat k + 1"
    and s': "s' = s\<lparr>ss_bitmap := bm_set (ss_bitmap s) k, ss_used_pages := ss_used_pages s + 1\<rparr>"
    using a by (auto simp: alloc_slot_eq [OF wf] split: option.splits)
  have k: "k < unat (ss_total_pages s)" "\<not> bm_test (ss_bitmap s) k" using f by (auto simp: find_from_Some)
  note idx = index_slot [OF k(1)]
  have bits: "used_bits s' = insert k (used_bits s)"
    using k(1) by (auto simp: used_bits_def s' bm_test_set [OF swap_wf_bound [OF wf k(1)]])
  have kn: "k \<notin> used_bits s" using k by (simp add: used_bits_def)
  have "card (used_bits s') \<le> card {..<unat (ss_total_pages s)}"
    by (rule card_mono) (auto simp: used_bits_def s')
  then have "card (used_bits s) + 1 < 2 ^ 32" using kn bits wf by (simp add: swap_wf_def swap_sizes)
  then have "unat (ss_used_pages s') = card (used_bits s')"
    using wf bits kn by (simp add: s' swap_wf_def unat_word_ariths)
  then have "swap_wf s'" using wf by (simp add: swap_wf_def s')
  moreover have "slot \<notin> used_slots s"
    using idx k(2) by (auto simp: used_slots_def slot_is_used_def slot)
  ultimately show "slot \<in> all_slots s \<and> slot \<notin> used_slots s \<and> used_slots s' = insert slot (used_slots s)
      \<and> all_slots s' = all_slots s \<and> swap_wf s'"
    using idx bits by (auto simp: used_slots_bits slot all_slots_def s')
  show "ss_active s' = ss_active s \<and> ss_dev_id s' = ss_dev_id s \<and> ss_partition_lba s' = ss_partition_lba s
      \<and> ss_used_pages s' = ss_used_pages s + 1" by (simp add: s')
qed

lemma alloc_slot_None:
  assumes "swap_wf s" and "alloc_slot s = (None, s')"
  shows "s' = s \<and> all_slots s \<subseteq> used_slots s"
proof -
  have "s' = s" and n: "\<And>k. k < unat (ss_total_pages s) \<Longrightarrow> bm_test (ss_bitmap s) k"
    using assms by (auto simp: alloc_slot_eq find_from_None split: option.splits)
  moreover have "slot \<in> used_slots s" if "slot \<in> all_slots s" for slot
    using n [of "unat slot - 1"] slot_index [of slot "ss_total_pages s"] that
    by (auto simp: all_slots_def used_slots_def slot_is_used_def)
  ultimately show ?thesis by blast
qed

lemma free_slot_used:
  assumes wf: "swap_wf s" and u: "slot \<in> used_slots s"
  shows "used_slots (free_slot slot s) = used_slots s - {slot} \<and> all_slots (free_slot slot s) = all_slots s
    \<and> swap_wf (free_slot slot s)"
proof -
  obtain k where k: "k < unat (ss_total_pages s)" "bm_test (ss_bitmap s) k" "slot = of_nat k + 1"
    using u by (auto simp: used_slots_bits used_bits_def)
  note idx = index_slot [OF k(1)]
  have f: "free_slot slot s = s\<lparr>ss_bitmap := bm_clear (ss_bitmap s) k,
      ss_used_pages := saturating_sub (ss_used_pages s) 1\<rparr>"
    using idx k by (simp add: free_slot_def not_less)
  have t: "bm_test (bm_clear (ss_bitmap s) k) j = (j \<noteq> k \<and> bm_test (ss_bitmap s) j)" for j
    by (rule bm_test_clear [OF swap_wf_bound [OF wf k(1)]])
  have bits: "used_bits (free_slot slot s) = used_bits s - {k}" by (auto simp: used_bits_def f t)
  have ku: "k \<in> used_bits s" using k by (simp add: used_bits_def)
  then have "unat (saturating_sub (ss_used_pages s) 1) = card (used_bits s - {k})"
    using wf by (simp add: swap_wf_def unat_saturating_sub card_Diff_singleton)
  then have "swap_wf (free_slot slot s)" using wf bits by (simp add: swap_wf_def f)
  moreover have "inj_on (\<lambda>k. of_nat k + 1 :: u32) (used_bits s)"
    by (rule inj_onI) (metis (no_types, lifting) add_right_cancel index_slot(1) mem_Collect_eq used_bits_def)
  then have "used_slots (free_slot slot s) = used_slots s - {slot}"
    using inj_on_image_set_diff [of "\<lambda>k. of_nat k + 1 :: u32" "used_bits s" "used_bits s" "{k}"] ku
    unfolding used_slots_bits bits by (simp add: k(3))
  ultimately show ?thesis by (simp add: f all_slots_def)
qed

interpretation slots: allocator swap_wf used_slots all_slots alloc_slot free_slot
  by unfold_locales (rule alloc_slot_Some(1) alloc_slot_None free_slot_used; assumption)+

lemma swap_wf_fresh:
  "unat n \<le> SWAP_MAX_PAGES \<Longrightarrow> swap_wf \<lparr>ss_active = a, ss_dev_id = d, ss_partition_lba = l, ss_total_pages = n,
     ss_used_pages = 0, ss_bitmap = replicate SWAP_BITMAP_WORDS 0\<rparr>"
proof -
  assume n: "unat n \<le> SWAP_MAX_PAGES"
  have "\<not> bm_test (replicate SWAP_BITMAP_WORDS 0) k" if "k < unat n" for k
  proof -
    have "k div 64 < SWAP_BITMAP_WORDS" using that n by (simp add: swap_sizes)
    then show ?thesis by (simp add: bm_test_bit)
  qed
  with n show ?thesis by (auto simp: swap_wf_def used_bits_def card_eq_0_iff)
qed

section \<open>Header page and extents\<close>

lemma length_guid_pseudo_swap [simp]: "length (guid_pseudo_swap seed) = 16"
  by (simp add: guid_pseudo_swap_def Let_def)

lemma length_swap_magic [simp]: "length SWAP_MAGIC = 10"
  by (simp add: SWAP_MAGIC_def)

lemma length_swap_page0: "length (swap_page0 lba tp label) = 4096"
  by (simp add: swap_page0_def Let_def)

lemma swapon_header_page0: "swapon_header (swap_page0 lba tp label) = Inr tp"
proof -
  let ?p = "swap_page0 lba tp label"
  have magic: "slice 4086 4096 ?p = SWAP_MAGIC"
    using slice_copy_same [of 4086 _ SWAP_MAGIC] by (simp add: swap_page0_def Let_def)
  have v: "from_le_bytes (slice 0 4 ?p) = (1 :: u32)"
    using le32.get_put [of 0 "replicate 4096 0" 1]
    by (simp add: swap_page0_def Let_def slice_copy_other)
  have l: "from_le_bytes (slice 4 8 ?p) = tp - 1"
    using le32.get_put [of 4 "copy_at 0 (to_le_bytes (1 :: u32)) (replicate 4096 0)" "tp - 1"]
    by (simp add: swap_page0_def Let_def slice_copy_other)
  show ?thesis by (simp add: swapon_header_def magic v l Let_def)
qed

lemma used_pages_bound: "swap_wf s \<Longrightarrow> unat (ss_used_pages s) + 1 < 2 ^ 32"
proof -
  assume wf: "swap_wf s"
  have "card (used_bits s) \<le> card {..<unat (ss_total_pages s)}"
    by (rule card_mono) (auto simp: used_bits_def)
  with wf show ?thesis by (simp add: swap_wf_def swap_sizes)
qed

lemma saturating_sub_add_one: "unat u + 1 < 2 ^ 32 \<Longrightarrow> saturating_sub (u + 1) 1 = u" for u :: u32
  by (simp add: word_unat_eq_iff unat_saturating_sub unat_word_ariths)

text \<open>Where a slot lies: after the header page and inside a partition that has room for the
  pages of the device.\<close>

lemma slot_extent:
  assumes "slot \<in> all_slots s" and "unat (ss_total_pages s) < unat sectors div 8"
    and "unat (ss_partition_lba s) + unat sectors < 2 ^ 32"
  shows "unat (lba_for_slot s slot) = unat (ss_partition_lba s) + 8 * unat slot"
    and "unat (ss_partition_lba s) + 8 \<le> unat (lba_for_slot s slot)"
    and "unat (lba_for_slot s slot) + 8 \<le> unat (ss_partition_lba s) + unat sectors"
proof -
  have slot: "1 \<le> unat slot" "unat slot \<le> unat (ss_total_pages s)"
    using assms(1) by (auto simp: all_slots_def word_le_nat_alt Suc_le_eq unat_gt_0)
  then have b: "8 * unat slot + 8 \<le> unat sectors" using assms(2) by linarith
  have "unat (slot * 8) = 8 * unat slot"
    using b assms(3) by (simp add: unat_word_ariths)
  then show l: "unat (lba_for_slot s slot) = unat (ss_partition_lba s) + 8 * unat slot"
    using b assms(3) by (simp add: lba_for_slot_def unat_word_ariths)
  show "unat (ss_partition_lba s) + 8 \<le> unat (lba_for_slot s slot)" using l slot by simp
  show "unat (lba_for_slot s slot) + 8 \<le> unat (ss_partition_lba s) + unat sectors" using l b by simp
qed

lemma swap_out_Inr:
  assumes "swap_out_internal wr contents (s, disk) = (Inr slot, s', disk')"
  shows "ss_active s \<and> alloc_slot s = (Some slot, s')
    \<and> wr (ss_dev_id s) (ucast (lba_for_slot s' slot)) contents disk = (None, disk')"
  using assms by (auto simp: swap_out_internal_def split: if_splits prod.splits option.splits)

lemma swap_out_Io:
  assumes "swap_out_internal wr contents (s, disk) = (Inl (Io e), s', disk')"
  obtains slot where "ss_active s" "alloc_slot s = (Some slot, s')"
    "wr (ss_dev_id s) (ucast (lba_for_slot s' slot)) contents disk = (Some e, disk')"
  using assms by (auto simp: swap_out_internal_def split: if_splits prod.splits option.splits)

section \<open>Properties\<close>

text \<open>C16: Swap slots are exclusive: whatever sequence of slot requests and releases of held
  slots is served, the slots held are pairwise different, lie on the device, were free at
  the start and are exactly the slots marked in addition, and the page counter stays exact.\<close>

theorem swap_slots_exclusive:
  assumes "swap_wf s" and "serve alloc_slot free_slot rs ([], s) = (held, s')"
  shows "distinct held \<and> (\<forall>slot\<in>set held. slot \<noteq> 0 \<and> slot \<le> ss_total_pages s \<and> \<not> slot_is_used s slot)
    \<and> used_slots s' = used_slots s \<union> set held \<and> unat (ss_used_pages s') = card (used_bits s')"
  using slots.serve_exclusive [OF assms] by (auto simp: all_slots_def used_slots_def swap_wf_def)

definition swap_example :: swap_state where
  "swap_example = \<lparr>ss_active = True, ss_dev_id = 1, ss_partition_lba = 2048, ss_total_pages = 9,
     ss_used_pages = 0, ss_bitmap = replicate SWAP_BITMAP_WORDS 0\<rparr>"

lemma swap_example_wf: "swap_wf swap_example"
  unfolding swap_example_def by (rule swap_wf_fresh) (simp add: swap_sizes)

theorem swap_slots_exclusive_witness:
  "distinct (fst (serve alloc_slot free_slot [Acquire, Acquire, Release 0, Acquire] ([], swap_example)))"
  using swap_slots_exclusive [OF swap_example_wf, of "[Acquire, Acquire, Release 0, Acquire]"]
  by (metis prod.collapse)

text \<open>C17: A page written to swap is read back unchanged from the slot returned, and the slot
  is free again afterwards, when the device returns what was last written at an address.\<close>

theorem swap_out_in_roundtrip:
  assumes rd_wr: "\<And>dev lba p d d'. wr dev lba p d = (None, d') \<Longrightarrow> rd dev lba d' = Inr p"
    and wf: "swap_wf s"
    and out: "swap_out_internal wr contents (s, disk) = (Inr slot, s', disk')"
  shows "\<exists>s''. swap_in_internal rd slot (s', disk') = (Inr contents, s'')
    \<and> used_slots s'' = used_slots s \<and> swap_wf s'' \<and> ss_used_pages s'' = ss_used_pages s"
proof -
  note o = swap_out_Inr [OF out]
  then have act: "ss_active s" and al: "alloc_slot s = (Some slot, s')"
    and w: "wr (ss_dev_id s) (ucast (lba_for_slot s' slot)) contents disk = (None, disk')" by auto
  note A = alloc_slot_Some [OF wf al]
  have u: "slot \<in> used_slots s'" and wf': "swap_wf s'" using A(1) by auto
  note F = free_slot_used [OF wf' u]
  have "used_slots (free_slot slot s') = used_slots s" using F A(1) by auto
  moreover have "ss_used_pages (free_slot slot s') = saturating_sub (ss_used_pages s') 1"
    using u by (auto simp: free_slot_def used_slots_def slot_is_used_def split: if_splits)
  then have "ss_used_pages (free_slot slot s') = ss_used_pages s"
    using A(2) saturating_sub_add_one [OF used_pages_bound [OF wf]] by simp
  ultimately show ?thesis
    using A F u act rd_wr [OF w]
    by (intro exI [of _ "free_slot slot s'"]) (auto simp: swap_in_internal_def used_slots_def)
qed

text \<open>A device that stores pages by address, for the concrete instances.\<close>

definition store_write :: "(u8 \<times> u64 \<Rightarrow> page) blk_write" where
  "store_write dev lba p d = (None, d((dev, lba) := p))"

definition store_read :: "(u8 \<times> u64 \<Rightarrow> page) blk_read" where
  "store_read dev lba d = Inr (d (dev, lba))"

lemma swap_example_alloc:
  "alloc_slot swap_example = (Some 1, swap_example\<lparr>ss_bitmap := bm_set (ss_bitmap swap_example) 0, ss_used_pages := 1\<rparr>)"
proof -
  have "find_from (\<lambda>k. \<not> bm_test (ss_bitmap swap_example) k) 0 (unat (ss_total_pages swap_example)) = Some 0"
    by (simp add: find_from_rec [of _ 0] swap_example_def bm_test_bit swap_sizes)
  then show ?thesis by (simp add: alloc_slot_eq [OF swap_example_wf]) (simp add: swap_example_def)
qed

theorem swap_out_in_roundtrip_witness:
  "\<exists>slot s' d' s''. swap_out_internal store_write [1, 2, 3] (swap_example, \<lambda>_. []) = (Inr slot, s', d')
    \<and> swap_in_internal store_read slot (s', d') = (Inr [1, 2, 3], s'') \<and> used_slots s'' = used_slots swap_example"
proof -
  have act: "ss_active swap_example" by (simp add: swap_example_def)
  then obtain s' d' where o: "swap_out_internal store_write [1, 2, 3] (swap_example, \<lambda>_. []) = (Inr 1, s', d')"
    by (simp add: swap_out_internal_def swap_example_alloc store_write_def)
  from swap_out_in_roundtrip [OF _ swap_example_wf o, of store_read] o show ?thesis
    by (auto simp: store_write_def store_read_def)
qed

text \<open>C29: \<open>swapon\<close> accepts what \<open>mkswap\<close> wrote: it reports the pages of the partition, and
  every slot it can hand out lies after the header page and inside the partition, with
  different slots at least one page apart, so that no transfer touches the header, another
  slot or a sector outside the partition.\<close>

theorem mkswap_swapon:
  assumes rd_wr: "\<And>p d d'. wr dev (ucast lba) p d = (None, d') \<Longrightarrow> rd dev (ucast lba) d' = Inr p"
    and rd_fl: "\<And>d d'. fl dev d = (None, d') \<Longrightarrow> rd dev (ucast lba) d' = rd dev (ucast lba) d"
    and mk: "mkswap wr fl dev lba sectors label disk = (None, disk')"
    and fit: "unat lba + unat sectors < 2 ^ 32"
    and off: "\<not> ss_active s"
  shows "\<exists>s' frames'. swapon rd cap dev lba sectors disk' (s, frames) = (Inr (sectors div 8), s', frames')
    \<and> ss_active s' \<and> swap_wf s' \<and> used_slots s' = {} \<and> all_slots s' \<noteq> {}
    \<and> (\<forall>a\<in>all_slots s'. unat lba + 8 \<le> unat (lba_for_slot s' a)
         \<and> unat (lba_for_slot s' a) + 8 \<le> unat lba + unat sectors
         \<and> (\<forall>b\<in>all_slots s'. a < b \<longrightarrow> unat (lba_for_slot s' a) + 8 \<le> unat (lba_for_slot s' b)))"
proof -
  let ?tp = "sectors div 8"
  have big: "\<not> ?tp < 10" and "rd dev (ucast lba) disk' = Inr (swap_page0 lba ?tp label)"
    using mk rd_wr rd_fl by (auto simp: mkswap_def Let_def split: if_splits prod.splits option.splits)
  let ?n = "min (saturating_sub ?tp 1) (of_nat SWAP_MAX_PAGES)"
  obtain s' where s': "s' = \<lparr>ss_active = True, ss_dev_id = dev, ss_partition_lba = lba, ss_total_pages = ?n,
      ss_used_pages = 0, ss_bitmap = replicate SWAP_BITMAP_WORDS 0\<rparr>" by blast
  have on: "swapon rd cap dev lba sectors disk' (s, frames) = (Inr ?tp, s', refill_emergency_pool cap frames)"
    using off \<open>rd dev _ _ = _\<close> by (simp add: swapon_def swapon_header_page0 s' Let_def)
  have tp: "unat ?tp = unat sectors div 8" "10 \<le> unat ?tp"
    using big by (simp_all add: unat_div word_less_nat_alt)
  have n: "unat ?n \<le> SWAP_MAX_PAGES" "unat ?n < unat sectors div 8" "?n \<noteq> 0"
    using tp by (auto simp: min_def word_le_nat_alt unat_saturating_sub swap_sizes word_unat_eq_iff split: if_splits)
  have wf: "swap_wf s'" unfolding s' by (rule swap_wf_fresh [OF n(1)])
  have "card (used_bits s') = 0" using wf by (simp add: swap_wf_def s')
  then have e: "used_slots s' = {}" by (simp add: used_slots_bits)
  have ne: "?n \<in> all_slots s'" using n(3) by (simp add: all_slots_def s')
  have fields: "unat (ss_total_pages s') < unat sectors div 8" "unat (ss_partition_lba s') + unat sectors < 2 ^ 32"
    "ss_partition_lba s' = lba" "ss_active s'"
    using n(2) fit by (simp_all add: s')
  have ext: "unat lba + 8 \<le> unat (lba_for_slot s' a) \<and> unat (lba_for_slot s' a) + 8 \<le> unat lba + unat sectors
       \<and> (\<forall>b\<in>all_slots s'. a < b \<longrightarrow> unat (lba_for_slot s' a) + 8 \<le> unat (lba_for_slot s' b))"
    if "a \<in> all_slots s'" for a
    using slot_extent [OF _ fields(1,2)] that fields(3) by (auto simp: word_less_nat_alt)
  show ?thesis using on fields(4) wf e ne ext by blast
qed

theorem mkswap_swapon_witness:
  "\<exists>s' frames'. swapon store_read 8 1 2048 80 (snd (mkswap store_write (\<lambda>_ d. (None, d)) 1 2048 80 [] (\<lambda>_. [])))
       (swap_new, ep_new, fa_new) = (Inr 10, s', frames') \<and> swap_wf s' \<and> all_slots s' \<noteq> {}"
proof -
  have m: "mkswap store_write (\<lambda>_ d. (None, d)) 1 2048 80 [] (\<lambda>_. []) =
      (None, snd (mkswap store_write (\<lambda>_ d. (None, d)) 1 2048 80 [] (\<lambda>_. [])))"
    by (simp add: mkswap_def store_write_def)
  show ?thesis
    using mkswap_swapon [OF _ _ m, of store_read swap_new 8 "(ep_new, fa_new)"]
    by (auto simp: store_write_def store_read_def swap_new_def)
qed

text \<open>C30: When the device rejects the write, \<open>swap_out_internal\<close> reports the error but keeps
  the slot: it stays marked although nothing refers to it, and \<open>swapoff\<close> refuses from then
  on.\<close>

theorem swap_out_error_leaks_slot:
  assumes "swap_wf s" and "swap_out_internal wr contents (s, disk) = (Inl (Io e), s', disk')"
  shows "\<exists>slot. slot \<notin> used_slots s \<and> used_slots s' = insert slot (used_slots s)
    \<and> swapoff s' = (Some SwapInUse, s')"
proof -
  obtain slot where o: "ss_active s" "alloc_slot s = (Some slot, s')" using swap_out_Io [OF assms(2)] by metis
  note A = alloc_slot_Some [OF assms(1) o(2)]
  have "unat (ss_used_pages s') = unat (ss_used_pages s) + 1"
    using A(2) used_pages_bound [OF assms(1)] by (simp add: unat_word_ariths)
  then have "swapoff s' = (Some SwapInUse, s')" using o(1) A(2) by (simp add: swapoff_def word_less_nat_alt)
  with A(1) show ?thesis by blast
qed

theorem swap_out_error_leaks_slot_witness:
  "\<exists>s' d'. swap_out_internal (\<lambda>_ _ _ d. (Some Timeout, d)) [1] (swap_example, ()) = (Inl (Io Timeout), s', d')
    \<and> swapoff s' = (Some SwapInUse, s')"
proof -
  have act: "ss_active swap_example" by (simp add: swap_example_def)
  then obtain s' d' where o: "swap_out_internal (\<lambda>_ _ _ d. (Some Timeout, d)) [1] (swap_example, ()) = (Inl (Io Timeout), s', d')"
    by (simp add: swap_out_internal_def swap_example_alloc)
  with swap_out_error_leaks_slot [OF swap_example_wf o] show ?thesis by blast
qed

end
