(* ===== verification/SwapMap.thy ===== *)
theory SwapMap
  imports Prelude
begin

text \<open>
  The reverse map of \<open>kernel/mm/swap_map.rs\<close>: one entry per physical frame saying which
  address space and page map it, with the age and pin that the clock algorithm of
  \<open>pick_victim\<close> uses, and the encoding of a swapped-out page in a page-table entry.
  \<open>high_water\<close> bounds the entries in use so that scans stay short; the lemmas show that
  clipping the scans to it loses nothing.
\<close>

section \<open>State\<close>

definition MAX_TRACKED :: nat where
  "MAX_TRACKED = 64 * 1024"

record reverse_entry =
  re_cr3 :: u64
  re_virt_addr :: u64
  re_pte_flags :: u64
  re_age :: u8
  re_pinned :: bool

definition re_empty :: reverse_entry where
  "re_empty = \<lparr>re_cr3 = 0, re_virt_addr = 0, re_pte_flags = 0, re_age = 0, re_pinned = False\<rparr>"

definition re_is_used :: "reverse_entry \<Rightarrow> bool" where
  "re_is_used e = (re_cr3 e \<noteq> 0)"

record swap_map =
  sm_entries :: "reverse_entry list"
  sm_clock_hand :: nat
  sm_tracked :: nat
  sm_high_water :: nat

definition sm_new :: swap_map where
  "sm_new = \<lparr>sm_entries = replicate MAX_TRACKED re_empty, sm_clock_hand = 0, sm_tracked = 0, sm_high_water = 0\<rparr>"

section \<open>Operations\<close>

definition frame_idx :: "u64 \<Rightarrow> nat" where
  "frame_idx phys = unat (phys div 4096)"

definition bump_hw :: "nat \<Rightarrow> swap_map \<Rightarrow> swap_map" where
  "bump_hw idx m = (if idx + 1 > sm_high_water m then m\<lparr>sm_high_water := idx + 1\<rparr> else m)"

text \<open>The loop of \<open>trim_hw\<close>, on the entries and the current bound.\<close>

fun trim_from :: "reverse_entry list \<Rightarrow> nat \<Rightarrow> nat" where
  "trim_from es 0 = 0"
| "trim_from es (Suc n) = (if \<not> re_is_used (es ! n) then trim_from es n else Suc n)"

definition trim_hw :: "swap_map \<Rightarrow> swap_map" where
  "trim_hw m = m\<lparr>sm_high_water := trim_from (sm_entries m) (sm_high_water m)\<rparr>"

text \<open>\<open>track\<close>; \<open>pte_flags\<close> is the raw entry read from the page table, or what the batching
  caller passes to \<open>SwapMapGuard::track\<close>.\<close>

definition track :: "u64 \<Rightarrow> u64 \<Rightarrow> u64 \<Rightarrow> bool \<Rightarrow> u64 \<Rightarrow> swap_map \<Rightarrow> swap_map" where
  "track phys cr3 virt pinned pte_flags m =
     (let idx = frame_idx phys
      in if idx \<ge> MAX_TRACKED then m
         else (let m1 = (if \<not> re_is_used (sm_entries m ! idx) then m\<lparr>sm_tracked := sm_tracked m + 1\<rparr> else m);
                   e = \<lparr>re_cr3 = cr3, re_virt_addr = virt, re_pte_flags = pte_flags AND 0xFFF,
                        re_age = 1, re_pinned = pinned\<rparr>
               in bump_hw idx (m1\<lparr>sm_entries := (sm_entries m1)[idx := e]\<rparr>)))"

definition untrack :: "u64 \<Rightarrow> swap_map \<Rightarrow> swap_map" where
  "untrack phys m =
     (let idx = frame_idx phys
      in if idx \<ge> MAX_TRACKED then m
         else (let m1 = (if re_is_used (sm_entries m ! idx) then m\<lparr>sm_tracked := sm_tracked m - 1\<rparr> else m);
                   m2 = m1\<lparr>sm_entries := (sm_entries m1)[idx := re_empty]\<rparr>
               in if idx + 1 = sm_high_water m2 then trim_hw m2 else m2))"

definition touch :: "u64 \<Rightarrow> swap_map \<Rightarrow> swap_map" where
  "touch phys m =
     (let idx = frame_idx phys
      in if idx < MAX_TRACKED \<and> re_is_used (sm_entries m ! idx)
         then m\<lparr>sm_entries := (sm_entries m)[idx := (sm_entries m ! idx)\<lparr>re_age := 1\<rparr>]\<rparr> else m)"

definition set_pinned :: "u64 \<Rightarrow> bool \<Rightarrow> swap_map \<Rightarrow> swap_map" where
  "set_pinned phys pinned m =
     (let idx = frame_idx phys
      in if idx < MAX_TRACKED \<and> re_is_used (sm_entries m ! idx)
         then m\<lparr>sm_entries := (sm_entries m)[idx := (sm_entries m ! idx)\<lparr>re_pinned := pinned\<rparr>]\<rparr> else m)"

definition age_entry :: "reverse_entry \<Rightarrow> reverse_entry" where
  "age_entry e = (if re_is_used e \<and> \<not> re_pinned e then e\<lparr>re_age := saturating_add (re_age e) 1\<rparr> else e)"

definition age_all :: "swap_map \<Rightarrow> swap_map" where
  "age_all m =
     (let hw = sm_high_water m
      in m\<lparr>sm_entries := map age_entry (take hw (sm_entries m)) @ drop hw (sm_entries m)\<rparr>)"

text \<open>
  \<open>pick_victim\<close>: the loop makes \<open>hw\<close> steps around the clock from \<open>idx\<close>. \<open>Inl\<close> is the early
  return on an aged entry, \<open>Inr\<close> the fallback remembered when the loop ends.
\<close>

fun clock_scan :: "reverse_entry list \<Rightarrow> nat \<Rightarrow> nat \<Rightarrow> nat \<Rightarrow> nat option \<Rightarrow> nat + nat option" where
  "clock_scan es hw 0 idx fallback = Inr fallback"
| "clock_scan es hw (Suc steps) idx fallback =
     (let e = es ! idx;
          next_idx = (if idx + 1 \<ge> hw then 0 else idx + 1)
      in if re_is_used e \<and> \<not> re_pinned e
         then if re_age e \<ge> 3 then Inl idx
              else clock_scan es hw steps next_idx (if fallback = None then Some idx else fallback)
         else clock_scan es hw steps next_idx fallback)"

definition victim_at :: "swap_map \<Rightarrow> nat \<Rightarrow> u64 \<times> u64 \<times> u64 \<times> u64" where
  "victim_at m i =
     (let e = sm_entries m ! i in (of_nat i * 4096, re_cr3 e, re_virt_addr e, re_pte_flags e))"

definition pick_victim :: "swap_map \<Rightarrow> (u64 \<times> u64 \<times> u64 \<times> u64) option \<times> swap_map" where
  "pick_victim m =
     (let hw = sm_high_water m
      in if sm_tracked m = 0 \<or> hw = 0 then (None, m)
         else (let m1 = (if sm_clock_hand m \<ge> hw then m\<lparr>sm_clock_hand := 0\<rparr> else m);
                   advance = (\<lambda>i. m1\<lparr>sm_clock_hand := (if i + 1 \<ge> hw then 0 else i + 1)\<rparr>)
               in case clock_scan (sm_entries m1) hw hw (sm_clock_hand m1) None of
                    Inl i \<Rightarrow> (Some (victim_at m1 i), advance i)
                  | Inr (Some i) \<Rightarrow> (Some (victim_at m1 i), advance i)
                  | Inr None \<Rightarrow> (None, m1)))"

definition pick_victim_and_pin :: "swap_map \<Rightarrow> (u64 \<times> u64 \<times> u64 \<times> u64) option \<times> swap_map" where
  "pick_victim_and_pin m =
     (case pick_victim m of
        (None, m') \<Rightarrow> (None, m')
      | (Some v, m') \<Rightarrow> (Some v, set_pinned (fst v) True m'))"

section \<open>Swap entries in page tables\<close>

definition SWAP_PTE_MARKER :: u64 where
  "SWAP_PTE_MARKER = 2"

definition make_swap_pte :: "u32 \<Rightarrow> u64" where
  "make_swap_pte slot = SWAP_PTE_MARKER OR push_bit 12 (ucast slot)"

definition make_swap_pte_with_flags :: "u32 \<Rightarrow> u64 \<Rightarrow> u64" where
  "make_swap_pte_with_flags slot pte_flags =
     SWAP_PTE_MARKER OR (pte_flags AND 0xFFC) OR push_bit 12 (ucast slot)"

definition flags_from_swap_pte :: "u64 \<Rightarrow> u64" where
  "flags_from_swap_pte raw = raw AND 0xFFC"

definition is_swap_pte :: "u64 \<Rightarrow> bool" where
  "is_swap_pte raw =
     (raw AND 1 = 0 \<and> raw AND SWAP_PTE_MARKER \<noteq> 0 \<and> raw \<noteq> 0 \<and> drop_bit 12 raw \<noteq> 0)"

definition slot_from_pte :: "u64 \<Rightarrow> u32" where
  "slot_from_pte raw = ucast (drop_bit 12 raw AND 0xFFFFF)"

section \<open>Invariant\<close>

definition used_frames :: "swap_map \<Rightarrow> nat set" where
  "used_frames m = {i. i < MAX_TRACKED \<and> re_is_used (sm_entries m ! i)}"

definition sm_wf :: "swap_map \<Rightarrow> bool" where
  "sm_wf m = (length (sm_entries m) = MAX_TRACKED \<and> sm_high_water m \<le> MAX_TRACKED
     \<and> used_frames m \<subseteq> {..<sm_high_water m} \<and> sm_tracked m = card (used_frames m))"

definition evictable :: "swap_map \<Rightarrow> nat \<Rightarrow> bool" where
  "evictable m i = (i \<in> used_frames m \<and> \<not> re_pinned (sm_entries m ! i))"

lemma finite_used_frames [simp]: "finite (used_frames m)"
  by (simp add: used_frames_def)

lemma re_empty_unused [simp]: "\<not> re_is_used re_empty"
  by (simp add: re_is_used_def re_empty_def)

lemma sm_wf_new: "sm_wf sm_new"
  by (simp add: sm_wf_def sm_new_def used_frames_def)

lemma bump_hw_simps [simp]:
  "sm_entries (bump_hw i m) = sm_entries m" "sm_tracked (bump_hw i m) = sm_tracked m"
  "sm_high_water (bump_hw i m) = max (sm_high_water m) (i + 1)" "sm_clock_hand (bump_hw i m) = sm_clock_hand m"
  by (auto simp: bump_hw_def)

text \<open>Trimming keeps every entry in use below the bound, and stops at one in use.\<close>

lemma trim_from_spec:
  "trim_from es n \<le> n \<and> (\<forall>i. trim_from es n \<le> i \<and> i < n \<longrightarrow> \<not> re_is_used (es ! i))
   \<and> (trim_from es n > 0 \<longrightarrow> re_is_used (es ! (trim_from es n - 1)))"
  by (induction n) (auto simp: less_Suc_eq)

lemma sm_wf_track:
  assumes wf: "sm_wf m" and "cr3 \<noteq> 0"
  shows "sm_wf (track phys cr3 virt pinned fl m)"
    and "frame_idx phys < MAX_TRACKED \<Longrightarrow> used_frames (track phys cr3 virt pinned fl m) = insert (frame_idx phys) (used_frames m)"
proof -
  let ?i = "frame_idx phys" and ?t = "track phys cr3 virt pinned fl m"
  have len: "length (sm_entries m) = MAX_TRACKED" using wf by (simp add: sm_wf_def)
  have u: "used_frames ?t = insert ?i (used_frames m)" if "?i < MAX_TRACKED"
    using that assms(2) len
    by (auto simp: used_frames_def track_def Let_def re_is_used_def nth_list_update split: if_splits)
  then show "?i < MAX_TRACKED \<Longrightarrow> used_frames ?t = insert ?i (used_frames m)" .
  show "sm_wf ?t"
  proof (cases "?i < MAX_TRACKED")
    case True
    have "sm_tracked ?t = card (insert ?i (used_frames m))"
      using True wf by (auto simp: track_def Let_def sm_wf_def used_frames_def insert_absorb)
    moreover have "sm_high_water ?t = max (sm_high_water m) (?i + 1)" "length (sm_entries ?t) = MAX_TRACKED"
      using True len by (simp_all add: track_def Let_def)
    ultimately show ?thesis using u [OF True] wf True by (auto simp: sm_wf_def)
  next
    case False
    with wf show ?thesis by (simp add: track_def)
  qed
qed

lemma sm_wf_untrack:
  assumes wf: "sm_wf m"
  shows "sm_wf (untrack phys m)" and "used_frames (untrack phys m) = used_frames m - {frame_idx phys}"
proof -
  let ?i = "frame_idx phys" and ?t = "untrack phys m"
  let ?es = "(sm_entries m)[?i := re_empty]"
  have len: "length (sm_entries m) = MAX_TRACKED" using wf by (simp add: sm_wf_def)
  show u: "used_frames ?t = used_frames m - {?i}"
    using len by (auto simp: used_frames_def untrack_def trim_hw_def Let_def nth_list_update split: if_splits)
  show "sm_wf ?t"
  proof (cases "?i < MAX_TRACKED")
    case True
    have tr: "sm_tracked ?t = card (used_frames m - {?i})"
      using True wf by (auto simp: untrack_def trim_hw_def Let_def sm_wf_def used_frames_def card_Diff_singleton)
    have hw: "sm_high_water ?t = (if ?i + 1 = sm_high_water m then trim_from ?es (sm_high_water m) else sm_high_water m)"
      and es: "sm_entries ?t = ?es"
      using True by (auto simp: untrack_def trim_hw_def Let_def)
    have "used_frames ?t \<subseteq> {..<sm_high_water ?t}"
    proof
      fix j assume j: "j \<in> used_frames ?t"
      then have "j < sm_high_water m" using wf u by (auto simp: sm_wf_def)
      moreover have "re_is_used (?es ! j)" using j es by (simp add: used_frames_def)
      ultimately show "j \<in> {..<sm_high_water ?t}"
        using trim_from_spec [of ?es "sm_high_water m"] hw by (auto simp: not_less)
    qed
    moreover have "sm_high_water ?t \<le> MAX_TRACKED"
      using wf hw trim_from_spec [of ?es "sm_high_water m"] by (auto simp: sm_wf_def)
    ultimately show ?thesis using tr u es len by (simp add: sm_wf_def)
  next
    case False
    with wf show ?thesis by (simp add: untrack_def)
  qed
qed

lemma re_is_used_update:
  "re_cr3 e = re_cr3 (es ! i) \<Longrightarrow> re_is_used (es[i := e] ! j) = re_is_used (es ! j)"
  by (cases "i < length es") (auto simp: nth_list_update re_is_used_def list_update_beyond)

lemma sm_wf_same_used:
  "sm_wf m \<Longrightarrow> used_frames m' = used_frames m \<Longrightarrow> length (sm_entries m') = length (sm_entries m) \<Longrightarrow>
   sm_tracked m' = sm_tracked m \<Longrightarrow> sm_high_water m' = sm_high_water m \<Longrightarrow> sm_wf m'"
  by (simp add: sm_wf_def)

lemma used_frames_set_pinned [simp]: "used_frames (set_pinned phys p m) = used_frames m"
  by (simp add: used_frames_def set_pinned_def Let_def re_is_used_update)

lemma sm_wf_set_pinned: "sm_wf m \<Longrightarrow> sm_wf (set_pinned phys p m)"
  by (erule sm_wf_same_used) (simp_all, simp_all add: set_pinned_def Let_def)

lemma sm_wf_touch: "sm_wf m \<Longrightarrow> sm_wf (touch phys m)"
  by (erule sm_wf_same_used) (simp_all add: used_frames_def touch_def Let_def re_is_used_update)

lemma re_is_used_age [simp]: "re_is_used (age_entry e) = re_is_used e"
  by (simp add: age_entry_def re_is_used_def)

lemma age_all_nth:
  assumes "sm_wf m" and "i < MAX_TRACKED"
  shows "sm_entries (age_all m) ! i = age_entry (sm_entries m ! i)"
proof (cases "i < sm_high_water m")
  case True
  with assms show ?thesis by (simp add: age_all_def sm_wf_def nth_append Let_def)
next
  case False
  then have "\<not> re_is_used (sm_entries m ! i)" using assms by (auto simp: sm_wf_def used_frames_def)
  with False assms show ?thesis by (simp add: age_all_def sm_wf_def nth_append age_entry_def Let_def)
qed

lemma sm_wf_age_all: "sm_wf m \<Longrightarrow> sm_wf (age_all m)"
proof -
  assume wf: "sm_wf m"
  have "used_frames (age_all m) = used_frames m"
    using age_all_nth [OF wf] by (auto simp: used_frames_def)
  with wf show ?thesis by (rule sm_wf_same_used) (simp_all add: age_all_def Let_def)
qed

section \<open>The clock\<close>

text \<open>The reference: walk once around the clock from the hand, take the first aged entry that
  can be evicted, or else the first that can be evicted at all.\<close>

definition victim_index :: "swap_map \<Rightarrow> nat option" where
  "victim_index m =
     (let hw = sm_high_water m;
          order = ring_order hw (if sm_clock_hand m \<ge> hw then 0 else sm_clock_hand m) hw
      in case List.find (\<lambda>i. evictable m i \<and> re_age (sm_entries m ! i) \<ge> 3) order of
           Some i \<Rightarrow> Some i
         | None \<Rightarrow> List.find (evictable m) order)"

lemma clock_scan_eq:
  assumes "hw > 0" and "idx < hw"
  shows "clock_scan es hw n idx fb =
    (let cand = (\<lambda>i. re_is_used (es ! i) \<and> \<not> re_pinned (es ! i))
     in case List.find (\<lambda>i. cand i \<and> re_age (es ! i) \<ge> 3) (ring_order hw idx n) of
          Some i \<Rightarrow> Inl i
        | None \<Rightarrow> Inr (if fb = None then List.find cand (ring_order hw idx n) else fb))"
  using assms(2)
proof (induction n arbitrary: idx fb)
  case 0
  then show ?case by (simp add: ring_order_def)
next
  case (Suc n)
  define nx where "nx = (if idx + 1 \<ge> hw then 0 else idx + 1)"
  have nx: "nx < hw" using Suc.prems assms(1) by (auto simp: nx_def)
  let ?e = "es ! idx" and ?cand = "\<lambda>i. re_is_used (es ! i) \<and> \<not> re_pinned (es ! i)"
  note unf = clock_scan.simps Let_def Suc.IH [OF nx] ring_order_Suc [OF Suc.prems, folded nx_def] find.simps
  consider "?cand idx" "re_age ?e \<ge> 3" | "?cand idx" "\<not> re_age ?e \<ge> 3" | "\<not> ?cand idx" by blast
  then show ?case
  proof cases
    case 1
    then show ?thesis by (simp add: unf)
  next
    case 2
    then show ?thesis
      unfolding clock_scan.simps Let_def nx_def [symmetric] Suc.IH [OF nx] ring_order_Suc [OF Suc.prems, folded nx_def]
      by (cases fb) (simp_all cong: option.case_cong)
  next
    case 3
    then have "clock_scan es hw (Suc n) idx fb = clock_scan es hw n nx fb"
      by (simp only: clock_scan.simps Let_def if_False flip: nx_def)
    moreover have "find (\<lambda>i. ?cand i \<and> re_age (es ! i) \<ge> 3) (ring_order hw idx (Suc n)) =
        find (\<lambda>i. ?cand i \<and> re_age (es ! i) \<ge> 3) (ring_order hw nx n)"
      "find ?cand (ring_order hw idx (Suc n)) = find ?cand (ring_order hw nx n)"
      using 3 by (auto simp: ring_order_Suc [OF Suc.prems, folded nx_def])
    ultimately show ?thesis by (simp only: Suc.IH [OF nx] Let_def)
  qed
qed

lemma find_evictable:
  assumes "sm_wf m" and "\<forall>i\<in>set xs. i < sm_high_water m"
  shows "find (\<lambda>i. re_is_used (sm_entries m ! i) \<and> \<not> re_pinned (sm_entries m ! i)) xs = find (evictable m) xs"
    and "find (\<lambda>i. (re_is_used (sm_entries m ! i) \<and> \<not> re_pinned (sm_entries m ! i)) \<and> 3 \<le> re_age (sm_entries m ! i)) xs
      = find (\<lambda>i. evictable m i \<and> 3 \<le> re_age (sm_entries m ! i)) xs"
  by (rule find_cong; use assms in \<open>auto simp: evictable_def used_frames_def sm_wf_def\<close>)+

lemma pick_victim_eq:
  assumes "sm_wf m" and "sm_tracked m \<noteq> 0"
  defines "hw \<equiv> sm_high_water m" and "hand \<equiv> (if sm_clock_hand m \<ge> sm_high_water m then 0 else sm_clock_hand m)"
  shows "pick_victim m =
    (case victim_index m of
       None \<Rightarrow> (None, m\<lparr>sm_clock_hand := hand\<rparr>)
     | Some i \<Rightarrow> (Some (victim_at m i), m\<lparr>sm_clock_hand := (if i + 1 \<ge> hw then 0 else i + 1)\<rparr>))"
proof -
  have hw: "sm_high_water m > 0" using assms(1,2) by (auto simp: sm_wf_def)
  then have hand: "hand < sm_high_water m" by (auto simp: hand_def)
  let ?ord = "ring_order (sm_high_water m) hand (sm_high_water m)"
  have ord: "\<forall>i\<in>set ?ord. i < sm_high_water m" using set_ring_order [OF hand] by auto
  define m1 where "m1 = (if sm_clock_hand m \<ge> sm_high_water m then m\<lparr>sm_clock_hand := 0\<rparr> else m)"
  have m1: "m1 = m\<lparr>sm_clock_hand := hand\<rparr>" by (simp add: m1_def hand_def)
  have scan: "clock_scan (sm_entries m1) (sm_high_water m) (sm_high_water m) (sm_clock_hand m1) None =
      (case find (\<lambda>i. evictable m i \<and> re_age (sm_entries m ! i) \<ge> 3) ?ord of
         Some i \<Rightarrow> Inl i | None \<Rightarrow> Inr (find (evictable m) ?ord))"
    unfolding m1 swap_map.update_convs swap_map.select_convs
    by (simp add: clock_scan_eq [OF hw hand] Let_def) (simp add: find_evictable [OF assms(1) ord, simplified] split: option.split)
  have "pick_victim m =
      (case clock_scan (sm_entries m1) (sm_high_water m) (sm_high_water m) (sm_clock_hand m1) None of
         Inl i \<Rightarrow> (Some (victim_at m1 i), m1\<lparr>sm_clock_hand := (if i + 1 \<ge> sm_high_water m then 0 else i + 1)\<rparr>)
       | Inr (Some i) \<Rightarrow> (Some (victim_at m1 i), m1\<lparr>sm_clock_hand := (if i + 1 \<ge> sm_high_water m then 0 else i + 1)\<rparr>)
       | Inr None \<Rightarrow> (None, m1))"
    using assms(2) hw unfolding pick_victim_def Let_def m1_def by simp
  then show ?thesis
    unfolding scan victim_index_def Let_def hand_def [symmetric] hw_def
    by (simp add: m1 victim_at_def split: option.split)
qed

lemma victim_index_spec:
  assumes "sm_wf m" and "sm_high_water m > 0"
  shows "victim_index m = None \<longleftrightarrow> (\<forall>i. \<not> evictable m i)"
    and "victim_index m = Some i \<Longrightarrow> evictable m i
      \<and> (re_age (sm_entries m ! i) \<ge> 3 \<or> (\<forall>j. evictable m j \<longrightarrow> re_age (sm_entries m ! j) < 3))"
proof -
  define hand where "hand = (if sm_clock_hand m \<ge> sm_high_water m then 0 else sm_clock_hand m)"
  have hand: "hand < sm_high_water m" using assms(2) by (auto simp: hand_def)
  define ord where "ord = ring_order (sm_high_water m) hand (sm_high_water m)"
  have ord: "evictable m i \<Longrightarrow> i \<in> set ord" for i
    using set_ring_order [OF hand] assms(1) by (auto simp: ord_def evictable_def sm_wf_def)
  have vi: "victim_index m = (case find (\<lambda>i. evictable m i \<and> re_age (sm_entries m ! i) \<ge> 3) ord of
      Some i \<Rightarrow> Some i | None \<Rightarrow> find (evictable m) ord)"
    unfolding victim_index_def Let_def ord_def hand_def by (rule refl)
  show "victim_index m = None \<longleftrightarrow> (\<forall>i. \<not> evictable m i)"
    using ord by (auto simp: vi find_None_iff split: option.split)
      (auto simp: find_Some_iff)
  assume "victim_index m = Some i"
  then show "evictable m i
      \<and> (re_age (sm_entries m ! i) \<ge> 3 \<or> (\<forall>j. evictable m j \<longrightarrow> re_age (sm_entries m ! j) < 3))"
    using ord by (auto simp: vi find_None_iff not_le split: option.splits) (auto simp: find_Some_iff)
qed

lemma evictable_tracked: "sm_wf m \<Longrightarrow> evictable m i \<Longrightarrow> sm_tracked m \<noteq> 0 \<and> sm_high_water m > 0"
  by (auto simp: sm_wf_def evictable_def card_eq_0_iff)

section \<open>Lemmas on swap entries\<close>

lemma bit_below:
  fixes w :: "'a::len word"
  assumes "bit w n" and "unat w < 2 ^ k"
  shows "n < k"
proof (rule ccontr)
  assume "\<not> n < k"
  then have "(2 :: nat) ^ k \<le> 2 ^ n" by (intro power_increasing) auto
  with assms(2) have "unat w < 2 ^ n" by linarith
  then have "unat w div 2 ^ n = 0" by (rule div_less)
  moreover have "bit (unat w) n" using assms(1) by (simp add: bit_unsigned_iff bit_imp_le_length)
  ultimately show False by (simp add: bit_iff_odd)
qed

lemma bit_saved_flags: "bit (0xFFC :: u64) n \<longleftrightarrow> 2 \<le> n \<and> n < 12"
proof -
  have "(0xFFC :: u64) = mask 12 AND NOT (mask 2)" by (simp add: mask_eq_exp_minus_1)
  then show ?thesis by (simp only: bit_and_iff bit_not_iff bit_mask_iff) auto
qed

lemma bit_slot_mask: "bit (0xFFFFF :: u64) n \<longleftrightarrow> n < 20"
proof -
  have "(0xFFFFF :: u64) = mask 20" by (simp add: mask_eq_exp_minus_1)
  then show ?thesis by (simp only: bit_mask_iff) auto
qed

lemma bit_marker: "bit (2 :: u64) n \<longleftrightarrow> n = 1"
  using bit_exp_iff [where 'a = u64, of 1 n] by auto

lemma swap_pte_bits:
  "bit (make_swap_pte_with_flags slot fl) n \<longleftrightarrow> n < 64 \<and>
     (n = 1 \<or> 2 \<le> n \<and> n < 12 \<and> bit fl n \<or> 12 \<le> n \<and> bit slot (n - 12))"
  unfolding make_swap_pte_with_flags_def SWAP_PTE_MARKER_def bit_or_iff bit_and_iff bit_saved_flags bit_marker
  by (auto simp: bit_push_bit_iff bit_ucast_iff dest: bit_imp_le_length)

lemma and_one_bit: "w AND 2 ^ n = 0 \<longleftrightarrow> \<not> bit w n" for w :: u64
  using bit_iff_and_push_bit_not_eq_0 [of w n] by simp

lemma slot_from_swap_pte:
  assumes "unat slot < 2 ^ 20"
  shows "slot_from_pte (make_swap_pte_with_flags slot fl) = slot"
proof (rule bit_eqI)
  fix n assume "possible_bit TYPE(u32) n"
  then have n: "n < 32" by simp
  have "bit slot n \<Longrightarrow> n < 20" using bit_below [OF _ assms] .
  with n show "bit (slot_from_pte (make_swap_pte_with_flags slot fl)) n = bit slot n"
    unfolding slot_from_pte_def bit_ucast_iff bit_and_iff bit_slot_mask bit_drop_bit_eq o_def swap_pte_bits
    by auto
qed

lemma flags_from_swap_pte_eq: "flags_from_swap_pte (make_swap_pte_with_flags slot fl) = fl AND 0xFFC"
proof (rule bit_eqI)
  fix n assume "possible_bit TYPE(u64) n"
  then show "bit (flags_from_swap_pte (make_swap_pte_with_flags slot fl)) n = bit (fl AND 0xFFC) n"
    unfolding flags_from_swap_pte_def bit_and_iff bit_saved_flags swap_pte_bits by auto
qed

lemma is_swap_pte_made:
  assumes "slot \<noteq> 0" and "unat slot < 2 ^ 20"
  shows "is_swap_pte (make_swap_pte_with_flags slot fl)"
proof -
  let ?r = "make_swap_pte_with_flags slot fl"
  have b: "\<not> bit ?r 0" "bit ?r 1" by (simp_all add: swap_pte_bits)
  have "slot_from_pte ?r \<noteq> 0" using slot_from_swap_pte [OF assms(2)] assms(1) by simp
  then have "drop_bit 12 ?r \<noteq> 0" by (auto simp: slot_from_pte_def)
  moreover have "?r AND 1 = 0" using and_one_bit [of ?r 0] b(1) by simp
  moreover have "?r AND 2 \<noteq> 0" using and_one_bit [of ?r 1] b(2) by simp
  moreover from this have "?r \<noteq> 0" by auto
  ultimately show ?thesis by (simp add: is_swap_pte_def SWAP_PTE_MARKER_def)
qed

section \<open>Properties\<close>

text \<open>C18: The clock picks what it should. In a well-formed reverse map \<open>pick_victim\<close> returns
  nothing exactly when no frame can be evicted; otherwise it returns the frame, address
  space, page and flags of an entry that is in use and not pinned, namely the first one in
  clock order of age 3 or more, or the first one at all when none is that old. Only the hand
  moves, and \<open>high_water\<close> hides no candidate.\<close>

theorem pick_victim_correct:
  assumes "sm_wf m"
  shows "case pick_victim m of
      (None, m') \<Rightarrow> (\<forall>i. \<not> evictable m i) \<and> sm_wf m' \<and> sm_entries m' = sm_entries m
    | (Some v, m') \<Rightarrow>
        (\<exists>i. victim_index m = Some i \<and> evictable m i \<and> v = victim_at m i
          \<and> (re_age (sm_entries m ! i) \<ge> 3 \<or> (\<forall>j. evictable m j \<longrightarrow> re_age (sm_entries m ! j) < 3)))
        \<and> sm_wf m' \<and> sm_entries m' = sm_entries m"
proof (cases "sm_tracked m = 0")
  case True
  then have "\<not> evictable m i" for i using evictable_tracked [OF assms] by blast
  with True assms show ?thesis by (simp add: pick_victim_def)
next
  case False
  then have hw: "sm_high_water m > 0" using assms by (cases "sm_high_water m = 0") (auto simp: sm_wf_def)
  have "sm_wf (m\<lparr>sm_clock_hand := h\<rparr>)" for h
    using assms by (rule sm_wf_same_used) (simp_all add: used_frames_def)
  with victim_index_spec [OF assms hw] assms show ?thesis
    by (auto simp: pick_victim_eq [OF assms False] split: option.split)
qed

definition sm_example :: swap_map where
  "sm_example = track 0x5000 0x1000 0x400000 False 7 sm_new"

theorem pick_victim_correct_witness:
  "sm_wf sm_example \<and> (\<exists>v. fst (pick_victim sm_example) = Some v)"
proof -
  have wf: "sm_wf sm_example" unfolding sm_example_def by (rule sm_wf_track(1) [OF sm_wf_new]) simp
  have "frame_idx 0x5000 = 5" by (simp add: frame_idx_def)
  then have "evictable sm_example 5"
    by (simp add: evictable_def used_frames_def sm_example_def track_def sm_new_def MAX_TRACKED_def re_is_used_def)
  with pick_victim_correct [OF wf] wf show ?thesis
    by (auto split: prod.splits option.splits)
qed

text \<open>C31: The swap entry written into a page table can be told from a present or empty entry
  and gives back the slot, for every slot the swap device can have, and the flag bits 2 to
  11.\<close>

theorem swap_pte_roundtrip:
  assumes "slot \<noteq> 0" and "unat slot \<le> 65536"
  shows "is_swap_pte (make_swap_pte_with_flags slot fl) \<and> slot_from_pte (make_swap_pte_with_flags slot fl) = slot
    \<and> flags_from_swap_pte (make_swap_pte_with_flags slot fl) = fl AND 0xFFC
    \<and> \<not> is_swap_pte 0 \<and> \<not> is_swap_pte (fl OR 1)"
proof -
  have "unat slot < 2 ^ 20" using assms(2) by simp
  moreover have "(fl OR 1) AND 1 \<noteq> 0" using and_one_bit [of "fl OR 1" 0] by (simp add: bit_or_iff)
  ultimately show ?thesis
    using assms(1) is_swap_pte_made slot_from_swap_pte flags_from_swap_pte_eq by (simp add: is_swap_pte_def)
qed

theorem swap_pte_roundtrip_witness:
  "slot_from_pte (make_swap_pte_with_flags 65536 7) = 65536 \<and> flags_from_swap_pte (make_swap_pte_with_flags 65536 7) = 4"
  using swap_pte_roundtrip [of 65536 7] by simp

end
