(* ===== verification/BTree.thy ===== *)
theory BTree
  imports Prelude
begin

text \<open>
  \<open>BTreeMap\<close> of the Rust library, as the association list sorted by its keys: \<open>insert\<close>,
  \<open>remove\<close>, and \<open>range(..).next_back()\<close>, the entry with the greatest key in a range.
\<close>

fun bt_insert :: "'k::linorder \<Rightarrow> 'v \<Rightarrow> ('k \<times> 'v) list \<Rightarrow> ('k \<times> 'v) list" where
  "bt_insert k v [] = [(k, v)]"
| "bt_insert k v ((k', v') # m) =
     (if k < k' then (k, v) # (k', v') # m else if k = k' then (k, v) # m else (k', v') # bt_insert k v m)"

definition bt_remove :: "'k::linorder \<Rightarrow> ('k \<times> 'v) list \<Rightarrow> ('k \<times> 'v) list" where
  "bt_remove k m = filter (\<lambda>(k', _). k' \<noteq> k) m"

fun bt_last :: "('k::linorder \<Rightarrow> bool) \<Rightarrow> ('k \<times> 'v) list \<Rightarrow> ('k \<times> 'v) option" where
  "bt_last P [] = None"
| "bt_last P (x # m) = (case bt_last P m of Some y \<Rightarrow> Some y | None \<Rightarrow> if P (fst x) then Some x else None)"

definition bt_ok :: "('k::linorder \<times> 'v) list \<Rightarrow> bool" where
  "bt_ok m = sorted_wrt (<) (map fst m)"

lemma map_of_bt_insert [simp]: "map_of (bt_insert k v m) = (map_of m)(k \<mapsto> v)"
  by (induction k v m rule: bt_insert.induct) auto

lemma map_of_bt_remove: "map_of (bt_remove k m) = (map_of m)(k := None)"
  unfolding bt_remove_def by (induction m) auto

lemma bt_ok_Nil [simp]: "bt_ok []"
  by (simp add: bt_ok_def)

lemma bt_ok_Cons: "bt_ok ((k, v) # m) \<longleftrightarrow> (\<forall>p\<in>set m. k < fst p) \<and> bt_ok m"
  by (auto simp: bt_ok_def)

lemma set_bt_insert: "bt_ok m \<Longrightarrow> set (bt_insert k v m) = insert (k, v) {p \<in> set m. fst p \<noteq> k}"
proof (induction k v m rule: bt_insert.induct)
  case (2 k v k' v' m)
  have "\<forall>p\<in>set m. k' < fst p" using 2(2) by (simp add: bt_ok_Cons)
  then have "{p \<in> set m. fst p \<noteq> k} = set m" if "k \<le> k'" using that by fastforce
  then show ?case using 2 by (auto simp: bt_ok_Cons)
qed simp

lemma bt_ok_insert: "bt_ok m \<Longrightarrow> bt_ok (bt_insert k v m)"
proof (induction k v m rule: bt_insert.induct)
  case (2 k v k' v' m)
  have "\<forall>p\<in>set m. k' < fst p" "bt_ok m" using 2(2) by (simp_all add: bt_ok_Cons)
  with 2(1) show ?case by (fastforce simp: bt_ok_Cons set_bt_insert)
qed (simp add: bt_ok_def)

lemma set_bt_remove [simp]: "set (bt_remove k m) = {p \<in> set m. fst p \<noteq> k}"
  by (auto simp: bt_remove_def)

lemma bt_ok_remove: "bt_ok m \<Longrightarrow> bt_ok (bt_remove k m)"
proof -
  have "filter (\<lambda>(k', _). k' \<noteq> k) m = filter ((\<lambda>k'. k' \<noteq> k) \<circ> fst) m" by (rule filter_cong) auto
  then show "bt_ok m \<Longrightarrow> ?thesis" by (simp add: bt_ok_def bt_remove_def sorted_wrt_filter flip: filter_map)
qed

lemma bt_last_None: "bt_last P m = None \<longleftrightarrow> (\<forall>p\<in>set m. \<not> P (fst p))"
  by (induction m) (auto split: option.split)

lemma bt_last_SomeD:
  "bt_ok m \<Longrightarrow> bt_last P m = Some p \<Longrightarrow> p \<in> set m \<and> P (fst p) \<and> (\<forall>q\<in>set m. P (fst q) \<longrightarrow> fst q \<le> fst p)"
proof (induction m)
  case (Cons x m)
  obtain k v where x: "x = (k, v)" by (cases x)
  have lt: "\<forall>q\<in>set m. k < fst q" and ok: "bt_ok m" using Cons.prems(1) by (simp_all add: x bt_ok_Cons)
  show ?case
  proof (cases "bt_last P m")
    case None
    then have "\<forall>q\<in>set m. \<not> P (fst q)" by (simp add: bt_last_None)
    then show ?thesis using Cons.prems(2) None by (auto split: if_splits)
  next
    case (Some y)
    with Cons.prems(2) have "y = p" by simp
    with Some Cons.IH [OF ok] lt show ?thesis by (fastforce simp: x)
  qed
qed simp

lemma map_of_bt: "bt_ok m \<Longrightarrow> map_of m k = Some v \<longleftrightarrow> (k, v) \<in> set m"
  by (rule iffI, erule map_of_SomeD) (auto simp: bt_ok_def strict_sorted_iff intro!: map_of_is_SomeI)

lemma bt_key_unique: "bt_ok m \<Longrightarrow> (k, v) \<in> set m \<Longrightarrow> (k, v') \<in> set m \<Longrightarrow> v = v'"
  by (metis map_of_bt option.inject)

lemma set_bt_remove_insert: "bt_ok m \<Longrightarrow> (k, v) \<in> set m \<Longrightarrow> insert (k, v) (set (bt_remove k m)) = set m"
  using bt_key_unique [of m k _ v] by (fastforce simp: set_bt_remove)

end
