(* ===== verification/Vma.thy ===== *)
theory Vma
  imports BTree SwapMap
begin

text \<open>
  The memory mappings of a process, \<open>kernel/mm/mmap.rs\<close>: the table of mapped ranges of an address
  space with its search for free space, splitting and merging, and the calls \<open>mmap\<close>, \<open>munmap\<close>,
  \<open>mprotect\<close>, \<open>msync\<close> and \<open>brk\<close> with the page faults that fill mappings lazily. Frames, page tables
  and files are reached through the operations of \<open>mem\<close>, which act on an abstract world.
\<close>

definition VM_PAGE :: u64 where "VM_PAGE = 4096"
abbreviation MMAP_BASE :: u64 where "MMAP_BASE \<equiv> 0x100000000"
abbreviation MMAP_LIMIT :: u64 where "MMAP_LIMIT \<equiv> 0x7F0000000000"
abbreviation BRK_BASE :: u64 where "BRK_BASE \<equiv> 0x6000000000"
definition USER_END :: u64 where "USER_END = 0x800000000000"

abbreviation PROT_READ :: u32 where "PROT_READ \<equiv> 1"
abbreviation PROT_WRITE :: u32 where "PROT_WRITE \<equiv> 2"
abbreviation PROT_EXEC :: u32 where "PROT_EXEC \<equiv> 4"
abbreviation MAP_FIXED :: u32 where "MAP_FIXED \<equiv> 0x10"

abbreviation PROT_VALID_MASK :: u32 where "PROT_VALID_MASK \<equiv> PROT_READ OR PROT_WRITE OR PROT_EXEC"

definition user_range_ok :: "u64 \<Rightarrow> u64 \<Rightarrow> bool" where
  "user_range_ok s e = (s < e \<and> e \<le> USER_END)"

definition user_end_for :: "u64 \<Rightarrow> u64 \<Rightarrow> u64 option" where
  "user_end_for s sz =
     (case checked_add s sz of
        None \<Rightarrow> None
      | Some e \<Rightarrow> if \<not> user_range_ok s e then None else Some e)"

definition checked_align_up :: "u64 \<Rightarrow> u64 option" where
  "checked_align_up len = map_option (\<lambda>v. v AND NOT (VM_PAGE - 1)) (checked_add len (VM_PAGE - 1))"

definition page_align_up :: "u64 \<Rightarrow> u64" where
  "page_align_up addr = (addr + VM_PAGE - 1) AND NOT (VM_PAGE - 1)"

section \<open>The table of mapped ranges\<close>

record file_backing =
  fb_vnode_id :: u32
  fb_file_off :: u64
  fb_file_size :: u64
  fb_shared :: bool

record vma =
  vma_start :: u64
  vma_end :: u64
  vma_prot :: u32
  vma_backing :: "file_backing option"

record vma_map =
  vm_vmas :: "(u64 \<times> vma) list"
  vm_brk :: u64
  vm_brk_floor :: u64

definition vm_new :: vma_map where
  "vm_new = \<lparr>vm_vmas = [], vm_brk = BRK_BASE, vm_brk_floor = BRK_BASE\<rparr>"

definition set_brk_base :: "u64 \<Rightarrow> vma_map \<Rightarrow> vma_map" where
  "set_brk_base addr m = (let aligned = page_align_up addr in m\<lparr>vm_brk := aligned, vm_brk_floor := aligned\<rparr>)"

definition vma_insert :: "vma \<Rightarrow> vma_map \<Rightarrow> vma_map" where
  "vma_insert v m = m\<lparr>vm_vmas := bt_insert (vma_start v) v (vm_vmas m)\<rparr>"

text \<open>One round of \<open>remove_range\<close>: the mapping at key \<open>k\<close> gives way to what lies outside \<open>[s, e)\<close>.\<close>

definition cut_at :: "u64 \<Rightarrow> u64 \<Rightarrow> u64 \<Rightarrow> (u64 \<times> vma) list \<Rightarrow> (u64 \<times> vma) list" where
  "cut_at s e k vs =
     (case map_of vs k of
        None \<Rightarrow> vs
      | Some v \<Rightarrow>
          let vs1 = bt_remove k vs;
              vs2 = (if vma_start v < s then bt_insert (vma_start v) (v\<lparr>vma_end := s\<rparr>) vs1 else vs1)
          in if vma_end v > e
             then bt_insert e (v\<lparr>vma_start := e, vma_backing :=
                    map_option (\<lambda>b. b\<lparr>fb_file_off := fb_file_off b + (e - vma_start v)\<rparr>) (vma_backing v)\<rparr>) vs2
             else vs2)"

definition remove_range :: "u64 \<Rightarrow> u64 \<Rightarrow> vma_map \<Rightarrow> vma_map" where
  "remove_range s e m =
     (let keys = map fst (filter (\<lambda>(k, v). k < e \<and> vma_end v > s) (vm_vmas m))
      in m\<lparr>vm_vmas := fold (cut_at s e) keys (vm_vmas m)\<rparr>)"

fun free_gap :: "u64 \<Rightarrow> vma list \<Rightarrow> u64 \<Rightarrow> u64 option" where
  "free_gap sz [] cursor =
     (case checked_add cursor sz of
        Some e \<Rightarrow> if e \<le> MMAP_LIMIT then Some cursor else None
      | None \<Rightarrow> None)"
| "free_gap sz (v # vs) cursor =
     (if vma_start v \<ge> MMAP_LIMIT then free_gap sz [] cursor
      else case checked_add cursor sz of
        None \<Rightarrow> None
      | Some e \<Rightarrow>
          if e \<le> vma_start v then Some cursor
          else free_gap sz vs (if vma_end v > cursor then vma_end v else cursor))"

definition find_free :: "u64 \<Rightarrow> vma_map \<Rightarrow> u64 option" where
  "find_free sz m =
     (if sz = 0 then None
      else
        let cursor = (case bt_last (\<lambda>k. k \<le> MMAP_BASE) (vm_vmas m) of
                        Some (_, v) \<Rightarrow> if vma_end v > MMAP_BASE then vma_end v else MMAP_BASE
                      | None \<Rightarrow> MMAP_BASE)
        in free_gap sz (map snd (filter (\<lambda>(k, _). cursor \<le> k) (vm_vmas m))) cursor)"

definition absorb_prev :: "vma \<Rightarrow> (u64 \<times> vma) list \<Rightarrow> vma \<times> (u64 \<times> vma) list" where
  "absorb_prev v vs =
     (case bt_last (\<lambda>k. k < vma_start v) vs of
        Some (_, prev) \<Rightarrow>
          if vma_end prev = vma_start v \<and> vma_prot prev = vma_prot v \<and> vma_backing prev = None
          then (v\<lparr>vma_start := vma_start prev\<rparr>, bt_remove (vma_start prev) vs)
          else (v, vs)
      | None \<Rightarrow> (v, vs))"

definition absorb_next :: "vma \<Rightarrow> (u64 \<times> vma) list \<Rightarrow> vma \<times> (u64 \<times> vma) list" where
  "absorb_next v vs =
     (case map_of vs (vma_end v) of
        Some next \<Rightarrow>
          if vma_prot next = vma_prot v \<and> vma_backing next = None
          then (v\<lparr>vma_end := vma_end next\<rparr>, bt_remove (vma_start next) vs)
          else (v, vs)
      | None \<Rightarrow> (v, vs))"

definition insert_merged :: "vma \<Rightarrow> vma_map \<Rightarrow> vma_map" where
  "insert_merged v m =
     (case (if vma_backing v = None
            then (case absorb_prev v (vm_vmas m) of (v1, vs1) \<Rightarrow> absorb_next v1 vs1)
            else (v, vm_vmas m)) of
        (v', vs') \<Rightarrow> m\<lparr>vm_vmas := bt_insert (vma_start v') v' vs'\<rparr>)"

definition find_and_insert_file :: "u64 \<Rightarrow> u32 \<Rightarrow> file_backing option \<Rightarrow> vma_map \<Rightarrow> u64 option \<times> vma_map" where
  "find_and_insert_file sz prot backing m =
     (case find_free sz m of
        None \<Rightarrow> (None, m)
      | Some base \<Rightarrow>
          (case checked_add base sz of
             None \<Rightarrow> (None, m)
           | Some e \<Rightarrow>
               (Some base, insert_merged \<lparr>vma_start = base, vma_end = e, vma_prot = prot, vma_backing = backing\<rparr> m)))"

definition find_and_insert :: "u64 \<Rightarrow> u32 \<Rightarrow> vma_map \<Rightarrow> u64 option \<times> vma_map" where
  "find_and_insert sz prot = find_and_insert_file sz prot None"

definition vma_find :: "u64 \<Rightarrow> vma_map \<Rightarrow> vma option" where
  "vma_find addr m =
     (case bt_last (\<lambda>k. k \<le> addr) (vm_vmas m) of
        Some (_, v) \<Rightarrow> if vma_end v > addr then Some v else None
      | None \<Rightarrow> None)"

section \<open>The table of address spaces\<close>

type_synonym vma_table = "(u64 \<times> vma_map) list"

definition with_vma :: "u64 \<Rightarrow> (vma_map \<Rightarrow> 'r \<times> vma_map) \<Rightarrow> vma_table \<Rightarrow> 'r \<times> vma_table" where
  "with_vma cr3 f t =
     (case f (case map_of t cr3 of Some m \<Rightarrow> m | None \<Rightarrow> vm_new) of (r, m) \<Rightarrow> (r, bt_insert cr3 m t))"

definition vma_set_brk :: "u64 \<Rightarrow> u64 \<Rightarrow> vma_table \<Rightarrow> vma_table" where
  "vma_set_brk cr3 brk_base t = snd (with_vma cr3 (\<lambda>m. ((), set_brk_base brk_base m)) t)"

definition kernel_find_free :: "u64 \<Rightarrow> u64 \<Rightarrow> vma_table \<Rightarrow> u64 option \<times> vma_table" where
  "kernel_find_free cr3 sz = with_vma cr3 (\<lambda>m. (find_free sz m, m))"

definition vma_lookup :: "u64 \<Rightarrow> u64 \<Rightarrow> vma_table \<Rightarrow> vma option \<times> vma_table" where
  "vma_lookup cr3 addr = with_vma cr3 (\<lambda>m. (vma_find addr m, m))"

definition kernel_register_vma :: "u64 \<Rightarrow> u64 \<Rightarrow> u64 \<Rightarrow> u32 \<Rightarrow> vma_table \<Rightarrow> vma_table" where
  "kernel_register_vma cr3 s e prot t =
     (if s \<ge> e then t
      else snd (with_vma cr3 (\<lambda>m. ((), vma_insert \<lparr>vma_start = s, vma_end = e, vma_prot = prot, vma_backing = None\<rparr> m)) t))"

definition vma_cleanup :: "u64 \<Rightarrow> vma_table \<Rightarrow> vma_table" where
  "vma_cleanup = bt_remove"

definition vma_clone :: "u64 \<Rightarrow> u64 \<Rightarrow> vma_table \<Rightarrow> vma_table" where
  "vma_clone src dst t = (case map_of t src of Some m \<Rightarrow> bt_insert dst m t | None \<Rightarrow> t)"

section \<open>Pages\<close>

text \<open>What the mappings use of the frame allocator, the page tables and the file system.\<close>

record 'w mem =
  x_alloc_frame :: "'w \<Rightarrow> u64 option \<times> 'w"
  x_free_frame :: "u64 \<Rightarrow> 'w \<Rightarrow> 'w"
  x_zero_frame :: "u64 \<Rightarrow> 'w \<Rightarrow> 'w"
  x_map_page :: "u64 \<Rightarrow> u64 \<Rightarrow> u64 \<Rightarrow> u64 \<Rightarrow> 'w \<Rightarrow> bool \<times> 'w"
  x_unmap_page :: "u64 \<Rightarrow> u64 \<Rightarrow> 'w \<Rightarrow> 'w"
  x_unmap_page_no_free :: "u64 \<Rightarrow> u64 \<Rightarrow> 'w \<Rightarrow> 'w"
  x_virt_to_phys :: "u64 \<Rightarrow> u64 \<Rightarrow> 'w \<Rightarrow> u64 option"
  x_read_pte :: "u64 \<Rightarrow> u64 \<Rightarrow> 'w \<Rightarrow> u64 option"
  x_read_file :: "u32 \<Rightarrow> u64 \<Rightarrow> u64 \<Rightarrow> nat \<Rightarrow> 'w \<Rightarrow> bool \<times> 'w"
  x_write_file :: "u32 \<Rightarrow> u64 \<Rightarrow> u64 \<Rightarrow> nat \<Rightarrow> 'w \<Rightarrow> 'w"

text \<open>The addresses \<open>p, p + PAGE_SIZE, ...\<close> below \<open>e\<close>, in the order of the loops.\<close>

definition pages_between :: "u64 \<Rightarrow> u64 \<Rightarrow> u64 list" where
  "pages_between p e = map (\<lambda>i. p + of_nat i * VM_PAGE) [0..<(unat e - unat p + 4095) div 4096]"

definition prot_to_flags :: "u32 \<Rightarrow> u64" where
  "prot_to_flags prot0 =
     (let prot = prot0 AND PROT_VALID_MASK;
          want_exec = (prot AND PROT_EXEC \<noteq> 0 \<and> prot AND PROT_WRITE = 0)
      in 1 OR 4 OR (if prot AND PROT_WRITE \<noteq> 0 then 2 else 0) OR (if \<not> want_exec then push_bit 63 1 else 0))"

definition prot_rejects_wx :: "u32 \<Rightarrow> bool" where
  "prot_rejects_wx prot = (prot AND PROT_WRITE \<noteq> 0 \<and> prot AND PROT_EXEC \<noteq> 0)"

definition unmap_pages :: "'w mem \<Rightarrow> u64 \<Rightarrow> u64 \<Rightarrow> nat \<Rightarrow> 'w \<Rightarrow> 'w" where
  "unmap_pages x cr3 base pages = fold (\<lambda>i. x_unmap_page x cr3 (base + of_nat i * VM_PAGE)) [0..<pages]"

fun map_fresh :: "'w mem \<Rightarrow> u64 \<Rightarrow> u64 \<Rightarrow> u64 \<Rightarrow> nat \<Rightarrow> nat \<Rightarrow> 'w \<Rightarrow> bool \<times> 'w" where
  "map_fresh x cr3 base flags 0 i w = (True, w)"
| "map_fresh x cr3 base flags (Suc n) i w =
     (case x_alloc_frame x w of
        (None, w1) \<Rightarrow> (False, unmap_pages x cr3 base i w1)
      | (Some phys, w1) \<Rightarrow>
          (case x_map_page x cr3 (base + of_nat i * VM_PAGE) phys flags (x_zero_frame x phys w1) of
             (True, w2) \<Rightarrow> map_fresh x cr3 base flags n (Suc i) w2
           | (False, w2) \<Rightarrow> (False, unmap_pages x cr3 base i (x_free_frame x phys w2))))"

definition map_fresh_pages :: "'w mem \<Rightarrow> u64 \<Rightarrow> u64 \<Rightarrow> nat \<Rightarrow> u64 \<Rightarrow> 'w \<Rightarrow> bool \<times> 'w" where
  "map_fresh_pages x cr3 base pages flags = map_fresh x cr3 base flags pages 0"

section \<open>Page faults\<close>

record 'w vmm =
  vt_table :: vma_table
  vt_world :: 'w

definition on_vma :: "u64 \<Rightarrow> (vma_map \<Rightarrow> 'r \<times> vma_map) \<Rightarrow> 'w vmm \<Rightarrow> 'r \<times> 'w vmm" where
  "on_vma cr3 f s = (case with_vma cr3 f (vt_table s) of (r, t) \<Rightarrow> (r, s\<lparr>vt_table := t\<rparr>))"

definition page_of :: "u64 \<Rightarrow> u64" where
  "page_of addr = addr AND NOT (VM_PAGE - 1)"

definition handle_anon_fault :: "'w mem \<Rightarrow> u64 \<Rightarrow> u64 \<Rightarrow> vma \<Rightarrow> 'w \<Rightarrow> bool \<times> 'w" where
  "handle_anon_fault x cr3 page_addr v w =
     (if case x_read_pte x cr3 page_addr w of Some p \<Rightarrow> p AND 1 \<noteq> 0 | None \<Rightarrow> False then (True, w)
      else case x_alloc_frame x w of
        (None, w1) \<Rightarrow> (False, w1)
      | (Some phys, w1) \<Rightarrow>
          (case x_map_page x cr3 page_addr phys (prot_to_flags (vma_prot v)) (x_zero_frame x phys w1) of
             (True, w2) \<Rightarrow> (True, w2)
           | (False, w2) \<Rightarrow> (False, x_free_frame x phys w2)))"

definition fill_frame :: "'w mem \<Rightarrow> file_backing \<Rightarrow> u64 \<Rightarrow> u64 \<Rightarrow> 'w \<Rightarrow> bool \<times> 'w" where
  "fill_frame x b file_off phys w =
     (if file_off < fb_file_size b
      then x_read_file x (fb_vnode_id b) file_off phys (unat (min (fb_file_size b - file_off) VM_PAGE)) w
      else (True, w))"

definition handle_file_fault :: "'w mem \<Rightarrow> u64 \<Rightarrow> u64 \<Rightarrow> 'w vmm \<Rightarrow> bool \<times> 'w vmm" where
  "handle_file_fault x cr3 fault_addr s0 =
     (let page_addr = page_of fault_addr
      in case on_vma cr3 (\<lambda>m. (vma_find page_addr m, m)) s0 of
           (None, s) \<Rightarrow> (False, s)
         | (Some v, s) \<Rightarrow>
             (case vma_backing v of
                None \<Rightarrow> (False, s)
              | Some b \<Rightarrow>
                  (case x_alloc_frame x (vt_world s) of
                     (None, w) \<Rightarrow> (False, s\<lparr>vt_world := w\<rparr>)
                   | (Some phys, w) \<Rightarrow>
                       (case fill_frame x b (fb_file_off b + (page_addr - vma_start v)) phys (x_zero_frame x phys w) of
                          (False, w) \<Rightarrow> (False, s\<lparr>vt_world := x_free_frame x phys w\<rparr>)
                        | (True, w) \<Rightarrow>
                            (case x_map_page x cr3 page_addr phys (prot_to_flags (vma_prot v)) w of
                               (True, w) \<Rightarrow> (True, s\<lparr>vt_world := w\<rparr>)
                             | (False, w) \<Rightarrow> (False, s\<lparr>vt_world := x_free_frame x phys w\<rparr>))))))"

definition handle_vma_fault :: "'w mem \<Rightarrow> u64 \<Rightarrow> u64 \<Rightarrow> bool \<Rightarrow> 'w vmm \<Rightarrow> bool \<times> 'w vmm" where
  "handle_vma_fault x cr3 fault_addr from_user s0 =
     (let page_addr = page_of fault_addr
      in if page_addr \<ge> USER_END then (False, s0)
         else if case x_read_pte x cr3 page_addr (vt_world s0) of Some pte \<Rightarrow> is_swap_pte pte | None \<Rightarrow> False then (False, s0)
         else case on_vma cr3 (\<lambda>m. (vma_find page_addr m, m)) s0 of
           (None, s) \<Rightarrow> (False, s)
         | (Some v, s) \<Rightarrow>
             (case vma_backing v of
                Some _ \<Rightarrow> if from_user then handle_file_fault x cr3 fault_addr s else (False, s)
              | None \<Rightarrow>
                  (case handle_anon_fault x cr3 page_addr v (vt_world s) of
                     (ok, w) \<Rightarrow> (ok, s\<lparr>vt_world := w\<rparr>))))"

text \<open>Bringing in the pages of a buffer before a call looks at them. Swapped pages come back through
  \<open>try_swapin\<close>, an operation of the world.\<close>

definition fault_in_page :: "'w mem \<Rightarrow> (u64 \<Rightarrow> u64 \<Rightarrow> u32 \<Rightarrow> u64 \<Rightarrow> 'w \<Rightarrow> 'w) \<Rightarrow> u64 \<Rightarrow> u64 \<Rightarrow> 'w vmm \<Rightarrow> 'w vmm" where
  "fault_in_page x try_swapin cr3 va s =
     (case x_read_pte x cr3 va (vt_world s) of
        Some pte \<Rightarrow>
          if pte AND 1 \<noteq> 0 then s
          else if is_swap_pte pte then s\<lparr>vt_world := try_swapin cr3 va (slot_from_pte pte) pte (vt_world s)\<rparr>
          else snd (handle_vma_fault x cr3 va True s)
      | None \<Rightarrow> snd (handle_vma_fault x cr3 va True s))"

definition fault_in_user_range :: "'w mem \<Rightarrow> (u64 \<Rightarrow> u64 \<Rightarrow> u32 \<Rightarrow> u64 \<Rightarrow> 'w \<Rightarrow> 'w) \<Rightarrow> u64 \<Rightarrow> u64 \<Rightarrow> u64 \<Rightarrow> 'w vmm \<Rightarrow> 'w vmm" where
  "fault_in_user_range x try_swapin cr3 ptr len s =
     (if len = 0 then s
      else case checked_add ptr len of
        None \<Rightarrow> s
      | Some e \<Rightarrow> fold (fault_in_page x try_swapin cr3) (pages_between (page_of ptr) (min e USER_END)) s)"

section \<open>The calls\<close>

abbreviation PTE_DIRTY :: u64 where "PTE_DIRTY \<equiv> 0x40"
abbreviation PTE_ADDR_MASK :: u64 where "PTE_ADDR_MASK \<equiv> 0x000FFFFFFFFFF000"

definition writeback_page :: "'w mem \<Rightarrow> u64 \<Rightarrow> u64 \<Rightarrow> 'w vmm \<Rightarrow> 'w vmm" where
  "writeback_page x cr3 p s0 =
     (case on_vma cr3 (\<lambda>m. (vma_find p m, m)) s0 of
        (None, s) \<Rightarrow> s
      | (Some v, s) \<Rightarrow>
          (case vma_backing v of
             None \<Rightarrow> s
           | Some b \<Rightarrow>
               if \<not> fb_shared b then s
               else case x_read_pte x cr3 p (vt_world s) of
                 None \<Rightarrow> s
               | Some pte \<Rightarrow>
                   if pte AND 1 \<noteq> 0 \<and> pte AND PTE_DIRTY \<noteq> 0
                   then let file_off = fb_file_off b + (p - vma_start v)
                        in if file_off < fb_file_size b
                           then s\<lparr>vt_world := x_write_file x (fb_vnode_id b) file_off (pte AND PTE_ADDR_MASK)
                                  (unat (min (fb_file_size b - file_off) VM_PAGE)) (vt_world s)\<rparr>
                           else s
                   else s))"

definition writeback_file_range :: "'w mem \<Rightarrow> u64 \<Rightarrow> u64 \<Rightarrow> u64 \<Rightarrow> 'w vmm \<Rightarrow> 'w vmm" where
  "writeback_file_range x cr3 s e = fold (writeback_page x cr3) (pages_between (page_of s) e)"

definition unmap_step :: "'w mem \<Rightarrow> u64 \<Rightarrow> u64 \<Rightarrow> nat \<Rightarrow> 'w vmm \<Rightarrow> 'w vmm" where
  "unmap_step x cr3 base pages s = s\<lparr>vt_world := unmap_pages x cr3 base pages (vt_world s)\<rparr>"

definition writeback_and_unmap :: "'w mem \<Rightarrow> u64 \<Rightarrow> u64 \<Rightarrow> u64 \<Rightarrow> 'w vmm \<Rightarrow> 'w vmm" where
  "writeback_and_unmap x cr3 s e st =
     unmap_step x cr3 s (unat ((e - s) div VM_PAGE)) (writeback_file_range x cr3 s e st)"

definition vma_do :: "u64 \<Rightarrow> (vma_map \<Rightarrow> vma_map) \<Rightarrow> 'w vmm \<Rightarrow> 'w vmm" where
  "vma_do cr3 f s = snd (on_vma cr3 (\<lambda>m. ((), f m)) s)"

definition sys_mmap :: "'w mem \<Rightarrow> u64 \<Rightarrow> u64 \<Rightarrow> u64 \<Rightarrow> u32 \<Rightarrow> u32 \<Rightarrow> 'w vmm \<Rightarrow> u64 \<times> 'w vmm" where
  "sys_mmap x cr3 addr len prot flags s0 =
     (if len = 0 then (- 22, s0)
      else if prot_rejects_wx prot \<or> prot AND NOT PROT_VALID_MASK \<noteq> 0 then (- 22, s0)
      else case checked_align_up len of
        None \<Rightarrow> (- 22, s0)
      | Some sz \<Rightarrow>
          let pages = unat (sz div VM_PAGE);
              fixed = (flags AND MAP_FIXED \<noteq> 0);
              r = (if fixed then
                     if addr = 0 \<or> addr AND 0xFFF \<noteq> 0 then (Inl (- 22), s0)
                     else if user_end_for addr sz = None then (Inl (- 22), s0)
                     else (Inr addr, vma_do cr3 (remove_range addr (addr + sz)) (unmap_step x cr3 addr pages s0))
                   else case on_vma cr3 (find_and_insert sz prot) s0 of
                     (Some a, s) \<Rightarrow> (Inr a, s)
                   | (None, s) \<Rightarrow> (Inl (- 12), s))
          in case r of
               (Inl e, s) \<Rightarrow> (e, s)
             | (Inr base, s) \<Rightarrow>
                 (case map_fresh_pages x cr3 base pages (prot_to_flags prot) (vt_world s) of
                    (False, w) \<Rightarrow>
                      let s1 = unmap_step x cr3 base pages (s\<lparr>vt_world := w\<rparr>)
                      in (- 12, if \<not> fixed then vma_do cr3 (remove_range base (saturating_add base sz)) s1 else s1)
                  | (True, w) \<Rightarrow>
                      let s1 = s\<lparr>vt_world := w\<rparr>
                      in (base, if fixed
                                then vma_do cr3 (insert_merged \<lparr>vma_start = base, vma_end = saturating_add base sz,
                                       vma_prot = prot, vma_backing = None\<rparr>) s1
                                else s1)))"

definition sys_mmap_file :: "'w mem \<Rightarrow> u64 \<Rightarrow> u64 \<Rightarrow> u64 \<Rightarrow> u32 \<Rightarrow> u32 \<Rightarrow> u32 \<Rightarrow> u64 \<Rightarrow> u64 \<Rightarrow> bool \<Rightarrow> 'w vmm \<Rightarrow> u64 \<times> 'w vmm" where
  "sys_mmap_file x cr3 addr len prot flags vnode_id file_off file_size shared s0 =
     (if len = 0 then (- 22, s0)
      else if prot_rejects_wx prot \<or> prot AND NOT PROT_VALID_MASK \<noteq> 0 then (- 22, s0)
      else if file_off AND 0xFFF \<noteq> 0 then (- 22, s0)
      else case checked_align_up len of
        None \<Rightarrow> (- 22, s0)
      | Some sz \<Rightarrow>
          let backing = \<lparr>fb_vnode_id = vnode_id, fb_file_off = file_off, fb_file_size = file_size, fb_shared = shared\<rparr>
          in if flags AND MAP_FIXED \<noteq> 0 then
               if addr = 0 \<or> addr AND 0xFFF \<noteq> 0 then (- 22, s0)
               else if user_end_for addr sz = None then (- 22, s0)
               else (addr, vma_do cr3 (\<lambda>m. insert_merged \<lparr>vma_start = addr, vma_end = addr + sz, vma_prot = prot,
                                             vma_backing = Some backing\<rparr> (remove_range addr (addr + sz) m))
                             (writeback_and_unmap x cr3 addr (addr + sz) s0))
             else case on_vma cr3 (find_and_insert_file sz prot (Some backing)) s0 of
               (Some a, s) \<Rightarrow> (a, s)
             | (None, s) \<Rightarrow> (- 12, s))"

text \<open>The checks that \<open>munmap\<close>, \<open>msync\<close> and \<open>mprotect\<close> share: the end of the range, if it is a
  range of user pages.\<close>

definition user_pages :: "u64 \<Rightarrow> u64 \<Rightarrow> (u64 \<times> u64) option" where
  "user_pages addr len =
     (case checked_align_up len of
        None \<Rightarrow> None
      | Some sz \<Rightarrow> map_option (\<lambda>e. (sz, e)) (user_end_for addr sz))"

definition sys_msync :: "'w mem \<Rightarrow> u64 \<Rightarrow> u64 \<Rightarrow> u64 \<Rightarrow> 'w vmm \<Rightarrow> u64 \<times> 'w vmm" where
  "sys_msync x cr3 addr len s =
     (if addr AND 0xFFF \<noteq> 0 then (- 22, s)
      else if len = 0 then (0, s)
      else case user_pages addr len of
        None \<Rightarrow> (- 22, s)
      | Some (_, e) \<Rightarrow> (0, writeback_file_range x cr3 addr e s))"

definition sys_munmap :: "'w mem \<Rightarrow> u64 \<Rightarrow> u64 \<Rightarrow> u64 \<Rightarrow> 'w vmm \<Rightarrow> u64 \<times> 'w vmm" where
  "sys_munmap x cr3 addr len s =
     (if addr AND 0xFFF \<noteq> 0 then (- 22, s)
      else if len = 0 then (0, s)
      else case user_pages addr len of
        None \<Rightarrow> (- 22, s)
      | Some (sz, e) \<Rightarrow>
          (0, vma_do cr3 (remove_range addr e)
                (unmap_step x cr3 addr (unat (sz div VM_PAGE)) (writeback_file_range x cr3 addr e s))))"

definition reprotect_page :: "'w mem \<Rightarrow> u64 \<Rightarrow> u64 \<Rightarrow> u64 \<Rightarrow> 'w \<Rightarrow> 'w" where
  "reprotect_page x cr3 flags p w =
     (case x_virt_to_phys x cr3 p w of
        Some phys \<Rightarrow> snd (x_map_page x cr3 p phys flags (x_unmap_page_no_free x cr3 p w))
      | None \<Rightarrow> w)"

definition sys_mprotect :: "'w mem \<Rightarrow> u64 \<Rightarrow> u64 \<Rightarrow> u64 \<Rightarrow> u32 \<Rightarrow> 'w vmm \<Rightarrow> u64 \<times> 'w vmm" where
  "sys_mprotect x cr3 addr len prot s =
     (if addr AND 0xFFF \<noteq> 0 then (- 22, s)
      else if len = 0 then (0, s)
      else if prot_rejects_wx prot \<or> prot AND NOT PROT_VALID_MASK \<noteq> 0 then (- 22, s)
      else case user_pages addr len of
        None \<Rightarrow> (- 22, s)
      | Some (_, e) \<Rightarrow>
          (0, vma_do cr3 (\<lambda>m. insert_merged \<lparr>vma_start = addr, vma_end = e, vma_prot = prot, vma_backing = None\<rparr>
                                 (remove_range addr e m))
                (s\<lparr>vt_world := fold (reprotect_page x cr3 (prot_to_flags prot)) (pages_between addr e) (vt_world s)\<rparr>)))"

definition sys_brk :: "'w mem \<Rightarrow> u64 \<Rightarrow> u64 \<Rightarrow> 'w vmm \<Rightarrow> u64 \<times> 'w vmm" where
  "sys_brk x cr3 new_brk s0 =
     (case on_vma cr3 (\<lambda>m. ((vm_brk m, vm_brk_floor m), m)) s0 of
        ((cur, floor), s) \<Rightarrow>
          if new_brk = 0 then (cur, s)
          else case checked_align_up new_brk of
            None \<Rightarrow> (cur, s)
          | Some n \<Rightarrow>
              if \<not> n < USER_END then (cur, s)
              else if n < floor then (cur, s)
              else if n \<le> cur then
                (n, vma_do cr3 (\<lambda>m. (remove_range n cur m)\<lparr>vm_brk := n\<rparr>)
                      (unmap_step x cr3 n (unat ((cur - n) div VM_PAGE)) s))
              else case map_fresh_pages x cr3 cur (unat ((n - cur) div VM_PAGE)) (1 OR 2 OR 4 OR push_bit 63 1) (vt_world s) of
                (True, w) \<Rightarrow>
                  (n, vma_do cr3 (\<lambda>m. (insert_merged \<lparr>vma_start = cur, vma_end = n, vma_prot = PROT_READ OR PROT_WRITE,
                                         vma_backing = None\<rparr> m)\<lparr>vm_brk := n\<rparr>) (s\<lparr>vt_world := w\<rparr>))
              | (False, w) \<Rightarrow> (cur, s\<lparr>vt_world := w\<rparr>))"

section \<open>What is mapped at an address\<close>

text \<open>A well-formed table: every range is stored under its start, is not empty, and no two
  ranges overlap.\<close>

definition apart :: "vma \<Rightarrow> vma \<Rightarrow> bool" where
  "apart u v = (vma_end u \<le> vma_start v \<or> vma_end v \<le> vma_start u)"

definition vmas_ok :: "(u64 \<times> vma) list \<Rightarrow> bool" where
  "vmas_ok vs = (bt_ok vs \<and> (\<forall>p\<in>set vs. fst p = vma_start (snd p) \<and> vma_start (snd p) < vma_end (snd p))
     \<and> (\<forall>p\<in>set vs. \<forall>q\<in>set vs. p \<noteq> q \<longrightarrow> apart (snd p) (snd q)))"

definition covers :: "vma \<Rightarrow> u64 \<Rightarrow> bool" where
  "covers v a = (vma_start v \<le> a \<and> a < vma_end v)"

text \<open>The protection of an address and the place in a file it shows.\<close>

definition page_info :: "vma \<Rightarrow> u64 \<Rightarrow> u32 \<times> (u32 \<times> u64 \<times> u64 \<times> bool) option" where
  "page_info v a = (vma_prot v, map_option (\<lambda>b. (fb_vnode_id b, fb_file_off b + (a - vma_start v), fb_file_size b, fb_shared b)) (vma_backing v))"

definition mapping :: "vma_map \<Rightarrow> u64 \<Rightarrow> (u32 \<times> (u32 \<times> u64 \<times> u64 \<times> bool) option) option" where
  "mapping m a = map_option (\<lambda>v. page_info v a) (vma_find a m)"

definition sees :: "(u64 \<times> vma) set \<Rightarrow> u64 \<Rightarrow> u32 \<times> (u32 \<times> u64 \<times> u64 \<times> bool) option \<Rightarrow> bool" where
  "sees V a i = (\<exists>p\<in>V. covers (snd p) a \<and> page_info (snd p) a = i)"

lemma apart_covers: "apart u v \<Longrightarrow> covers u a \<Longrightarrow> \<not> covers v a"
  by (auto simp: apart_def covers_def)

lemma vmas_okD:
  assumes "vmas_ok vs"
  shows "bt_ok vs" and "p \<in> set vs \<Longrightarrow> fst p = vma_start (snd p)" and "p \<in> set vs \<Longrightarrow> vma_start (snd p) < vma_end (snd p)"
    and "p \<in> set vs \<Longrightarrow> q \<in> set vs \<Longrightarrow> p \<noteq> q \<Longrightarrow> apart (snd p) (snd q)"
  using assms by (auto simp: vmas_ok_def)

lemma vma_find_iff:
  assumes "vmas_ok (vm_vmas m)"
  shows "vma_find a m = Some v \<longleftrightarrow> (vma_start v, v) \<in> set (vm_vmas m) \<and> covers v a"
proof
  assume "vma_find a m = Some v"
  then obtain k where "bt_last (\<lambda>k. k \<le> a) (vm_vmas m) = Some (k, v)" "vma_end v > a"
    by (auto simp: vma_find_def split: option.splits if_splits)
  then show "(vma_start v, v) \<in> set (vm_vmas m) \<and> covers v a"
    using bt_last_SomeD [OF vmas_okD(1) [OF assms]] vmas_okD(2) [OF assms, of "(k, v)"] by (fastforce simp: covers_def)
next
  assume v: "(vma_start v, v) \<in> set (vm_vmas m) \<and> covers v a"
  then have "bt_last (\<lambda>k. k \<le> a) (vm_vmas m) \<noteq> None"
    unfolding bt_last_None covers_def by (metis fst_conv)
  then obtain q where q: "bt_last (\<lambda>k. k \<le> a) (vm_vmas m) = Some q" by blast
  note last = bt_last_SomeD [OF vmas_okD(1) [OF assms] q]
  have "q = (vma_start v, v)"
  proof (rule ccontr)
    assume "q \<noteq> (vma_start v, v)"
    then have "apart v (snd q)" using vmas_okD(4) [OF assms, of "(vma_start v, v)" q] v last by auto
    moreover have "vma_start v \<le> vma_start (snd q)" "vma_start (snd q) \<le> a"
      using last v vmas_okD(2) [OF assms, of q] by (auto simp: covers_def)
    moreover have "vma_start (snd q) < vma_end (snd q)" using vmas_okD(3) [OF assms] last by blast
    ultimately show False using v by (auto simp: apart_def covers_def)
  qed
  with q v show "vma_find a m = Some v" by (simp add: vma_find_def covers_def)
qed

lemma mapping_sees:
  assumes "vmas_ok (vm_vmas m)"
  shows "mapping m a = Some i \<longleftrightarrow> sees (set (vm_vmas m)) a i"
proof
  assume "mapping m a = Some i"
  then obtain v where "vma_find a m = Some v" "page_info v a = i" by (auto simp: mapping_def)
  then show "sees (set (vm_vmas m)) a i" by (force simp: vma_find_iff [OF assms] sees_def)
next
  assume "sees (set (vm_vmas m)) a i"
  then obtain p where p: "p \<in> set (vm_vmas m)" "covers (snd p) a" "page_info (snd p) a = i" by (auto simp: sees_def)
  then have "vma_find a m = Some (snd p)"
    using vmas_okD(2) [OF assms p(1)] by (auto simp: vma_find_iff [OF assms]) (metis prod.collapse)
  with p show "mapping m a = Some i" by (simp add: mapping_def)
qed

lemma opt_eqI: "(\<And>i. x = Some i \<longleftrightarrow> y = Some i) \<Longrightarrow> x = y"
  by (metis not_None_eq)

lemma mapping_eqI:
  assumes "vmas_ok (vm_vmas m)" and "vmas_ok (vm_vmas m')" and "\<And>i. sees (set (vm_vmas m')) a i = (P \<and> sees (set (vm_vmas m)) a i)"
  shows "mapping m' a = (if P then mapping m a else None)"
  using assms(3) unfolding mapping_sees [OF assms(1), symmetric] mapping_sees [OF assms(2), symmetric]
  by (metis not_None_eq)

section \<open>Removing a range\<close>

definition frags :: "u64 \<Rightarrow> u64 \<Rightarrow> vma \<Rightarrow> (u64 \<times> vma) set" where
  "frags s e v = (if vma_start v < s then {(vma_start v, v\<lparr>vma_end := s\<rparr>)} else {})
     \<union> (if vma_end v > e then {(e, v\<lparr>vma_start := e, vma_backing :=
          map_option (\<lambda>b. b\<lparr>fb_file_off := fb_file_off b + (e - vma_start v)\<rparr>) (vma_backing v)\<rparr>)} else {})"

lemma frags_sub:
  assumes "p \<in> frags s e v" and "s \<le> e" and "vma_start v < e" and "s < vma_end v"
  shows "fst p = vma_start (snd p)" "vma_start v \<le> vma_start (snd p)" "vma_start (snd p) < vma_end (snd p)"
    "vma_end (snd p) \<le> vma_end v"
  using assms by (auto simp: frags_def split: if_splits)

lemma frags_apart:
  assumes "p \<in> frags s e v" and "q \<in> frags s e v" and "p \<noteq> q" and "s \<le> e"
  shows "apart (snd p) (snd q)"
  using assms by (auto simp: frags_def apart_def split: if_splits)

lemma sees_frags:
  assumes "s \<le> e" and "covers v a" and "vma_start v < e" and "s < vma_end v"
  shows "sees (frags s e v) a i \<longleftrightarrow> \<not> (s \<le> a \<and> a < e) \<and> page_info v a = i"
  using assms by (auto simp: sees_def frags_def covers_def page_info_def map_option.compositionality comp_def split: if_splits)

lemma frags_no_more: "s \<le> e \<Longrightarrow> vma_start v < e \<Longrightarrow> s < vma_end v \<Longrightarrow> \<not> covers v a \<Longrightarrow> \<not> sees (frags s e v) a i"
  by (auto simp: sees_def frags_def covers_def split: if_splits)

lemma bt_ok_cut_at: "bt_ok vs \<Longrightarrow> bt_ok (cut_at s e k vs)"
  by (auto simp: cut_at_def Let_def bt_ok_insert bt_ok_remove split: option.split)

lemma set_cut_at:
  assumes "vmas_ok vs" and "(k, v) \<in> set vs" and "k < e" and "s < vma_end v" and "s \<le> e"
  shows "set (cut_at s e k vs) = {p \<in> set vs. fst p \<noteq> k} \<union> frags s e v"
proof -
  have k: "k = vma_start v" "vma_start v < vma_end v" using vmas_okD(2,3) [OF assms(1,2)] by simp_all
  have get: "map_of vs k = Some v" using map_of_bt [OF vmas_okD(1) [OF assms(1)]] assms(2) by simp
  note ok = vmas_okD(1) [OF assms(1)]
  note ok1 = bt_ok_remove [OF ok, of k]
  let ?l = "v\<lparr>vma_end := s\<rparr>"
  have one: "set (bt_insert k ?l (bt_remove k vs)) = insert (k, ?l) {p \<in> set vs. fst p \<noteq> k}"
    by (auto simp: set_bt_insert [OF ok1])
  have noe: "fst p \<noteq> e" if "vma_end v > e" "p \<in> set vs" for p
  proof
    assume e: "fst p = e"
    then have "p \<noteq> (k, v)" using assms(3) by auto
    then have "apart (snd p) v" using vmas_okD(4) [OF assms(1) that(2) assms(2)] by simp
    then show False using that(1) e k assms(3) vmas_okD(2,3) [OF assms(1) that(2)] by (auto simp: apart_def)
  qed
  let ?vs2 = "if vma_start v < s then bt_insert (vma_start v) ?l (bt_remove k vs) else bt_remove k vs"
  have ok2: "bt_ok ?vs2" using ok1 bt_ok_insert by auto
  have s2: "set ?vs2 = {p \<in> set vs. fst p \<noteq> k} \<union> (if vma_start v < s then {(vma_start v, ?l)} else {})"
    using one k(1) by auto
  show ?thesis
  proof (cases "vma_end v > e")
    case True
    have "fst p \<noteq> e" if "p \<in> set ?vs2" for p
      using that noe [OF True, of p] k(1) assms(3) unfolding s2 by (auto split: if_splits)
    then have "{p \<in> set ?vs2. fst p \<noteq> e} = set ?vs2" by blast
    with True show ?thesis unfolding cut_at_def get Let_def option.case
      by (simp only: if_True set_bt_insert [OF ok2] s2 frags_def) auto
  next
    case False
    then show ?thesis unfolding cut_at_def get Let_def option.case by (simp only: if_False s2 frags_def) auto
  qed
qed

lemma vmas_ok_cut_at:
  assumes "vmas_ok vs" and "(k, v) \<in> set vs" and "k < e" and "s < vma_end v" and "s \<le> e"
  shows "vmas_ok (cut_at s e k vs)"
proof -
  have k: "k = vma_start v" using vmas_okD(2) [OF assms(1,2)] by simp
  note set = set_cut_at [OF assms]
  note sub = frags_sub [where s = s and e = e and v = v, OF _ assms(5) assms(3) [unfolded k] assms(4)]
  have cross: "apart (snd p) (snd q) \<and> apart (snd q) (snd p)" if "p \<in> set vs" "fst p \<noteq> k" "q \<in> frags s e v" for p q
  proof -
    have "p \<noteq> (k, v)" using that(2) by auto
    then have "apart (snd p) v" using vmas_okD(4) [OF assms(1) that(1) assms(2)] by simp
    with sub [OF that(3)] show ?thesis by (auto simp: apart_def)
  qed
  show ?thesis unfolding vmas_ok_def set
  proof (intro conjI ballI impI)
    show "bt_ok (cut_at s e k vs)" by (rule bt_ok_cut_at [OF vmas_okD(1) [OF assms(1)]])
  next
    fix p q
    assume "p \<in> {p \<in> set vs. fst p \<noteq> k} \<union> frags s e v" "q \<in> {p \<in> set vs. fst p \<noteq> k} \<union> frags s e v" "p \<noteq> q"
    then show "apart (snd p) (snd q)"
      using cross [of p q] cross [of q p] vmas_okD(4) [OF assms(1), of p q] frags_apart [of p s e v q, OF _ _ _ assms(5)] by blast
  qed (use sub vmas_okD(2,3) [OF assms(1)] in auto)
qed

lemma fold_cut_at:
  assumes "vmas_ok vs" and "distinct ks" and "\<forall>k\<in>set ks. \<exists>v. (k, v) \<in> set vs \<and> k < e \<and> s < vma_end v" and "s \<le> e"
  shows "vmas_ok (fold (cut_at s e) ks vs)
    \<and> set (fold (cut_at s e) ks vs) = {p \<in> set vs. fst p \<notin> set ks} \<union> (\<Union>p\<in>{p \<in> set vs. fst p \<in> set ks}. frags s e (snd p))"
  using assms(1-3)
proof (induction ks arbitrary: vs)
  case (Cons k ks)
  obtain v where v: "(k, v) \<in> set vs" "k < e" "s < vma_end v" using Cons.prems(3) by auto
  note set = set_cut_at [OF Cons.prems(1) v assms(4)]
  note ok = vmas_ok_cut_at [OF Cons.prems(1) v assms(4)]
  have k: "k = vma_start v" using vmas_okD(2) [OF Cons.prems(1) v(1)] by simp
  have keys: "fst p = k \<or> fst p = e" if "p \<in> frags s e v" for p using that k by (auto simp: frags_def split: if_splits)
  have notin: "fst p \<notin> set ks" if "p \<in> frags s e v" for p
    using keys [OF that] Cons.prems(2,3) by auto
  have rest: "\<forall>k'\<in>set ks. \<exists>v. (k', v) \<in> set (cut_at s e k vs) \<and> k' < e \<and> s < vma_end v"
    unfolding set using Cons.prems(2,3) by fastforce
  have only: "p = (k, v)" if "p \<in> set vs" "fst p = k" for p
    using bt_key_unique [OF vmas_okD(1) [OF Cons.prems(1)], of k "snd p" v] that v(1) by (cases p) auto
  have split: "{p \<in> set vs. fst p \<in> set (k # ks)} = insert (k, v) {p \<in> set vs. fst p \<in> set ks}"
  proof (rule set_eqI)
    fix p
    show "p \<in> {p \<in> set vs. fst p \<in> set (k # ks)} \<longleftrightarrow> p \<in> insert (k, v) {p \<in> set vs. fst p \<in> set ks}"
      using only [of p] v(1) by (cases "p = (k, v)") auto
  qed
  note IH = Cons.IH [OF ok _ rest]
  have A: "{p \<in> set (cut_at s e k vs). fst p \<notin> set ks} = {p \<in> set vs. fst p \<notin> set (k # ks)} \<union> frags s e v"
    unfolding set using notin by auto
  have B: "{p \<in> set (cut_at s e k vs). fst p \<in> set ks} = {p \<in> set vs. fst p \<in> set ks}"
    unfolding set using notin Cons.prems(2) by auto
  show ?case using IH Cons.prems(2) unfolding A B split by auto
qed simp_all

lemma remove_range_set:
  assumes "vmas_ok (vm_vmas m)" and "s \<le> e"
  shows "vmas_ok (vm_vmas (remove_range s e m))"
    and "set (vm_vmas (remove_range s e m)) = {p \<in> set (vm_vmas m). \<not> (fst p < e \<and> s < vma_end (snd p))}
      \<union> (\<Union>p\<in>{p \<in> set (vm_vmas m). fst p < e \<and> s < vma_end (snd p)}. frags s e (snd p))"
proof -
  let ?vs = "vm_vmas m"
  define ks where "ks = map fst (filter (\<lambda>(k, v). k < e \<and> vma_end v > s) ?vs)"
  have d: "distinct ks" using vmas_okD(1) [OF assms(1)]
    by (simp add: ks_def bt_ok_def strict_sorted_iff distinct_map_filter)
  have mem: "fst p \<in> set ks \<longleftrightarrow> fst p < e \<and> s < vma_end (snd p)" if "p \<in> set ?vs" for p
  proof
    assume "fst p \<in> set ks"
    then obtain v where v: "(fst p, v) \<in> set ?vs" "fst p < e" "s < vma_end v" by (auto simp: ks_def)
    then have "v = snd p" using bt_key_unique [OF vmas_okD(1) [OF assms(1)], of "fst p" v "snd p"] that by simp
    with v show "fst p < e \<and> s < vma_end (snd p)" by simp
  qed (use that in \<open>auto simp: ks_def intro!: image_eqI [of _ _ p]\<close>)
  have hit: "\<forall>k\<in>set ks. \<exists>v. (k, v) \<in> set ?vs \<and> k < e \<and> s < vma_end v" by (auto simp: ks_def)
  have eq: "vm_vmas (remove_range s e m) = fold (cut_at s e) ks ?vs" by (simp add: remove_range_def ks_def)
  show "vmas_ok (vm_vmas (remove_range s e m))" unfolding eq by (rule fold_cut_at [OF assms(1) d hit assms(2), THEN conjunct1])
  have "{p \<in> set ?vs. fst p \<notin> set ks} = {p \<in> set ?vs. \<not> (fst p < e \<and> s < vma_end (snd p))}"
    "{p \<in> set ?vs. fst p \<in> set ks} = {p \<in> set ?vs. fst p < e \<and> s < vma_end (snd p)}"
    using mem by auto
  then show "set (vm_vmas (remove_range s e m)) = {p \<in> set ?vs. \<not> (fst p < e \<and> s < vma_end (snd p))}
      \<union> (\<Union>p\<in>{p \<in> set ?vs. fst p < e \<and> s < vma_end (snd p)}. frags s e (snd p))"
    unfolding eq fold_cut_at [OF assms(1) d hit assms(2), THEN conjunct2] by simp
qed

lemma mapping_remove_range:
  assumes "vmas_ok (vm_vmas m)" and "s \<le> e"
  shows "mapping (remove_range s e m) a = (if s \<le> a \<and> a < e then None else mapping m a)"
proof -
  let ?vs = "vm_vmas m"
  have st: "fst p = vma_start (snd p)" if "p \<in> set ?vs" for p using vmas_okD(2) [OF assms(1) that] .
  have "sees (set (vm_vmas (remove_range s e m))) a i = (\<not> (s \<le> a \<and> a < e) \<and> sees (set ?vs) a i)" for i
  proof -
    have "sees (set (vm_vmas (remove_range s e m))) a i \<longleftrightarrow>
        (\<exists>p\<in>set ?vs. if fst p < e \<and> s < vma_end (snd p) then sees (frags s e (snd p)) a i
          else covers (snd p) a \<and> page_info (snd p) a = i)"
      unfolding remove_range_set(2) [OF assms] by (auto simp: sees_def)
    also have "\<dots> \<longleftrightarrow> (\<exists>p\<in>set ?vs. \<not> (s \<le> a \<and> a < e) \<and> covers (snd p) a \<and> page_info (snd p) a = i)"
    proof (rule bex_cong [OF refl])
      fix p
      assume p: "p \<in> set ?vs"
      show "(if fst p < e \<and> s < vma_end (snd p) then sees (frags s e (snd p)) a i else covers (snd p) a \<and> page_info (snd p) a = i)
        = (\<not> (s \<le> a \<and> a < e) \<and> covers (snd p) a \<and> page_info (snd p) a = i)"
        using sees_frags [OF assms(2), of "snd p" a i] frags_no_more [OF assms(2), of "snd p" a i] st [OF p]
        by (auto simp: covers_def)
    qed
    finally show ?thesis by (auto simp: sees_def)
  qed
  from mapping_eqI [OF assms(1) remove_range_set(1) [OF assms] this] show ?thesis by simp
qed

section \<open>Adding a range\<close>

text \<open>A range that can be added: it is not empty and overlaps no other.\<close>

definition fits :: "vma \<Rightarrow> (u64 \<times> vma) list \<Rightarrow> bool" where
  "fits v vs = (vma_start v < vma_end v \<and> (\<forall>p\<in>set vs. apart v (snd p)))"

lemma bt_insert_fits:
  assumes "vmas_ok vs" and "fits v vs"
  shows "vmas_ok (bt_insert (vma_start v) v vs)" and "set (bt_insert (vma_start v) v vs) = insert (vma_start v, v) (set vs)"
proof -
  have "fst p \<noteq> vma_start v" if "p \<in> set vs" for p
    using assms(2) that vmas_okD(2,3) [OF assms(1) that] by (fastforce simp: fits_def apart_def)
  then show set: "set (bt_insert (vma_start v) v vs) = insert (vma_start v, v) (set vs)"
    unfolding set_bt_insert [OF vmas_okD(1) [OF assms(1)]] by blast
  have sym: "apart u v" if "apart v u" for u using that by (auto simp: apart_def)
  show "vmas_ok (bt_insert (vma_start v) v vs)"
    unfolding vmas_ok_def set
  proof (intro conjI ballI impI)
    fix p q
    assume "p \<in> insert (vma_start v, v) (set vs)" "q \<in> insert (vma_start v, v) (set vs)" "p \<noteq> q"
    then consider "p = (vma_start v, v)" "q \<in> set vs" | "q = (vma_start v, v)" "p \<in> set vs" | "p \<in> set vs" "q \<in> set vs" by blast
    then show "apart (snd p) (snd q)"
      using assms(2) sym vmas_okD(4) [OF assms(1) _ _ \<open>p \<noteq> q\<close>] by cases (auto simp: fits_def)
  qed (use assms vmas_okD(2,3) [OF assms(1)] bt_ok_insert [OF vmas_okD(1) [OF assms(1)]] in \<open>auto simp: fits_def\<close>)
qed

lemma absorb_prev_ok:
  assumes "vmas_ok vs" and "fits v vs" and "vma_backing v = None" and "absorb_prev v vs = (v', vs')"
  shows "vmas_ok vs'" "fits v' vs'" "vma_backing v' = None"
    and "sees (insert (vma_start v', v') (set vs')) a i = sees (insert (vma_start v, v) (set vs)) a i"
proof -
  note ok = vmas_okD [OF assms(1)]
  have "vmas_ok vs' \<and> fits v' vs' \<and> vma_backing v' = None
    \<and> sees (insert (vma_start v', v') (set vs')) a i = sees (insert (vma_start v, v) (set vs)) a i"
  proof (cases "(v', vs') = (v, vs)")
    case False
    then obtain u where u: "bt_last (\<lambda>k. k < vma_start v) vs = Some (vma_start u, u)" "vma_end u = vma_start v"
      "vma_prot u = vma_prot v" "vma_backing u = None" "v' = v\<lparr>vma_start := vma_start u\<rparr>" "vs' = bt_remove (vma_start u) vs"
      using assms(4) ok(2) bt_last_SomeD [OF ok(1)] by (fastforce simp: absorb_prev_def split: option.splits if_splits)
    have mem: "(vma_start u, u) \<in> set vs" using bt_last_SomeD [OF ok(1) u(1)] by simp
    have set: "set vs = insert (vma_start u, u) (set vs')" using set_bt_remove_insert [OF ok(1) mem] u(6) by simp
    have lt: "vma_start u < vma_end u" using ok(3) [OF mem] by simp
    have "vmas_ok vs'" using assms(1) bt_ok_remove [OF ok(1)] by (auto simp: vmas_ok_def u(6))
    moreover have "apart v' (snd p)" if "p \<in> set vs'" for p
    proof -
      have p: "p \<in> set vs" "p \<noteq> (vma_start u, u)" using that by (auto simp: u(6))
      have "apart u (snd p)" "apart v (snd p)" "vma_start (snd p) < vma_end (snd p)"
        using ok(4) [OF mem p(1)] p(2) assms(2) p(1) ok(3) [OF p(1)] by (auto simp: fits_def)
      then show ?thesis using u(2) lt by (auto simp: apart_def u(5))
    qed
    moreover have "sees (insert (vma_start v', v') (set vs')) a i = sees (insert (vma_start v, v) (set vs)) a i"
      using lt assms(2,3) u(2-4) unfolding set by (auto simp: sees_def covers_def page_info_def u(5) fits_def)
    ultimately show ?thesis using assms(2,3) lt u(2) by (auto simp: fits_def u(5))
  qed (use assms in auto)
  then show "vmas_ok vs'" "fits v' vs'" "vma_backing v' = None"
    "sees (insert (vma_start v', v') (set vs')) a i = sees (insert (vma_start v, v) (set vs)) a i" by blast+
qed

lemma absorb_next_ok:
  assumes "vmas_ok vs" and "fits v vs" and "vma_backing v = None" and "absorb_next v vs = (v', vs')"
  shows "vmas_ok vs'" "fits v' vs'"
    and "sees (insert (vma_start v', v') (set vs')) a i = sees (insert (vma_start v, v) (set vs)) a i"
proof -
  note ok = vmas_okD [OF assms(1)]
  have "vmas_ok vs' \<and> fits v' vs'
    \<and> sees (insert (vma_start v', v') (set vs')) a i = sees (insert (vma_start v, v) (set vs)) a i"
  proof (cases "(v', vs') = (v, vs)")
    case False
    then obtain u where get: "map_of vs (vma_end v) = Some u" using assms(4) by (cases "map_of vs (vma_end v)") (simp_all add: absorb_next_def)
    have u: "map_of vs (vma_end v) = Some u"
      "vma_prot u = vma_prot v" "vma_backing u = None" "v' = v\<lparr>vma_end := vma_end u\<rparr>" "vs' = bt_remove (vma_start u) vs"
      using assms(4) False get unfolding absorb_next_def get option.case by (auto split: if_splits)
    have mem0: "(vma_end v, u) \<in> set vs" using map_of_bt [OF ok(1)] u(1) by simp
    then have st: "vma_start u = vma_end v" using ok(2) [OF mem0] by simp
    then have mem: "(vma_start u, u) \<in> set vs" using mem0 by simp
    have set: "set vs = insert (vma_start u, u) (set vs')" using set_bt_remove_insert [OF ok(1) mem] u(5) by simp
    have lt: "vma_start u < vma_end u" using ok(3) [OF mem] by simp
    have "vmas_ok vs'" using assms(1) bt_ok_remove [OF ok(1)] by (auto simp: vmas_ok_def u(5))
    moreover have "apart v' (snd p)" if "p \<in> set vs'" for p
    proof -
      have p: "p \<in> set vs" "p \<noteq> (vma_start u, u)" using that by (auto simp: u(5))
      have "apart u (snd p)" "apart v (snd p)" "vma_start (snd p) < vma_end (snd p)"
        using ok(4) [OF mem p(1)] p(2) assms(2) p(1) ok(3) [OF p(1)] by (auto simp: fits_def)
      then show ?thesis using st lt by (auto simp: apart_def u(4))
    qed
    moreover have "sees (insert (vma_start v', v') (set vs')) a i = sees (insert (vma_start v, v) (set vs)) a i"
      using lt assms(2,3) st u(2,3) unfolding set by (auto simp: sees_def covers_def page_info_def u(4) fits_def)
    ultimately show ?thesis using assms(2,3) lt st by (auto simp: fits_def u(4))
  qed (use assms in auto)
  then show "vmas_ok vs'" "fits v' vs'"
    "sees (insert (vma_start v', v') (set vs')) a i = sees (insert (vma_start v, v) (set vs)) a i" by blast+
qed

lemma sees_insert: "sees (insert (k, v) V) a i \<longleftrightarrow> covers v a \<and> page_info v a = i \<or> sees V a i"
  by (simp add: sees_def)

lemma insert_merged_ok:
  assumes "vmas_ok (vm_vmas m)" and "fits v (vm_vmas m)"
  shows "vmas_ok (vm_vmas (insert_merged v m))"
    and "mapping (insert_merged v m) a = (if covers v a then Some (page_info v a) else mapping m a)"
proof -
  obtain v' vs' where r: "(if vma_backing v = None then (case absorb_prev v (vm_vmas m) of (v1, vs1) \<Rightarrow> absorb_next v1 vs1)
      else (v, vm_vmas m)) = (v', vs')" by (cases "if vma_backing v = None then (case absorb_prev v (vm_vmas m) of (v1, vs1) \<Rightarrow> absorb_next v1 vs1)
      else (v, vm_vmas m)")
  have ok: "vmas_ok vs' \<and> fits v' vs' \<and> (\<forall>i. sees (insert (vma_start v', v') (set vs')) a i = sees (insert (vma_start v, v) (set (vm_vmas m))) a i)"
  proof (cases "vma_backing v = None")
    case True
    obtain v1 vs1 where 1: "absorb_prev v (vm_vmas m) = (v1, vs1)" by (cases "absorb_prev v (vm_vmas m)")
    with r True have 2: "absorb_next v1 vs1 = (v', vs')" by simp
    note p = absorb_prev_ok [OF assms True 1]
    show ?thesis using absorb_next_ok [OF p(1-3) 2] p(4) by simp
  qed (use r assms in auto)
  have eq: "vm_vmas (insert_merged v m) = bt_insert (vma_start v') v' vs'" by (simp add: insert_merged_def r)
  note ins = bt_insert_fits [OF ok [THEN conjunct1] ok [THEN conjunct2, THEN conjunct1]]
  show new: "vmas_ok (vm_vmas (insert_merged v m))" unfolding eq by (rule ins(1))
  have look: "mapping (insert_merged v m) a = Some i \<longleftrightarrow> covers v a \<and> page_info v a = i \<or> mapping m a = Some i" for i
    unfolding mapping_sees [OF new] mapping_sees [OF assms(1)] eq ins(2) ok [THEN conjunct2, THEN conjunct2, rule_format, of i]
    by (rule sees_insert)
  have "mapping m a = None" if "covers v a"
  proof (rule ccontr)
    assume "mapping m a \<noteq> None"
    then obtain p where "p \<in> set (vm_vmas m)" "covers (snd p) a" using mapping_sees [OF assms(1)] by (auto simp: sees_def)
    then show False using assms(2) that apart_covers unfolding fits_def by blast
  qed
  then show "mapping (insert_merged v m) a = (if covers v a then Some (page_info v a) else mapping m a)"
    by (intro opt_eqI) (auto simp: look)
qed

section \<open>Finding free space\<close>

text \<open>\<open>sz\<close> bytes at \<open>b\<close> lie in the area of mappings and overlap no range.\<close>

definition gap :: "u64 \<Rightarrow> vma set \<Rightarrow> u64 \<Rightarrow> bool" where
  "gap sz V b = (MMAP_BASE \<le> b \<and> unat b + unat sz \<le> unat MMAP_LIMIT
     \<and> (\<forall>v\<in>V. unat b + unat sz \<le> unat (vma_start v) \<or> vma_end v \<le> b))"

abbreviation before :: "vma \<Rightarrow> vma \<Rightarrow> bool" where
  "before u v \<equiv> vma_end u \<le> vma_start v"

lemma vmas_sorted: "vmas_ok vs \<Longrightarrow> sorted_wrt before (map snd vs)"
proof (induction vs)
  case (Cons p vs)
  note ok = vmas_okD [OF Cons.prems]
  have "vmas_ok vs" using Cons.prems by (cases p) (auto simp: vmas_ok_def bt_ok_Cons)
  moreover have "before (snd p) (snd q)" if "q \<in> set vs" for q
  proof -
    have lt: "fst p < fst q" using ok(1) that by (cases p) (auto simp: bt_ok_Cons)
    then have "apart (snd p) (snd q)" using ok(4) [of p q] that by auto
    with lt ok(2,3) [of p] ok(2,3) [of q] that show ?thesis by (auto simp: apart_def)
  qed
  ultimately show ?case using Cons.IH by simp
qed simp

lemma free_gap_least:
  assumes "sorted_wrt before ws" and "\<forall>w\<in>set ws. vma_start w < vma_end w \<and> cursor \<le> vma_start w"
    and "\<forall>u\<in>P. vma_end u \<le> cursor" and "V = P \<union> set ws" and "MMAP_BASE \<le> cursor" and "\<forall>b. gap sz V b \<longrightarrow> cursor \<le> b"
  shows "case free_gap sz ws cursor of Some b \<Rightarrow> gap sz V b \<and> (\<forall>b'. gap sz V b' \<longrightarrow> b \<le> b') | None \<Rightarrow> \<forall>b. \<not> gap sz V b"
  using assms
proof (induction ws arbitrary: cursor P)
  case Nil
  have none: "\<not> gap sz V b" if "unat MMAP_LIMIT < unat cursor + unat sz" for b
    using Nil.prems(6) that by (auto simp: gap_def word_le_nat_alt)
  show ?case
  proof (cases "checked_add cursor sz")
    case None
    then have "unat MMAP_LIMIT < unat cursor + unat sz" by (simp add: checked_add_None_iff)
    with None none show ?thesis by simp
  next
    case (Some e)
    then have e: "unat e = unat cursor + unat sz" by (simp add: checked_add_Some_iff)
    show ?thesis using Some e none Nil.prems(3-6) by (auto simp: gap_def word_le_nat_alt)
  qed
next
  case (Cons w ws)
  have w: "cursor \<le> vma_start w" "vma_start w < vma_end w" using Cons.prems(2) by simp_all
  have later: "vma_start w \<le> vma_start u" if "u \<in> set (w # ws)" for u
    using Cons.prems(1) that w(2) by (auto dest: less_le_trans [of _ "vma_end w"] less_imp_le)
  have none: "\<not> gap sz V b" if "unat MMAP_LIMIT < unat cursor + unat sz" for b
    using Cons.prems(6) that by (auto simp: gap_def word_le_nat_alt)
  have here: "gap sz V cursor" if "unat cursor + unat sz \<le> unat (vma_start w)" "unat cursor + unat sz \<le> unat MMAP_LIMIT"
    using Cons.prems(3-5) later that by (force simp: gap_def word_le_nat_alt)
  show ?case
  proof (cases "checked_add cursor sz")
    case None
    then have big: "unat MMAP_LIMIT < unat cursor + unat sz" by (simp add: checked_add_None_iff)
    with None none show ?thesis by simp
  next
    case (Some e)
    then have e: "unat e = unat cursor + unat sz" by (simp add: checked_add_Some_iff)
    consider "vma_start w \<ge> MMAP_LIMIT" | "vma_start w < MMAP_LIMIT" "e \<le> vma_start w" | "vma_start w < MMAP_LIMIT" "vma_start w < e" by fastforce
    then show ?thesis
    proof cases
      case 1
      then show ?thesis using Some e none here Cons.prems(6) by (auto simp: word_le_nat_alt)
    next
      case 2
      then show ?thesis using Some e here Cons.prems(6) by (auto simp: word_le_nat_alt word_less_nat_alt)
    next
      case 3
      have "vma_end w > cursor" using w by simp
      then have step: "free_gap sz (w # ws) cursor = free_gap sz ws (vma_end w)"
        using 3 Some by (simp add: not_le [THEN iffD2])
      have "vma_end w \<le> b" if "gap sz V b" for b
      proof -
        have "cursor \<le> b" using Cons.prems(6) that by blast
        then have "\<not> unat b + unat sz \<le> unat (vma_start w)" using 3(2) e by (simp add: word_le_nat_alt word_less_nat_alt)
        with that Cons.prems(4) show ?thesis by (auto simp: gap_def)
      qed
      moreover have "MMAP_BASE \<le> vma_end w" using Cons.prems(5) w by simp
      moreover have "\<forall>u\<in>insert w P. vma_end u \<le> vma_end w" using Cons.prems(3) w by (auto intro: order_trans)
      ultimately show ?thesis unfolding step using Cons.prems(1,2,4) by (intro Cons.IH [of "vma_end w" "insert w P"]) auto
    qed
  qed
qed

lemma find_free_least:
  assumes "vmas_ok (vm_vmas m)" and "sz \<noteq> 0"
  shows "case find_free sz m of Some b \<Rightarrow> gap sz (snd ` set (vm_vmas m)) b \<and> (\<forall>b'. gap sz (snd ` set (vm_vmas m)) b' \<longrightarrow> b \<le> b')
    | None \<Rightarrow> \<forall>b. \<not> gap sz (snd ` set (vm_vmas m)) b"
proof -
  let ?vs = "vm_vmas m"
  note ok = vmas_okD [OF assms(1)]
  define cursor where "cursor = (case bt_last (\<lambda>k. k \<le> MMAP_BASE) ?vs of
      Some (_, v) \<Rightarrow> if vma_end v > MMAP_BASE then vma_end v else MMAP_BASE | None \<Rightarrow> MMAP_BASE)"
  define ws where "ws = map snd (filter (\<lambda>(k, _). cursor \<le> k) ?vs)"
  have base: "MMAP_BASE \<le> cursor" by (auto simp: cursor_def split: option.split prod.split)
  have early: "vma_end (snd p) \<le> cursor" if p: "p \<in> set ?vs" "fst p < cursor" for p
  proof (cases "bt_last (\<lambda>k. k \<le> MMAP_BASE) ?vs")
    case None
    then have "cursor = MMAP_BASE" by (simp add: cursor_def)
    with None p show ?thesis by (auto simp: bt_last_None)
  next
    case (Some q)
    note last = bt_last_SomeD [OF ok(1) Some]
    have c: "vma_end (snd q) \<le> cursor" "cursor = vma_end (snd q) \<or> cursor = MMAP_BASE"
      using Some by (auto simp: cursor_def split: prod.split)
    show ?thesis
    proof (cases "p = q")
      case False
      then have "apart (snd p) (snd q)" using ok(4) p(1) last by blast
      with p c last ok(2,3) [OF p(1)] ok(2,3) [of q] show ?thesis by (force simp: apart_def)
    qed (use c in simp)
  qed
  have lb: "cursor \<le> b" if "gap sz (snd ` set ?vs) b" for b
  proof (cases "cursor = MMAP_BASE")
    case False
    then obtain q where q: "bt_last (\<lambda>k. k \<le> MMAP_BASE) ?vs = Some q" "cursor = vma_end (snd q)"
      by (auto simp: cursor_def split: option.splits prod.splits if_splits)
    note last = bt_last_SomeD [OF ok(1) q(1)]
    have "0 < unat sz" using assms(2) by (simp add: unat_gt_0)
    then have "unat b + unat sz > unat (vma_start (snd q))"
      using that last ok(2) [of q] by (auto simp: gap_def word_le_nat_alt)
    with that last q(2) show ?thesis by (auto simp: gap_def)
  qed (use that in \<open>simp add: gap_def\<close>)
  have sorted: "sorted_wrt before ws"
    unfolding ws_def by (rule sorted_wrt_map [THEN iffD2], rule sorted_wrt_filter, rule sorted_wrt_map [THEN iffD1], rule vmas_sorted [OF assms(1)])
  have ws: "\<forall>w\<in>set ws. vma_start w < vma_end w \<and> cursor \<le> vma_start w"
    using ok(2,3) by (fastforce simp: ws_def)
  have V: "snd ` set ?vs = snd ` {p \<in> set ?vs. fst p < cursor} \<union> set ws"
  proof -
    have "set ws = snd ` {p \<in> set ?vs. cursor \<le> fst p}" by (auto simp: ws_def case_prod_beta)
    moreover have "{p \<in> set ?vs. fst p < cursor} \<union> {p \<in> set ?vs. cursor \<le> fst p} = set ?vs" by auto
    ultimately show ?thesis by (simp flip: image_Un)
  qed
  have "find_free sz m = free_gap sz ws cursor" using assms(2) by (simp add: find_free_def Let_def ws_def cursor_def)
  moreover have "\<forall>u\<in>snd ` {p \<in> set ?vs. fst p < cursor}. vma_end u \<le> cursor" using early by auto
  ultimately show ?thesis using free_gap_least [OF sorted ws _ V base] lb by simp
qed

section \<open>Properties\<close>

text \<open>The mappings of one address space, and what they show at an address.\<close>

definition space :: "u64 \<Rightarrow> 'w vmm \<Rightarrow> vma_map" where
  "space cr3 s = (case map_of (vt_table s) cr3 of Some m \<Rightarrow> m | None \<Rightarrow> vm_new)"

definition spaces_ok :: "'w vmm \<Rightarrow> bool" where
  "spaces_ok s = (\<forall>cr3. vmas_ok (vm_vmas (space cr3 s)))"

abbreviation ranges :: "u64 \<Rightarrow> 'w vmm \<Rightarrow> vma set" where
  "ranges cr3 s \<equiv> snd ` set (vm_vmas (space cr3 s))"

lemma space_on_vma: "on_vma cr3 f s = (r, s') \<Longrightarrow> r = fst (f (space cr3 s)) \<and> space c s' = (if c = cr3 then snd (f (space cr3 s)) else space c s)"
  by (auto simp: on_vma_def with_vma_def space_def split: prod.splits)

lemma space_vma_do [simp]: "space c (vma_do cr3 f s) = (if c = cr3 then f (space cr3 s) else space c s)"
  using space_on_vma [of cr3 "\<lambda>m. ((), f m)" s "()" "vma_do cr3 f s" c] by (simp add: vma_do_def prod_eq_iff)

lemma space_world [simp]: "space c (s\<lparr>vt_world := w\<rparr>) = space c s"
  by (simp add: space_def)

lemma space_unmap_step [simp]: "space c (unmap_step x cr3 base n s) = space c s"
  by (simp add: unmap_step_def)

lemma space_writeback_page [simp]: "space c (writeback_page x cr3 p s) = space c s"
proof -
  obtain r s1 where 1: "on_vma cr3 (\<lambda>m. (vma_find p m, m)) s = (r, s1)" by (cases "on_vma cr3 (\<lambda>m. (vma_find p m, m)) s")
  have "space c s1 = space c s" for c using space_on_vma [OF 1, of c] by simp
  then show ?thesis by (simp add: writeback_page_def 1 Let_def split: option.split)
qed

lemma space_writeback [simp]: "space c (writeback_file_range x cr3 a e s) = space c s"
proof -
  have "space c (fold (writeback_page x cr3) ps s) = space c s" for ps by (induction ps arbitrary: s) simp_all
  then show ?thesis by (simp add: writeback_file_range_def)
qed

lemma space_writeback_and_unmap [simp]: "space c (writeback_and_unmap x cr3 a e s) = space c s"
  by (simp add: writeback_and_unmap_def)

lemma fits_gap:
  assumes "gap sz (snd ` set vs) b" and "sz \<noteq> 0" and "vma_start v = b" and "vma_end v = b + sz"
  shows "fits v vs" and "unat (b + sz) = unat b + unat sz" and "b < b + sz"
proof -
  have lim: "unat b + unat sz < 2 ^ 64" using assms(1) by (simp add: gap_def)
  then show eq: "unat (b + sz) = unat b + unat sz" by (simp add: unat_word_ariths)
  then show lt: "b < b + sz" using assms(2) by (simp add: word_less_nat_alt unat_gt_0)
  show "fits v vs" using assms lt eq by (auto simp: fits_def apart_def gap_def word_le_nat_alt)
qed

lemma gap_unmapped:
  assumes "vmas_ok (vm_vmas m)" and "gap sz (snd ` set (vm_vmas m)) b" and "b \<le> a" and "a < b + sz" and "sz \<noteq> 0"
  shows "mapping m a = None"
proof (rule ccontr)
  assume "mapping m a \<noteq> None"
  then obtain p where "p \<in> set (vm_vmas m)" "covers (snd p) a" using mapping_sees [OF assms(1)] by (auto simp: sees_def)
  moreover have "fits \<lparr>vma_start = b, vma_end = b + sz, vma_prot = 0, vma_backing = None\<rparr> (vm_vmas m)"
    by (rule fits_gap [OF assms(2,5)]) simp_all
  ultimately show False using assms(3,4) apart_covers by (fastforce simp: fits_def covers_def)
qed

text \<open>What \<open>find_and_insert\<close> gives to its callers.\<close>

lemma find_and_insert_ok:
  assumes "vmas_ok (vm_vmas m)" and "sz \<noteq> 0" and "find_and_insert_file sz prot bk m = (r, m')"
  shows "case r of None \<Rightarrow> m' = m \<and> (\<forall>b. \<not> gap sz (snd ` set (vm_vmas m)) b)
    | Some b \<Rightarrow> gap sz (snd ` set (vm_vmas m)) b \<and> (\<forall>b'. gap sz (snd ` set (vm_vmas m)) b' \<longrightarrow> b \<le> b') \<and> vmas_ok (vm_vmas m')
        \<and> (\<forall>a. mapping m' a = (if b \<le> a \<and> a < b + sz
             then Some (page_info \<lparr>vma_start = b, vma_end = b + sz, vma_prot = prot, vma_backing = bk\<rparr> a) else mapping m a))"
proof (cases "find_free sz m")
  case None
  then show ?thesis using find_free_least [OF assms(1,2)] assms(3) by (simp add: find_and_insert_file_def)
next
  case (Some b)
  let ?v = "\<lparr>vma_start = b, vma_end = b + sz, vma_prot = prot, vma_backing = bk\<rparr>"
  have least: "gap sz (snd ` set (vm_vmas m)) b" "\<forall>b'. gap sz (snd ` set (vm_vmas m)) b' \<longrightarrow> b \<le> b'"
    using find_free_least [OF assms(1,2)] Some by simp_all
  have v: "fits ?v (vm_vmas m)" "unat (b + sz) = unat b + unat sz" 
    by (rule fits_gap [OF least(1) assms(2), of ?v]; simp)+
  then have "checked_add b sz = Some (b + sz)" by (simp add: checked_add_Some_iff)
  then have r: "r = Some b" "m' = insert_merged ?v m" using assms(3) Some by (simp_all add: find_and_insert_file_def)
  show ?thesis using insert_merged_ok [OF assms(1) v(1)] least by (simp add: r covers_def)
qed

lemma align_up_nonzero: "checked_align_up len = Some sz \<Longrightarrow> len \<noteq> 0 \<Longrightarrow> sz \<noteq> 0 \<and> unat len \<le> unat sz \<and> unat sz < unat len + 4096 \<and> unat sz mod 4096 = 0"
proof -
  assume a: "checked_align_up len = Some sz" and l: "len \<noteq> 0"
  then obtain v where v: "checked_add len (VM_PAGE - 1) = Some v" "sz = v AND NOT (VM_PAGE - 1)" by (auto simp: checked_align_up_def)
  have uv: "unat v = unat len + 4095" using v(1) by (simp add: checked_add_Some_iff VM_PAGE_def)
  have "VM_PAGE - 1 = mask 12" by (simp add: VM_PAGE_def mask_eq_exp_minus_1)
  then have "sz = push_bit 12 (drop_bit 12 v)" unfolding v(2) by (simp add: bit_eq_iff bit_simps) auto
  then have "sz + take_bit 12 v = v" by (simp only: bits_ident)
  then have "sz = v - take_bit 12 v" by (simp add: eq_diff_eq)
  moreover have "unat (take_bit 12 v) = unat v mod 4096" by (simp add: take_bit_eq_mod unat_mod)
  ultimately have "unat sz = unat v - unat v mod 4096"
    by (metis mod_less_eq_dividend unat_sub word_le_nat_alt)
  then have sum: "unat sz + unat v mod 4096 = unat v" by simp
  have "unat v mod 4096 < 4096" by simp
  with sum uv have "unat len \<le> unat sz" "unat sz < unat len + 4096" by linarith+
  moreover have "unat sz mod 4096 = 0" using sum by (metis add_diff_cancel_right' minus_mod_eq_div_mult mod_mult_self2_is_0)
  moreover have "0 < unat len" using l by (simp add: unat_gt_0)
  ultimately show ?thesis by auto
qed

lemma remove_insert_back:
  assumes "vmas_ok (vm_vmas m)" and "b < b + sz"
    and "\<forall>a. mapping m a = (if b \<le> a \<and> a < b + sz then Some i else mapping m0 a)"
    and "\<forall>a. b \<le> a \<and> a < b + sz \<longrightarrow> mapping m0 a = None"
  shows "mapping (remove_range b (b + sz) m) a = mapping m0 a"
  using assms(3,4) by (auto simp: mapping_remove_range [OF assms(1) less_imp_le [OF assms(2)]])

lemma mmap_not_fixed:
  assumes "spaces_ok s" and "flags AND MAP_FIXED = 0" and "sys_mmap x cr3 addr len prot flags s = (r, s')"
  shows "spaces_ok s' \<and> (\<forall>c. c \<noteq> cr3 \<longrightarrow> space c s' = space c s)
    \<and> ((r = - 22 \<or> r = - 12) \<and> (\<forall>a. mapping (space cr3 s') a = mapping (space cr3 s) a)
      \<or> (\<exists>sz. checked_align_up len = Some sz \<and> \<not> prot_rejects_wx prot
           \<and> gap sz (ranges cr3 s) r \<and> (\<forall>b. gap sz (ranges cr3 s) b \<longrightarrow> r \<le> b)
           \<and> (\<forall>a. r \<le> a \<and> a < r + sz \<longrightarrow> mapping (space cr3 s) a = None)
           \<and> (\<forall>a. mapping (space cr3 s') a = (if r \<le> a \<and> a < r + sz then Some (prot, None) else mapping (space cr3 s) a))))"
proof (cases "len = 0 \<or> prot_rejects_wx prot \<or> prot AND NOT PROT_VALID_MASK \<noteq> 0 \<or> checked_align_up len = None")
  case True
  then show ?thesis using assms(1,3) by (auto simp: sys_mmap_def split: if_splits)
next
  case False
  then obtain sz where sz: "checked_align_up len = Some sz" "sz \<noteq> 0" using align_up_nonzero by blast
  have ok: "vmas_ok (vm_vmas (space cr3 s))" using assms(1) by (simp add: spaces_ok_def)
  obtain r1 s1 where 1: "on_vma cr3 (find_and_insert sz prot) s = (r1, s1)" by (cases "on_vma cr3 (find_and_insert sz prot) s")
  note sp = space_on_vma [OF 1]
  have fi: "find_and_insert_file sz prot None (space cr3 s) = (r1, space cr3 s1)"
    using sp [of cr3] by (simp add: find_and_insert_def prod_eq_iff)
  note got = find_and_insert_ok [OF ok sz(2) fi]
  have run: "sys_mmap x cr3 addr len prot flags s = (case r1 of None \<Rightarrow> (- 12, s1) | Some base \<Rightarrow>
      case map_fresh_pages x cr3 base (unat (sz div VM_PAGE)) (prot_to_flags prot) (vt_world s1) of
        (False, w) \<Rightarrow> (- 12, vma_do cr3 (remove_range base (saturating_add base sz)) (unmap_step x cr3 base (unat (sz div VM_PAGE)) (s1\<lparr>vt_world := w\<rparr>)))
      | (True, w) \<Rightarrow> (base, s1\<lparr>vt_world := w\<rparr>))"
    using False sz(1) assms(2) 1 by (auto simp: sys_mmap_def Let_def split: option.split prod.split bool.split)
  show ?thesis
  proof (cases r1)
    case None
    then have "space cr3 s1 = space cr3 s" using got by simp
    then have "space c s1 = space c s" for c using sp [of c] by auto
    then show ?thesis using run None assms(1,3) by (simp add: spaces_ok_def)
  next
    case (Some b)
    have g: "gap sz (ranges cr3 s) b" "\<forall>b'. gap sz (ranges cr3 s) b' \<longrightarrow> b \<le> b'" "vmas_ok (vm_vmas (space cr3 s1))"
      "\<forall>a. mapping (space cr3 s1) a = (if b \<le> a \<and> a < b + sz then Some (prot, None) else mapping (space cr3 s) a)"
      using got Some by (simp_all add: page_info_def)
    have free: "\<forall>a. b \<le> a \<and> a < b + sz \<longrightarrow> mapping (space cr3 s) a = None" using gap_unmapped [OF ok g(1) _ _ sz(2)] by blast
    have lt: "unat (b + sz) = unat b + unat sz" "b < b + sz"
      using fits_gap(2,3) [OF g(1) sz(2), of "\<lparr>vma_start = b, vma_end = b + sz, vma_prot = 0, vma_backing = None\<rparr>"] by simp_all
    then have sat: "saturating_add b sz = b + sz" using unat_lt [of "b + sz"] by (simp add: saturating_add_def)
    have others: "space c s1 = space c s" if "c \<noteq> cr3" for c using sp [of c] that by simp
    have all: "spaces_ok s1" unfolding spaces_ok_def using others g(3) assms(1) by (metis spaces_ok_def)
    obtain f w where mf: "map_fresh_pages x cr3 b (unat (sz div VM_PAGE)) (prot_to_flags prot) (vt_world s1) = (f, w)" by fastforce
    show ?thesis
    proof (cases f)
      case True
      then have "r = b" "s' = s1\<lparr>vt_world := w\<rparr>" using run Some mf assms(3) by simp_all
      then show ?thesis using g free others all sz(1) \<open>\<not> (len = 0 \<or> _)\<close> by (auto simp: spaces_ok_def)
    next
      case False
      then have r: "r = - 12" and s': "s' = vma_do cr3 (remove_range b (b + sz)) (unmap_step x cr3 b (unat (sz div VM_PAGE)) (s1\<lparr>vt_world := w\<rparr>))"
        using run Some mf assms(3) sat by simp_all
      have "mapping (space cr3 s') a = mapping (space cr3 s) a" for a
        using remove_insert_back [OF g(3) lt(2) g(4) free] by (simp add: s')
      moreover have "vmas_ok (vm_vmas (remove_range b (b + sz) (space cr3 s1)))" by (rule remove_range_set(1) [OF g(3) less_imp_le [OF lt(2)]])
      ultimately show ?thesis using others assms(1) r by (auto simp: spaces_ok_def s')
    qed
  qed
qed

text \<open>C11: \<open>mmap\<close> without \<open>MAP_FIXED\<close> finds free space or changes nothing. When it succeeds the
  returned address is the lowest one at which the rounded length fits between the existing
  ranges of the area for mappings, nothing was mapped there, and afterwards exactly these
  addresses are mapped, with the requested protection, and every other address as before. When
  it fails, by its arguments, for lack of address space or for lack of memory half way
  through, every address is mapped as before. Either way the ranges of every address space stay
  disjoint, and no other address space changes.\<close>

theorem mmap_finds_free_range:
  assumes "spaces_ok s" and "flags AND MAP_FIXED = 0" and "sys_mmap x cr3 addr len prot flags s = (r, s')"
  shows "spaces_ok s' \<and> (\<forall>c. c \<noteq> cr3 \<longrightarrow> space c s' = space c s)
    \<and> ((r = - 22 \<or> r = - 12) \<and> (\<forall>a. mapping (space cr3 s') a = mapping (space cr3 s) a)
      \<or> (\<exists>sz. checked_align_up len = Some sz \<and> \<not> prot_rejects_wx prot
           \<and> gap sz (ranges cr3 s) r \<and> (\<forall>b. gap sz (ranges cr3 s) b \<longrightarrow> r \<le> b)
           \<and> (\<forall>a. r \<le> a \<and> a < r + sz \<longrightarrow> mapping (space cr3 s) a = None)
           \<and> (\<forall>a. mapping (space cr3 s') a = (if r \<le> a \<and> a < r + sz then Some (prot, None) else mapping (space cr3 s) a))))"
  by (rule mmap_not_fixed [OF assms])

text \<open>A memory of frames handed out in order, and the pages entered in the page tables.\<close>

definition demo_mem :: "(u64 \<times> (u64 \<times> u64) list) mem" where
  "demo_mem = \<lparr>x_alloc_frame = (\<lambda>(n, ps). (Some n, (n + VM_PAGE, ps))),
     x_free_frame = (\<lambda>_ w. w), x_zero_frame = (\<lambda>_ w. w),
     x_map_page = (\<lambda>_ v p _ (n, ps). (True, (n, (v, p) # ps))),
     x_unmap_page = (\<lambda>_ v (n, ps). (n, filter (\<lambda>(v', _). v' \<noteq> v) ps)),
     x_unmap_page_no_free = (\<lambda>_ v (n, ps). (n, filter (\<lambda>(v', _). v' \<noteq> v) ps)),
     x_virt_to_phys = (\<lambda>_ v (n, ps). map_of ps v),
     x_read_pte = (\<lambda>_ v (n, ps). map_option (\<lambda>p. p OR 1) (map_of ps v)),
     x_read_file = (\<lambda>_ _ _ _ w. (True, w)), x_write_file = (\<lambda>_ _ _ _ w. w)\<rparr>"

abbreviation demo_start :: "(u64 \<times> (u64 \<times> u64) list) vmm" where
  "demo_start \<equiv> \<lparr>vt_table = [], vt_world = (VM_PAGE, [])\<rparr>"

lemma spaces_ok_start: "spaces_ok \<lparr>vt_table = [], vt_world = w\<rparr>"
  by (simp add: spaces_ok_def space_def vm_new_def vmas_ok_def bt_ok_def)

theorem mmap_finds_free_range_witness:
  "\<exists>s'. sys_mmap demo_mem 7 0 5000 3 0 demo_start = (MMAP_BASE, s')
     \<and> mapping (space 7 s') (MMAP_BASE + 8191) = Some (3, None) \<and> mapping (space 7 s') (MMAP_BASE + 8192) = None"
proof -
  obtain r s' where run: "sys_mmap demo_mem 7 0 5000 3 0 demo_start = (r, s')" by (rule prod.exhaust)
  have r: "fst (sys_mmap demo_mem 7 0 5000 3 0 demo_start) = 0x100000000" by code_simp
  have sz: "checked_align_up 5000 = Some 8192" by code_simp
  have off: "(0::u32) AND MAP_FIXED = 0" by simp
  have none: "mapping (space 7 demo_start) a = None" for a by (simp add: space_def vm_new_def mapping_def vma_find_def)
  show ?thesis using mmap_finds_free_range [OF spaces_ok_start off run] run r sz none by auto
qed

lemma user_pages_SomeD:
  assumes "user_pages addr len = Some (sz, e)" and "len \<noteq> 0"
  shows "addr < e" and "unat e = unat addr + unat sz" and "e \<le> USER_END" and "unat len \<le> unat sz" and "unat sz < unat len + 4096"
    and "e = addr + sz" and "checked_align_up len = Some sz"
proof -
  have 1: "checked_align_up len = Some sz" "user_end_for addr sz = Some e"
    using assms(1) by (auto simp: user_pages_def split: option.splits)
  then have add: "checked_add addr sz = Some e" "user_range_ok addr e"
    by (auto simp: user_end_for_def split: option.splits if_splits)
  show "addr < e" "e \<le> USER_END" using add(2) by (simp_all add: user_range_ok_def)
  show e: "unat e = unat addr + unat sz" using add(1) by (simp add: checked_add_Some_iff)
  show "e = addr + sz" using add(1) by (auto simp: checked_add_def split: if_splits)
  show "unat len \<le> unat sz" "unat sz < unat len + 4096" using align_up_nonzero [OF 1(1) assms(2)] by simp_all
  show "checked_align_up len = Some sz" by (rule 1(1))
qed

text \<open>C12: \<open>munmap\<close> unmaps exactly the pages of its range. On a range of user pages it returns 0,
  and afterwards no address from the start to the end of the last page is mapped, and every
  other address shows what it showed, the parts of split file mappings at their places in the
  file; the ranges stay disjoint, and other address spaces do not change. On any other
  arguments nothing changes.\<close>

theorem munmap_removes_range:
  assumes "spaces_ok s" and "sys_munmap x cr3 addr len s = (r, s')"
  shows "spaces_ok s' \<and> (\<forall>c. c \<noteq> cr3 \<longrightarrow> space c s' = space c s)
    \<and> (if addr AND 0xFFF = 0 \<and> len \<noteq> 0 \<and> user_pages addr len \<noteq> None
       then r = 0 \<and> (\<exists>sz e. user_pages addr len = Some (sz, e) \<and> unat e = unat addr + unat sz
            \<and> unat len \<le> unat sz \<and> unat sz < unat len + 4096
            \<and> (\<forall>a. mapping (space cr3 s') a = (if addr \<le> a \<and> a < e then None else mapping (space cr3 s) a)))
       else s' = s)"
proof (cases "addr AND 0xFFF = 0 \<and> len \<noteq> 0 \<and> user_pages addr len \<noteq> None")
  case False
  then have "s' = s" using assms(2) by (cases "user_pages addr len") (auto simp: sys_munmap_def split: if_splits)
  then show ?thesis using assms(1) unfolding if_not_P [OF False] by simp
next
  case True
  then obtain sz e where up: "user_pages addr len = Some (sz, e)" by auto
  note ue = user_pages_SomeD [OF up] 
  have ok: "vmas_ok (vm_vmas (space cr3 s))" using assms(1) by (simp add: spaces_ok_def)
  have lt: "addr \<le> e" using ue(1) True by simp
  have r: "r = 0" and s': "s' = vma_do cr3 (remove_range addr e) (unmap_step x cr3 addr (unat (sz div VM_PAGE)) (writeback_file_range x cr3 addr e s))"
    using assms(2) True up by (simp_all add: sys_munmap_def)
  show ?thesis using True up ue assms(1) mapping_remove_range [OF ok lt] remove_range_set(1) [OF ok lt]
    by (auto simp: r s' spaces_ok_def)
qed

text \<open>Four pages of a file; unmapping the second leaves the others at their places in the file.\<close>

definition demo_file :: "(u64 \<times> (u64 \<times> u64) list) vmm" where
  "demo_file = \<lparr>vt_table = [(7, \<lparr>vm_vmas = [(0x1000, \<lparr>vma_start = 0x1000, vma_end = 0x5000, vma_prot = 1,
     vma_backing = Some \<lparr>fb_vnode_id = 5, fb_file_off = 0, fb_file_size = 0x4000, fb_shared = False\<rparr>\<rparr>)],
     vm_brk = BRK_BASE, vm_brk_floor = BRK_BASE\<rparr>)], vt_world = (VM_PAGE, [])\<rparr>"

lemma demo_file_ok: "spaces_ok demo_file"
  by (simp add: spaces_ok_def space_def vm_new_def vmas_ok_def bt_ok_def demo_file_def)

theorem munmap_removes_range_witness:
  "\<exists>s'. sys_munmap demo_mem 7 0x2000 1 demo_file = (0, s') \<and> mapping (space 7 s') 0x2FFF = None
     \<and> mapping (space 7 s') 0x3000 = Some (1, Some (5, 0x2000, 0x4000, False))"
proof -
  obtain r s' where run: "sys_munmap demo_mem 7 0x2000 1 demo_file = (r, s')" by (rule prod.exhaust)
  have up: "user_pages 0x2000 1 = Some (0x1000, 0x3000)" by code_simp
  have m: "mapping (space 7 demo_file) 0x3000 = Some (1, Some (5, 0x2000, 0x4000, False))" by code_simp
  show ?thesis using munmap_removes_range [OF demo_file_ok run] run up m by simp
qed

section \<open>Every call keeps the ranges apart\<close>

lemma fits_removed:
  assumes "vmas_ok (vm_vmas m)" and "s < e" and "vma_start v = s" and "vma_end v = e"
  shows "fits v (vm_vmas (remove_range s e m))"
  unfolding fits_def
proof (intro conjI ballI)
  fix p assume "p \<in> set (vm_vmas (remove_range s e m))"
  then consider "\<not> (fst p < e \<and> s < vma_end (snd p))" "p \<in> set (vm_vmas m)" | q where "p \<in> frags s e (snd q)" "q \<in> set (vm_vmas m)"
    by (auto simp: remove_range_set(2) [OF assms(1) less_imp_le [OF assms(2)]])
  then show "apart v (snd p)"
  proof cases
    case 1
    then show ?thesis using vmas_okD(2) [OF assms(1) 1(2)] assms(3,4) by (auto simp: apart_def)
  next
    case 2
    then show ?thesis using assms(2-4) by (auto simp: frags_def apart_def split: if_splits)
  qed
qed (use assms in simp)

lemma replace_range_ok:
  assumes "vmas_ok (vm_vmas m)" and "s < e"
  shows "vmas_ok (vm_vmas (insert_merged \<lparr>vma_start = s, vma_end = e, vma_prot = p, vma_backing = b\<rparr> (remove_range s e m)))"
  by (rule insert_merged_ok(1) [OF remove_range_set(1) [OF assms(1) less_imp_le [OF assms(2)]] fits_removed [OF assms]]) simp_all

lemma spaces_ok_do: "spaces_ok s \<Longrightarrow> vmas_ok (vm_vmas (f (space cr3 s))) \<Longrightarrow> spaces_ok (vma_do cr3 f s)"
  by (simp add: spaces_ok_def)

lemma spaces_ok_same: "(\<And>c. space c s' = space c s) \<Longrightarrow> spaces_ok s' = spaces_ok s"
  by (simp add: spaces_ok_def)

lemma spaces_ok_world [simp]: "spaces_ok (s\<lparr>vt_world := w\<rparr>) = spaces_ok s"
  "spaces_ok (unmap_step x cr3 a n s) = spaces_ok s" "spaces_ok (writeback_file_range x cr3 a e s) = spaces_ok s"
  "spaces_ok (writeback_and_unmap x cr3 a e s) = spaces_ok s"
  by (rule spaces_ok_same, simp)+

lemma user_end_forD:
  assumes "user_end_for a sz = Some e"
  shows "a < e" and "e = a + sz"
proof -
  have add: "checked_add a sz = Some e" "user_range_ok a e"
    using assms by (auto simp: user_end_for_def split: option.splits if_splits)
  show "a < e" using add(2) by (simp add: user_range_ok_def)
  show "e = a + sz" using add(1) by (auto simp: checked_add_def split: if_splits)
qed

lemma space_find [simp]: "space c (snd (on_vma cr3 (\<lambda>m. (f m, m)) s)) = space c s"
  using space_on_vma [of cr3 "\<lambda>m. (f m, m)" s _ _ c] by (metis prod.collapse snd_conv)

lemma mmap_file_ok:
  assumes "spaces_ok s" and "sys_mmap_file x cr3 addr len prot flags vn off fsz sh s = (r, s')"
  shows "spaces_ok s'"
proof (cases "len = 0 \<or> prot_rejects_wx prot \<or> prot AND NOT PROT_VALID_MASK \<noteq> 0 \<or> off AND 0xFFF \<noteq> 0 \<or> checked_align_up len = None")
  case True
  then show ?thesis using assms by (auto simp: sys_mmap_file_def split: if_splits)
next
  case False
  then obtain sz where sz: "checked_align_up len = Some sz" "sz \<noteq> 0" using align_up_nonzero by blast
  have ok: "vmas_ok (vm_vmas (space cr3 s))" using assms(1) by (simp add: spaces_ok_def)
  let ?b = "Some \<lparr>fb_vnode_id = vn, fb_file_off = off, fb_file_size = fsz, fb_shared = sh\<rparr>"
  show ?thesis
  proof (cases "flags AND MAP_FIXED = 0")
    case True
    obtain r1 s1 where 1: "on_vma cr3 (find_and_insert_file sz prot ?b) s = (r1, s1)" by (rule prod.exhaust)
    note sp = space_on_vma [OF 1]
    have "vmas_ok (vm_vmas (space cr3 s1))"
      using find_and_insert_ok [OF ok sz(2), of prot ?b r1 "space cr3 s1"] sp [of cr3] ok by (auto simp: prod_eq_iff split: option.splits)
    then have "spaces_ok s1" using sp assms(1) by (simp add: spaces_ok_def)
    moreover have "s' = s1" using assms(2) False sz(1) True 1 by (auto simp: sys_mmap_file_def Let_def split: option.splits)
    ultimately show ?thesis by simp
  next
    case fixed: False
    show ?thesis
    proof (cases "addr = 0 \<or> addr AND 0xFFF \<noteq> 0 \<or> user_end_for addr sz = None")
      case True
      then show ?thesis using assms False sz(1) fixed by (auto simp: sys_mmap_file_def Let_def split: if_splits)
    next
      case ok2: False
      then obtain e where "user_end_for addr sz = Some e" by blast
      then have "addr < addr + sz" using user_end_forD by blast
      from replace_range_ok [OF ok this] show ?thesis using assms False sz(1) fixed ok2
        by (auto simp: sys_mmap_file_def Let_def intro!: spaces_ok_do)
    qed
  qed
qed

lemma mmap_ok:
  assumes "spaces_ok s" and "sys_mmap x cr3 addr len prot flags s = (r, s')"
  shows "spaces_ok s'"
proof (cases "flags AND MAP_FIXED = 0")
  case True
  then show ?thesis using mmap_not_fixed [OF assms(1) True assms(2)] by blast
next
  case fixed: False
  have ok: "vmas_ok (vm_vmas (space cr3 s))" using assms(1) by (simp add: spaces_ok_def)
  show ?thesis
  proof (cases "len = 0 \<or> prot_rejects_wx prot \<or> prot AND NOT PROT_VALID_MASK \<noteq> 0 \<or> checked_align_up len = None
      \<or> addr = 0 \<or> addr AND 0xFFF \<noteq> 0 \<or> user_end_for addr (the (checked_align_up len)) = None")
    case True
    then show ?thesis using assms fixed by (auto simp: sys_mmap_def Let_def split: if_splits option.splits)
  next
    case False
    then obtain sz e where sz: "checked_align_up len = Some sz" "user_end_for addr sz = Some e" by auto
    have e: "addr < addr + sz" "checked_add addr sz = Some e" using user_end_forD [OF sz(2)] sz(2) by (auto simp: user_end_for_def split: option.splits if_splits)
    then have sat: "saturating_add addr sz = addr + sz" by (auto simp: checked_add_def saturating_add_def split: if_splits)
    let ?s1 = "vma_do cr3 (remove_range addr (addr + sz)) (unmap_step x cr3 addr (unat (sz div VM_PAGE)) s)"
    have s1: "spaces_ok ?s1" using assms(1) remove_range_set(1) [OF ok less_imp_le [OF e(1)]] by (auto intro!: spaces_ok_do)
    obtain f w where mf: "map_fresh_pages x cr3 addr (unat (sz div VM_PAGE)) (prot_to_flags prot) (vt_world ?s1) = (f, w)" by (rule prod.exhaust)
    have "s' = (if f then vma_do cr3 (insert_merged \<lparr>vma_start = addr, vma_end = addr + sz, vma_prot = prot, vma_backing = None\<rparr>) (?s1\<lparr>vt_world := w\<rparr>)
        else unmap_step x cr3 addr (unat (sz div VM_PAGE)) (?s1\<lparr>vt_world := w\<rparr>))"
      using assms(2) False fixed sz mf sat by (auto simp: sys_mmap_def Let_def split: bool.splits)
    then show ?thesis using s1 replace_range_ok [OF ok e(1)] by (auto intro!: spaces_ok_do)
  qed
qed

lemma munmap_ok:
  assumes "spaces_ok s" and "sys_munmap x cr3 addr len s = (r, s')"
  shows "spaces_ok s'"
proof (cases "addr AND 0xFFF \<noteq> 0 \<or> len = 0 \<or> user_pages addr len = None")
  case True
  then show ?thesis using assms by (auto simp: sys_munmap_def split: if_splits option.splits)
next
  case False
  then obtain sz e where up: "user_pages addr len = Some (sz, e)" "len \<noteq> 0" by auto
  have "vmas_ok (vm_vmas (space cr3 s))" using assms(1) by (simp add: spaces_ok_def)
  from remove_range_set(1) [OF this less_imp_le [OF user_pages_SomeD(1) [OF up]]]
  show ?thesis using assms False up by (auto simp: sys_munmap_def intro!: spaces_ok_do)
qed

lemma mprotect_ok:
  assumes "spaces_ok s" and "sys_mprotect x cr3 addr len prot s = (r, s')"
  shows "spaces_ok s'"
proof (cases "addr AND 0xFFF \<noteq> 0 \<or> len = 0 \<or> prot_rejects_wx prot \<or> prot AND NOT PROT_VALID_MASK \<noteq> 0 \<or> user_pages addr len = None")
  case True
  then show ?thesis using assms by (auto simp: sys_mprotect_def split: if_splits option.splits)
next
  case False
  then obtain sz e where up: "user_pages addr len = Some (sz, e)" "len \<noteq> 0" by auto
  have "vmas_ok (vm_vmas (space cr3 s))" using assms(1) by (simp add: spaces_ok_def)
  from replace_range_ok [OF this user_pages_SomeD(1) [OF up]]
  show ?thesis using assms False up by (auto simp: sys_mprotect_def intro!: spaces_ok_do)
qed

text \<open>What \<open>brk\<close> would add overlaps no range: the call does not look.\<close>

definition brk_room :: "u64 \<Rightarrow> u64 \<Rightarrow> 'w vmm \<Rightarrow> bool" where
  "brk_room cr3 new_brk s = (\<forall>n. checked_align_up new_brk = Some n \<longrightarrow> vm_brk (space cr3 s) < n \<longrightarrow>
     fits \<lparr>vma_start = vm_brk (space cr3 s), vma_end = n, vma_prot = PROT_READ OR PROT_WRITE, vma_backing = None\<rparr> (vm_vmas (space cr3 s)))"

lemma brk_ok:
  assumes "spaces_ok s" and "brk_room cr3 nb s" and "sys_brk x cr3 nb s = (r, s')"
  shows "spaces_ok s'"
proof -
  let ?get = "on_vma cr3 (\<lambda>m. ((vm_brk m, vm_brk_floor m), m)) s" and ?cur = "vm_brk (space cr3 s)"
  obtain r1 s1 where get0: "?get = (r1, s1)" by (rule prod.exhaust)
  note sp0 = space_on_vma [OF get0]
  have get: "?get = ((?cur, vm_brk_floor (space cr3 s)), s1)" using get0 sp0 [of cr3] by simp
  have sp: "space c s1 = space c s" for c using sp0 [of c] by simp
  have ok1: "spaces_ok s1" using assms(1) by (simp add: spaces_ok_def sp)
  show ?thesis
  proof (cases "nb = 0 \<or> checked_align_up nb = None")
    case True
    then show ?thesis using assms(3) get ok1 by (auto simp: sys_brk_def split: if_splits)
  next
    case False
    then obtain n where n: "checked_align_up nb = Some n" by blast
    have ok: "vmas_ok (vm_vmas (space cr3 s))" using assms(1) by (simp add: spaces_ok_def)
    show ?thesis
    proof (cases "n \<le> ?cur")
      case True
      then show ?thesis using assms(3) get ok1 False n remove_range_set(1) [OF ok True]
        by (auto simp: sys_brk_def sp split: if_splits intro!: spaces_ok_do)
    next
      case grow: False
      obtain f w where mf: "map_fresh_pages x cr3 ?cur (unat ((n - ?cur) div VM_PAGE)) (1 OR 2 OR 4 OR push_bit 63 1) (vt_world s1) = (f, w)" by (rule prod.exhaust)
      have "fits \<lparr>vma_start = ?cur, vma_end = n, vma_prot = PROT_READ OR PROT_WRITE, vma_backing = None\<rparr> (vm_vmas (space cr3 s))"
        using assms(2) n grow by (simp add: brk_room_def)
      note ins = insert_merged_ok(1) [OF ok this]
      show ?thesis using assms(3) get ok1 False n grow mf ins
        by (auto simp: sys_brk_def sp split: if_splits bool.splits intro!: spaces_ok_do)
    qed
  qed
qed

lemma fault_ok:
  assumes "spaces_ok s" and "handle_vma_fault x cr3 fa from_user s = (r, s')"
  shows "spaces_ok s'"
proof -
  have ff: "spaces_ok s2" if "spaces_ok s1" "handle_file_fault x cr3 fa s1 = (b, s2)" for b s1 s2
  proof -
    let ?get = "on_vma cr3 (\<lambda>m. (vma_find (page_of fa) m, m)) s1"
    have "spaces_ok (snd ?get)" using that(1) by (simp add: spaces_ok_def)
    then show ?thesis using that(2)
      by (auto simp: handle_file_fault_def Let_def split: prod.splits option.splits bool.splits)
  qed
  let ?get = "on_vma cr3 (\<lambda>m. (vma_find (page_of fa) m, m)) s"
  have "spaces_ok (snd ?get)" using assms(1) by (simp add: spaces_ok_def)
  then show ?thesis using assms ff
    by (auto simp: handle_vma_fault_def Let_def split: prod.splits option.splits if_splits)
qed

lemma fault_in_ok: "spaces_ok s \<Longrightarrow> spaces_ok (fault_in_user_range x try_swapin cr3 ptr len s)"
proof -
  have page: "spaces_ok (fault_in_page x try_swapin cr3 va s)" if "spaces_ok s" for va s
    using that fault_ok [OF that, of x cr3 va True "fst (handle_vma_fault x cr3 va True s)"]
    by (simp add: fault_in_page_def split: option.split)
  have "spaces_ok (fold (fault_in_page x try_swapin cr3) vas s)" if "spaces_ok s" for vas
    using that by (induction vas arbitrary: s) (simp_all add: page)
  then show "spaces_ok s \<Longrightarrow> ?thesis" by (simp add: fault_in_user_range_def split: option.split)
qed

text \<open>The states that the calls, the faults and the life of processes lead to. Whatever else
  happens to frames, page tables and files is a change of the world.\<close>

inductive vm_reach :: "'w mem \<Rightarrow> 'w vmm \<Rightarrow> bool" for x where
  vr_boot: "vm_reach x \<lparr>vt_table = [], vt_world = w\<rparr>"
| vr_world: "vm_reach x s \<Longrightarrow> vm_reach x (s\<lparr>vt_world := w\<rparr>)"
| vr_mmap: "vm_reach x s \<Longrightarrow> sys_mmap x cr3 addr len prot flags s = (r, s') \<Longrightarrow> vm_reach x s'"
| vr_mmap_file: "vm_reach x s \<Longrightarrow> sys_mmap_file x cr3 addr len prot flags vn off fsz sh s = (r, s') \<Longrightarrow> vm_reach x s'"
| vr_munmap: "vm_reach x s \<Longrightarrow> sys_munmap x cr3 addr len s = (r, s') \<Longrightarrow> vm_reach x s'"
| vr_mprotect: "vm_reach x s \<Longrightarrow> sys_mprotect x cr3 addr len prot s = (r, s') \<Longrightarrow> vm_reach x s'"
| vr_msync: "vm_reach x s \<Longrightarrow> sys_msync x cr3 addr len s = (r, s') \<Longrightarrow> vm_reach x s'"
| vr_brk: "vm_reach x s \<Longrightarrow> brk_room cr3 nb s \<Longrightarrow> sys_brk x cr3 nb s = (r, s') \<Longrightarrow> vm_reach x s'"
| vr_fault: "vm_reach x s \<Longrightarrow> handle_vma_fault x cr3 fa from_user s = (ok, s') \<Longrightarrow> vm_reach x s'"
| vr_fault_in: "vm_reach x s \<Longrightarrow> vm_reach x (fault_in_user_range x try_swapin cr3 ptr len s)"
| vr_set_brk: "vm_reach x s \<Longrightarrow> vm_reach x (s\<lparr>vt_table := vma_set_brk cr3 b (vt_table s)\<rparr>)"
| vr_register: "vm_reach x s \<Longrightarrow> fits \<lparr>vma_start = a, vma_end = e, vma_prot = prot, vma_backing = None\<rparr> (vm_vmas (space cr3 s))
    \<Longrightarrow> vm_reach x (s\<lparr>vt_table := kernel_register_vma cr3 a e prot (vt_table s)\<rparr>)"
| vr_fork: "vm_reach x s \<Longrightarrow> vm_reach x (s\<lparr>vt_table := vma_clone src dst (vt_table s)\<rparr>)"
| vr_exit: "vm_reach x s \<Longrightarrow> vm_reach x (s\<lparr>vt_table := vma_cleanup cr3 (vt_table s)\<rparr>)"

lemma vm_new_ok [simp]: "vmas_ok (vm_vmas vm_new)"
  by (simp add: vm_new_def vmas_ok_def)

lemma space_table [simp]:
  "space c (s\<lparr>vt_table := vma_set_brk cr3 b (vt_table s)\<rparr>) = (if c = cr3 then set_brk_base b (space cr3 s) else space c s)"
  "space c (s\<lparr>vt_table := vma_clone src dst (vt_table s)\<rparr>) = (if c = dst \<and> map_of (vt_table s) src \<noteq> None then space src s else space c s)"
  "space c (s\<lparr>vt_table := vma_cleanup cr3 (vt_table s)\<rparr>) = (if c = cr3 then vm_new else space c s)"
  by (auto simp: space_def vma_set_brk_def with_vma_def vma_clone_def vma_cleanup_def map_of_bt_remove split: option.splits)

lemma register_ok:
  assumes "spaces_ok s" and "fits \<lparr>vma_start = a, vma_end = e, vma_prot = prot, vma_backing = None\<rparr> (vm_vmas (space cr3 s))"
  shows "spaces_ok (s\<lparr>vt_table := kernel_register_vma cr3 a e prot (vt_table s)\<rparr>)"
proof -
  have "vmas_ok (vm_vmas (space cr3 s))" using assms(1) by (simp add: spaces_ok_def)
  note ins = bt_insert_fits(1) [OF this assms(2)]
  have "space c (s\<lparr>vt_table := kernel_register_vma cr3 a e prot (vt_table s)\<rparr>) =
      (if c = cr3 then vma_insert \<lparr>vma_start = a, vma_end = e, vma_prot = prot, vma_backing = None\<rparr> (space cr3 s) else space c s)" for c
    using assms(2) by (auto simp: fits_def space_def kernel_register_vma_def with_vma_def split: option.splits)
  then show ?thesis using assms(1) ins by (simp add: spaces_ok_def vma_insert_def)
qed

lemma vm_reach_ok: "vm_reach x s \<Longrightarrow> spaces_ok s"
proof (induction rule: vm_reach.induct)
  case (vr_msync s cr3 addr len r s')
  then show ?case by (auto simp: sys_msync_def split: if_splits option.splits prod.splits)
next
  case (vr_set_brk s cr3 b)
  then show ?case by (simp add: spaces_ok_def set_brk_base_def Let_def)
qed (auto simp: spaces_ok_start spaces_ok_do register_ok
      intro: fault_in_ok mmap_ok mmap_file_ok munmap_ok mprotect_ok brk_ok fault_ok, auto simp: spaces_ok_def)

text \<open>C5: Ranges never overlap. However processes map, unmap, protect, fault, fork and exit, and
  as long as \<open>brk\<close> and \<open>kernel_register_vma\<close> are given free space, every address lies in at most
  one range of its address space, and that range is the one \<open>find\<close> returns for it.\<close>

theorem mappings_disjoint:
  assumes "vm_reach x s" and "u \<in> ranges c s" and "covers u a"
  shows "vma_find a (space c s) = Some u \<and> (\<forall>v\<in>ranges c s. covers v a \<longrightarrow> v = u)"
proof -
  have ok: "vmas_ok (vm_vmas (space c s))" using vm_reach_ok [OF assms(1)] by (simp add: spaces_ok_def)
  have found: "vma_find a (space c s) = Some v" if "v \<in> ranges c s" "covers v a" for v
    using that vmas_okD(2) [OF ok] by (auto simp: vma_find_iff [OF ok])
  show ?thesis
  proof (intro conjI ballI impI)
    show "vma_find a (space c s) = Some u" by (rule found [OF assms(2,3)])
    fix v assume "v \<in> ranges c s" "covers v a"
    then show "v = u" using found [of v] found [OF assms(2,3)] by simp
  qed
qed

theorem mappings_disjoint_witness:
  "vma_find 0x100001000 (space 7 (snd (sys_mmap demo_mem 7 0 5000 3 0 demo_start)))
     = Some \<lparr>vma_start = 0x100000000, vma_end = 0x100002000, vma_prot = 3, vma_backing = None\<rparr>"
proof -
  obtain r s' where run: "sys_mmap demo_mem 7 0 5000 3 0 demo_start = (r, s')" by (rule prod.exhaust)
  have reach: "vm_reach demo_mem s'" by (rule vr_mmap [OF vr_boot run])
  have "vm_vmas (space 7 (snd (sys_mmap demo_mem 7 0 5000 3 0 demo_start)))
      = [(0x100000000, \<lparr>vma_start = 0x100000000, vma_end = 0x100002000, vma_prot = 3, vma_backing = None\<rparr>)]" by code_simp
  then have v: "\<lparr>vma_start = 0x100000000, vma_end = 0x100002000, vma_prot = 3, vma_backing = None\<rparr> \<in> ranges 7 s'" by (simp add: run)
  have c: "covers \<lparr>vma_start = 0x100000000, vma_end = 0x100002000, vma_prot = 3, vma_backing = None\<rparr> 0x100001000" by code_simp
  show ?thesis using mappings_disjoint [OF reach v c] by (simp add: run)
qed


text \<open>C34: \<open>mprotect\<close> does more than change protections. On a range of user pages it makes every
  address of the range an anonymous mapping with the new protection, also where nothing was mapped
  and where a file was: an address that showed a place of a file no longer does.\<close>

theorem mprotect_forgets_files:
  assumes "spaces_ok s" and "sys_mprotect x cr3 addr len prot s = (r, s')" and "r = 0" and "len \<noteq> 0"
  shows "\<exists>sz e. user_pages addr len = Some (sz, e) \<and> (\<forall>a. mapping (space cr3 s') a =
     (if addr \<le> a \<and> a < e then Some (prot, None) else mapping (space cr3 s) a))"
proof -
  obtain sz e where up: "user_pages addr len = Some (sz, e)"
    and s': "space cr3 s' = insert_merged \<lparr>vma_start = addr, vma_end = e, vma_prot = prot, vma_backing = None\<rparr> (remove_range addr e (space cr3 s))"
    using assms(2-4) by (auto simp: sys_mprotect_def split: if_splits option.splits)
  have ok: "vmas_ok (vm_vmas (space cr3 s))" using assms(1) by (simp add: spaces_ok_def)
  note lt = user_pages_SomeD(1) [OF up assms(4)]
  note removed = remove_range_set(1) [OF ok less_imp_le [OF lt]] mapping_remove_range [OF ok less_imp_le [OF lt]]
  have "fits \<lparr>vma_start = addr, vma_end = e, vma_prot = prot, vma_backing = None\<rparr> (vm_vmas (remove_range addr e (space cr3 s)))"
    by (rule fits_removed [OF ok lt]) simp_all
  from insert_merged_ok(2) [OF removed(1) this] show ?thesis
    using up by (auto simp: s' removed(2) covers_def page_info_def)
qed

theorem mprotect_forgets_files_witness:
  "mapping (space 7 demo_file) 0x1000 = Some (1, Some (5, 0, 0x4000, False))
   \<and> mapping (space 7 (snd (sys_mprotect demo_mem 7 0x1000 0x1000 3 demo_file))) 0x1000 = Some (3, None)"
proof -
  obtain r s' where run: "sys_mprotect demo_mem 7 0x1000 0x1000 3 demo_file = (r, s')" by (rule prod.exhaust)
  have "fst (sys_mprotect demo_mem 7 0x1000 0x1000 3 demo_file) = 0" by code_simp
  then have r: "r = 0" by (simp add: run)
  have up: "user_pages 0x1000 0x1000 = Some (0x1000, 0x2000)" by code_simp
  have m: "mapping (space 7 demo_file) 0x1000 = Some (1, Some (5, 0, 0x4000, False))" by code_simp
  have "mapping (space 7 s') 0x1000 = Some (3, None)"
    using mprotect_forgets_files [OF demo_file_ok run r] up by simp
  then show ?thesis using m by (simp add: run)
qed

end
