(* ===== verification/RunQueue.thy ===== *)
theory RunQueue
  imports Prelude
begin

text \<open>
  The run queue of a CPU, \<open>kernel/sched/runqueue.rs\<close>: tasks linked through their own \<open>rq_next\<close>
  pointers, ordered by virtual run time and process number. A pointer to a task is its process
  number; the memory holds a task behind every pointer, and \<open>None\<close> is the null pointer. The loops
  follow the links as the code does, so on a cyclic list they do not return. The theory shows that
  on a well-formed queue they always return and act as insertion into, and removal from, a sorted
  list.
\<close>

section \<open>Tasks\<close>

datatype proc_state = STATE_READY | STATE_RUNNING | STATE_SLEEPING | STATE_BLOCKED | STATE_DEAD

text \<open>The fields of \<open>Process\<close> that the scheduler reads or writes; \<open>p_stack_top\<close> is the value of
  \<open>stack_top()\<close>, which does not change.\<close>

record task =
  p_is_idle :: bool
  p_priority :: u8
  p_cpu_mask :: u64
  p_cr3 :: u64
  p_rsp :: u64
  p_saved_user_rsp :: u64
  p_state :: proc_state
  p_sleep_until :: u64
  p_blocked_cause :: u64
  p_vruntime :: u64
  p_cpu_time :: u64
  p_window_cpu_ticks :: u64
  p_window_start :: u64
  p_last_run_tick :: u64
  p_preempt_count :: u64
  p_sleep_count :: u64
  p_switch_in_count :: u64
  p_rq_next :: "u64 option"
  p_on_rq :: bool
  p_stack_top :: u64
  p_ppid :: u64
  p_exit_code :: u64

type_synonym heap = "u64 \<Rightarrow> task"

abbreviation upd :: "u64 \<Rightarrow> (task \<Rightarrow> task) \<Rightarrow> heap \<Rightarrow> heap" where
  "upd p f h \<equiv> h(p := f (h p))"

abbreviation set_next :: "u64 option \<Rightarrow> task \<Rightarrow> task" where
  "set_next n t \<equiv> t\<lparr>p_rq_next := n\<rparr>"

definition PRIO_WEIGHT :: "u64 list" where
  "PRIO_WEIGHT =
     [88761, 71755, 56483, 46273, 36291, 29154, 23254, 18705, 14949, 11916,
      9548, 7620, 6100, 4904, 3906, 3121, 2501, 1991, 1586, 1277]"

definition weight :: "u8 \<Rightarrow> u64" where
  "weight priority = PRIO_WEIGHT ! (unat (max 1 (min 20 priority)) - 1)"

section \<open>The operations\<close>

record run_queue =
  rq_head :: "u64 option"
  rq_tail :: "u64 option"
  rq_len :: u64

definition goes_before :: "u64 \<Rightarrow> u64 \<Rightarrow> u64 \<Rightarrow> u64 \<Rightarrow> bool" where
  "goes_before vr pid vr' pid' = (vr < vr' \<or> vr = vr' \<and> pid < pid')"

partial_function (option) push_walk :: "u64 \<Rightarrow> u64 \<Rightarrow> heap \<Rightarrow> run_queue \<Rightarrow> u64 \<Rightarrow> (heap \<times> run_queue) option" where
  "push_walk p p_vr h q cur =
     (case p_rq_next (h cur) of
        None \<Rightarrow> Some (upd cur (set_next (Some p)) h, q\<lparr>rq_tail := Some p\<rparr>)
      | Some next \<Rightarrow>
          if goes_before p_vr p (p_vruntime (h next)) next
          then Some (upd cur (set_next (Some p)) (upd p (set_next (Some next)) h), q)
          else push_walk p p_vr h q next)"

definition rq_push_sorted :: "u64 \<Rightarrow> heap \<Rightarrow> run_queue \<Rightarrow> (heap \<times> run_queue) option" where
  "rq_push_sorted p h0 q =
     (if p_on_rq (h0 p) then Some (h0, q)
      else
        let p_vr = p_vruntime (h0 p);
            h = upd p (\<lambda>t. t\<lparr>p_rq_next := None, p_on_rq := True\<rparr>) h0
        in case rq_head q of
             None \<Rightarrow> Some (h, q\<lparr>rq_head := Some p, rq_tail := Some p, rq_len := 1\<rparr>)
           | Some hp \<Rightarrow>
               if goes_before p_vr p (p_vruntime (h hp)) hp
               then Some (upd p (set_next (Some hp)) h, q\<lparr>rq_head := Some p, rq_len := rq_len q + 1\<rparr>)
               else
                 let walk = map_option (\<lambda>(h, q). (h, q\<lparr>rq_len := rq_len q + 1\<rparr>)) (push_walk p p_vr h q hp)
                 in case rq_tail q of
                      None \<Rightarrow> walk
                    | Some tp \<Rightarrow>
                        if goes_before (p_vruntime (h tp)) tp p_vr p
                        then Some (upd tp (set_next (Some p)) h, q\<lparr>rq_tail := Some p, rq_len := rq_len q + 1\<rparr>)
                        else walk)"

text \<open>Taking the task \<open>c\<close>, which follows \<open>prev\<close>, out of the list; the same statements end
  \<open>rq_pop_min\<close> and both branches of \<open>rq_remove\<close>.\<close>

definition unlink_at :: "heap \<Rightarrow> run_queue \<Rightarrow> u64 option \<Rightarrow> u64 \<Rightarrow> heap \<times> run_queue" where
  "unlink_at h q prev c =
     (let next = p_rq_next (h c);
          h1 = (case prev of None \<Rightarrow> h | Some pr \<Rightarrow> upd pr (set_next next) h);
          q1 = (if prev = None then q\<lparr>rq_head := next\<rparr> else q);
          q2 = (if rq_tail q1 = Some c then q1\<lparr>rq_tail := prev\<rparr> else q1)
      in (upd c (\<lambda>t. t\<lparr>p_rq_next := None, p_on_rq := False\<rparr>) h1,
          q2\<lparr>rq_len := saturating_sub (rq_len q2) 1\<rparr>))"

partial_function (option) pop_walk :: "heap \<Rightarrow> run_queue \<Rightarrow> u64 option \<Rightarrow> u64 option \<Rightarrow> (u64 option \<times> heap \<times> run_queue) option" where
  "pop_walk h q prev cur =
     (if cur = None then Some (None, h, q)
      else if \<not> p_is_idle (h (the cur)) then Some (cur, unlink_at h q prev (the cur))
      else pop_walk h q cur (p_rq_next (h (the cur))))"

definition rq_pop_min :: "heap \<Rightarrow> run_queue \<Rightarrow> (u64 option \<times> heap \<times> run_queue) option" where
  "rq_pop_min h q = (if rq_head q = None then Some (None, h, q) else pop_walk h q None (rq_head q))"

definition rq_peek_min_vr :: "heap \<Rightarrow> run_queue \<Rightarrow> u64 option" where
  "rq_peek_min_vr h q = map_option (\<lambda>p. p_vruntime (h p)) (rq_head q)"

partial_function (option) non_idle_walk :: "heap \<Rightarrow> u64 option \<Rightarrow> bool option" where
  "non_idle_walk h cur =
     (if cur = None then Some False
      else if \<not> p_is_idle (h (the cur)) then Some True
      else non_idle_walk h (p_rq_next (h (the cur))))"

definition rq_has_non_idle :: "heap \<Rightarrow> run_queue \<Rightarrow> bool option" where
  "rq_has_non_idle h q = non_idle_walk h (rq_head q)"

partial_function (option) remove_walk :: "u64 \<Rightarrow> heap \<Rightarrow> run_queue \<Rightarrow> u64 \<Rightarrow> (bool \<times> heap \<times> run_queue) option" where
  "remove_walk pid h q cur =
     (case p_rq_next (h cur) of
        None \<Rightarrow> Some (False, h, q)
      | Some next \<Rightarrow>
          if next = pid then Some (True, unlink_at h q (Some cur) next)
          else remove_walk pid h q next)"

definition rq_remove :: "u64 \<Rightarrow> heap \<Rightarrow> run_queue \<Rightarrow> (bool \<times> heap \<times> run_queue) option" where
  "rq_remove pid h q =
     (case rq_head q of
        None \<Rightarrow> Some (False, h, q)
      | Some p \<Rightarrow>
          if p = pid then Some (True, unlink_at h q None p)
          else remove_walk pid h q p)"

section \<open>Chains of tasks\<close>

primrec chain :: "heap \<Rightarrow> u64 option \<Rightarrow> u64 list \<Rightarrow> bool" where
  "chain h x [] = (x = None)"
| "chain h x (a # as) = (x = Some a \<and> chain h (p_rq_next (h a)) as)"

abbreviation earlier :: "heap \<Rightarrow> u64 \<Rightarrow> u64 \<Rightarrow> bool" where
  "earlier h x y \<equiv> goes_before (p_vruntime (h x)) x (p_vruntime (h y)) y"

fun first_of :: "u64 list \<Rightarrow> u64 option" where
  "first_of [] = None"
| "first_of (x # _) = Some x"

abbreviation last_of :: "u64 option \<Rightarrow> u64 list \<Rightarrow> u64 option" where
  "last_of d xs \<equiv> (if xs = [] then d else Some (last xs))"

text \<open>The list a queue stands for.\<close>

definition queue :: "heap \<Rightarrow> run_queue \<Rightarrow> u64 list \<Rightarrow> bool" where
  "queue h q xs = (chain h (rq_head q) xs \<and> rq_tail q = last_of None xs \<and> unat (rq_len q) = length xs
     \<and> (\<forall>x\<in>set xs. p_on_rq (h x)) \<and> sorted_wrt (earlier h) xs)"

text \<open>Two memories that differ in the links of the queue only.\<close>

definition same_tasks :: "heap \<Rightarrow> heap \<Rightarrow> bool" where
  "same_tasks h h' = (\<forall>x. (h x)\<lparr>p_rq_next := None, p_on_rq := False\<rparr> = (h' x)\<lparr>p_rq_next := None, p_on_rq := False\<rparr>)"

lemma goes_before_order:
  "\<not> goes_before v p v p"
  "goes_before v p v' p' \<Longrightarrow> goes_before v' p' v'' p'' \<Longrightarrow> goes_before v p v'' p''"
  "p \<noteq> p' \<Longrightarrow> \<not> goes_before v p v' p' \<longleftrightarrow> goes_before v' p' v p"
  by (auto simp: goes_before_def)

lemma earlier_distinct: "sorted_wrt (earlier h) xs \<Longrightarrow> distinct xs"
  by (induction xs) (auto simp: goes_before_order(1))

lemma chain_first: "chain h x xs \<Longrightarrow> x = first_of xs"
  by (cases xs) simp_all

lemma chain_frame: "(\<forall>y\<in>set xs. h' y = h y) \<Longrightarrow> chain h' x xs = chain h x xs"
  by (induction xs arbitrary: x) auto

lemma chain_None [simp]: "chain h None xs \<longleftrightarrow> xs = []"
  by (cases xs) simp_all

lemma chain_unique: "chain h x xs \<Longrightarrow> chain h x ys \<Longrightarrow> xs = ys"
proof (induction xs arbitrary: x ys)
  case (Cons a xs)
  then show ?case by (cases ys) auto
qed simp

lemma chain_upd [simp]: "u \<notin> set xs \<Longrightarrow> chain (h(u := t)) x xs = chain h x xs"
  by (rule chain_frame) auto

lemma chain_tail: "chain h x (as @ a # bs) \<Longrightarrow> chain h (p_rq_next (h a)) bs"
  by (induction as arbitrary: x) auto

text \<open>Replacing what follows a task of a chain.\<close>

lemma chain_relink:
  assumes "chain h x (as @ a # bs)" and "a \<notin> set as" and "\<forall>y\<in>set as. h' y = h y" and "chain h' (p_rq_next (h' a)) cs"
  shows "chain h' x (as @ a # cs)"
  using assms by (induction as arbitrary: x) auto

lemma same_tasks_refl [simp]: "same_tasks h h"
  by (simp add: same_tasks_def)

lemma same_tasks_trans: "same_tasks h h' \<Longrightarrow> same_tasks h' h'' \<Longrightarrow> same_tasks h h''"
  by (simp add: same_tasks_def)

lemma same_tasksD:
  assumes "same_tasks h h'"
  shows "p_vruntime (h' x) = p_vruntime (h x)" "p_is_idle (h' x) = p_is_idle (h x)" "p_state (h' x) = p_state (h x)"
    "p_cpu_mask (h' x) = p_cpu_mask (h x)" "p_priority (h' x) = p_priority (h x)"
proof -
  have "(h x)\<lparr>p_rq_next := None, p_on_rq := False\<rparr> = (h' x)\<lparr>p_rq_next := None, p_on_rq := False\<rparr>"
    using assms by (simp add: same_tasks_def)
  then show "p_vruntime (h' x) = p_vruntime (h x)" "p_is_idle (h' x) = p_is_idle (h x)" "p_state (h' x) = p_state (h x)"
    "p_cpu_mask (h' x) = p_cpu_mask (h x)" "p_priority (h' x) = p_priority (h x)"
    by (cases "h x", cases "h' x", simp)+
qed

lemma same_tasks_upd:
  assumes "same_tasks h h'" and "(f (h' p))\<lparr>p_rq_next := None, p_on_rq := False\<rparr> = (h' p)\<lparr>p_rq_next := None, p_on_rq := False\<rparr>"
  shows "same_tasks h (upd p f h')"
  using assms by (auto simp: same_tasks_def)

lemma earlier_cong: "(\<forall>x\<in>set xs. p_vruntime (h' x) = p_vruntime (h x)) \<Longrightarrow> sorted_wrt (earlier h') xs = sorted_wrt (earlier h) xs"
  by (induction xs) auto

lemma queue_cong:
  assumes "queue h q xs"
    and "\<And>x. x \<in> set xs \<Longrightarrow> p_rq_next (h' x) = p_rq_next (h x) \<and> p_on_rq (h' x) = p_on_rq (h x) \<and> p_vruntime (h' x) = p_vruntime (h x)"
  shows "queue h' q xs"
proof -
  have "chain h' x xs = chain h x xs" for x using assms(2) by (induction xs arbitrary: x) auto
  then show ?thesis using assms earlier_cong [of xs h' h] by (simp add: queue_def)
qed

section \<open>Insertion\<close>

definition place :: "heap \<Rightarrow> u64 \<Rightarrow> u64 list \<Rightarrow> u64 list" where
  "place h p xs = takeWhile (\<lambda>y. earlier h y p) xs @ p # dropWhile (\<lambda>y. earlier h y p) xs"

lemma set_place [simp]: "set (place h p xs) = insert p (set xs)"
proof -
  have "set (takeWhile P xs) \<union> set (dropWhile P xs) = set xs" for P by (simp flip: set_append)
  then show ?thesis by (simp add: place_def)
qed

lemma length_place [simp]: "length (place h p xs) = Suc (length xs)"
proof -
  have "length (takeWhile P xs) + length (dropWhile P xs) = length xs" for P by (simp flip: length_append)
  then show ?thesis by (simp add: place_def)
qed

lemma sorted_place:
  assumes "sorted_wrt (earlier h) xs" and "p \<notin> set xs"
  shows "sorted_wrt (earlier h) (place h p xs)"
  using assms
proof (induction xs)
  case (Cons x xs)
  show ?case
  proof (cases "earlier h x p")
    case True
    have "place h p (x # xs) = x # place h p xs" using True by (simp add: place_def)
    then show ?thesis using Cons True by simp
  next
    case False
    then have px: "earlier h p x" using Cons.prems(2) by (auto simp: goes_before_def)
    then have "\<forall>y\<in>set xs. earlier h p y" using Cons.prems(1) goes_before_order(2) [OF px] by simp
    then show ?thesis using False px Cons.prems(1) by (simp add: place_def)
  qed
qed (simp add: place_def)

lemma set_next_same: "p_rq_next t = n \<Longrightarrow> set_next n t = t"
  by (cases t) simp

lemma next_on_rq: "set_next n (t\<lparr>p_on_rq := b\<rparr>) = (set_next n t)\<lparr>p_on_rq := b\<rparr>"
  by (cases t) simp

lemma push_walk_eq:
  assumes "chain h (p_rq_next (h cur)) ys" and "p_rq_next (h p) = None"
  shows "push_walk p v h q cur =
    (let as = takeWhile (\<lambda>y. \<not> goes_before v p (p_vruntime (h y)) y) ys; bs = dropWhile (\<lambda>y. \<not> goes_before v p (p_vruntime (h y)) y) ys
     in Some (upd (last (cur # as)) (set_next (Some p)) (upd p (set_next (first_of bs)) h), if bs = [] then q\<lparr>rq_tail := Some p\<rparr> else q))"
  using assms
proof (induction ys arbitrary: cur)
  case Nil
  have "upd p (set_next None) h = h" using set_next_same [OF Nil(2)] by simp
  then show ?case using Nil(1) unfolding takeWhile.simps dropWhile.simps Let_def first_of.simps by (simp add: push_walk.simps)
next
  case (Cons y ys)
  then have n: "p_rq_next (h cur) = Some y" "chain h (p_rq_next (h y)) ys" by simp_all
  show ?case
  proof (cases "goes_before v p (p_vruntime (h y)) y")
    case True
    then have w: "dropWhile (\<lambda>y. \<not> goes_before v p (p_vruntime (h y)) y) (y # ys) = y # ys"
      "takeWhile (\<lambda>y. \<not> goes_before v p (p_vruntime (h y)) y) (y # ys) = []" by simp_all
    show ?thesis using n(1) True unfolding w Let_def first_of.simps by (simp add: push_walk.simps)
  next
    case False
    then have "push_walk p v h q cur = push_walk p v h q y" using n(1) by (subst push_walk.simps) simp
    moreover have w: "dropWhile (\<lambda>y. \<not> goes_before v p (p_vruntime (h y)) y) (y # ys) = dropWhile (\<lambda>y. \<not> goes_before v p (p_vruntime (h y)) y) ys"
      "takeWhile (\<lambda>y. \<not> goes_before v p (p_vruntime (h y)) y) (y # ys) = y # takeWhile (\<lambda>y. \<not> goes_before v p (p_vruntime (h y)) y) ys"
      using False by simp_all
    moreover have l: "last (cur # y # as) = last (y # as)" for as by simp
    ultimately show ?thesis using Cons.IH [OF n(2) Cons.prems(2)] unfolding w Let_def l by simp
  qed
qed

text \<open>The memory and the queue with \<open>p\<close> linked between \<open>as\<close> and \<open>bs\<close>.\<close>

definition linked :: "heap \<Rightarrow> run_queue \<Rightarrow> u64 list \<Rightarrow> u64 \<Rightarrow> u64 list \<Rightarrow> heap \<times> run_queue" where
  "linked h q as p bs =
     (let h1 = upd p (\<lambda>t. t\<lparr>p_rq_next := first_of bs, p_on_rq := True\<rparr>) h
      in (if as = [] then h1 else upd (last as) (set_next (Some p)) h1,
          \<lparr>rq_head = (if as = [] then Some p else rq_head q), rq_tail = (if bs = [] then Some p else rq_tail q), rq_len = rq_len q + 1\<rparr>))"

lemma linked_same: "same_tasks h (fst (linked h q as p bs))"
  by (auto simp: linked_def same_tasks_def Let_def)

lemma linked_frame: "x \<noteq> p \<Longrightarrow> as = [] \<or> x \<noteq> last as \<Longrightarrow> fst (linked h q as p bs) x = h x"
  by (auto simp: linked_def Let_def)

lemma linked_on_rq: "p_on_rq (fst (linked h q as p bs) x) = (x = p \<or> p_on_rq (h x))"
  by (auto simp: linked_def Let_def)

lemma chain_linked:
  assumes "chain h x (as @ bs)" and "distinct (as @ bs)" and "p \<notin> set (as @ bs)"
  shows "chain (fst (linked h q as p bs)) (if as = [] then Some p else x) (as @ p # bs)"
proof (cases as rule: rev_cases)
  case Nil
  then show ?thesis using assms chain_first [of h x bs] by (simp add: linked_def)
next
  case (snoc cs l)
  let ?h = "fst (linked h q as p bs)"
  have "chain h (p_rq_next (h l)) bs" using assms(1) snoc by (auto intro: chain_tail)
  then have "chain ?h (p_rq_next (h l)) bs" using assms(2,3) snoc by (simp add: linked_def)
  then have "chain ?h (first_of bs) bs" using chain_first [of ?h "p_rq_next (h l)" bs] by simp
  then have rest: "chain ?h (p_rq_next (?h l)) (p # bs)" using assms(3) snoc by (auto simp: linked_def)
  have "chain h x (cs @ l # bs)" "l \<notin> set cs" using assms(1,2) snoc by simp_all
  moreover have "\<forall>y\<in>set cs. ?h y = h y"
  proof
    fix y assume "y \<in> set cs"
    then have "y \<noteq> p" "y \<noteq> last as" using assms(2,3) snoc by auto
    then show "?h y = h y" using linked_frame by simp
  qed
  ultimately have "chain ?h x (cs @ l # p # bs)" using rest by (rule chain_relink)
  then show ?thesis using snoc by simp
qed

lemma queue_linked:
  assumes "queue h q (as @ bs)" and "p \<notin> set (as @ bs)" and "sorted_wrt (earlier h) (as @ p # bs)"
    and "Suc (length (as @ bs)) < 2 ^ 64"
  shows "queue (fst (linked h q as p bs)) (snd (linked h q as p bs)) (as @ p # bs)"
proof -
  have d: "distinct (as @ bs)" using assms(1) earlier_distinct [of h "as @ bs"] unfolding queue_def by blast
  have "chain h (rq_head q) (as @ bs)" using assms(1) by (simp add: queue_def)
  from chain_linked [OF this d assms(2)]
  have c: "chain (fst (linked h q as p bs)) (rq_head (snd (linked h q as p bs))) (as @ p # bs)" by (simp add: linked_def Let_def)
  have t: "rq_tail (snd (linked h q as p bs)) = last_of None (as @ p # bs)"
    using assms(1) by (auto simp: queue_def linked_def Let_def)
  have l: "unat (rq_len (snd (linked h q as p bs))) = length (as @ p # bs)"
    using assms(1,4) by (simp add: queue_def linked_def Let_def unat_word_ariths)
  have s: "sorted_wrt (earlier (fst (linked h q as p bs))) (as @ p # bs)"
    using assms(3) earlier_cong [of "as @ p # bs" "fst (linked h q as p bs)" h] same_tasksD(1) [OF linked_same] by blast
  have o: "\<forall>x\<in>set (as @ p # bs). p_on_rq (fst (linked h q as p bs) x)"
    using assms(1) by (auto simp: queue_def linked_on_rq)
  show ?thesis unfolding queue_def using c t l s o by blast
qed

lemma all_earlier:
  assumes "sorted_wrt (earlier h) xs" and "xs \<noteq> []" and "earlier h (last xs) p" and "y \<in> set xs"
  shows "earlier h y p"
proof (cases "y = last xs")
  case False
  have "sorted_wrt (earlier h) (butlast xs @ [last xs])" using assms(1,2) by simp
  moreover have "set xs = insert (last xs) (set (butlast xs))" using arg_cong [of _ _ set, OF append_butlast_last_id [OF assms(2)]] by simp
  then have "y \<in> set (butlast xs)" using assms(4) False by simp
  ultimately have "earlier h y (last xs)" unfolding sorted_wrt_append by simp
  then show ?thesis using assms(3) goes_before_order(2) by blast
qed (use assms in simp)

lemma not_in_queue: "queue h q xs \<Longrightarrow> \<not> p_on_rq (h p) \<Longrightarrow> p \<notin> set xs"
  by (auto simp: queue_def)

lemma rq_push_eq:
  assumes "queue h q xs" and "\<not> p_on_rq (h p)"
  shows "rq_push_sorted p h q = Some (linked h q (takeWhile (\<lambda>y. earlier h y p) xs) p (dropWhile (\<lambda>y. earlier h y p) xs))"
proof (cases xs)
  case Nil
  then have "rq_head q = None" "rq_len q = 0" using assms(1) by (simp_all add: queue_def unat_eq_0)
  with Nil show ?thesis using assms(2) by (cases q) (simp add: rq_push_sorted_def linked_def Let_def)
next
  case (Cons x ys)
  have p: "p \<noteq> x" "p \<notin> set ys" using not_in_queue [OF assms] Cons by auto
  have hd: "rq_head q = Some x" and tl: "rq_tail q = Some (last xs)" and ch: "chain h (p_rq_next (h x)) ys"
    using assms(1) Cons by (simp_all add: queue_def)
  let ?v = "p_vruntime (h p)" and ?h1 = "upd p (\<lambda>t. t\<lparr>p_rq_next := None, p_on_rq := True\<rparr>) h"
  show ?thesis
  proof (cases "earlier h x p")
    case False
    then have b: "goes_before ?v p (p_vruntime (h x)) x" using goes_before_order(3) p(1) by metis
    have w: "takeWhile (\<lambda>y. earlier h y p) xs = []" "dropWhile (\<lambda>y. earlier h y p) xs = x # ys" using False Cons by simp_all
    show ?thesis unfolding w using assms(2) hd b p(1)
      by (cases q) (simp add: rq_push_sorted_def linked_def Let_def next_on_rq)
  next
    case xp: True
    then have nb: "\<not> goes_before ?v p (p_vruntime (h x)) x" using goes_before_order(3) p(1) by metis
    have lx: "last xs \<noteq> p" using p Cons by (auto split: if_splits)
    show ?thesis
    proof (cases "earlier h (last xs) p")
      case True
      have "sorted_wrt (earlier h) xs" "xs \<noteq> []" using assms(1) Cons by (simp_all add: queue_def)
      then have "\<forall>y\<in>set xs. earlier h y p" using all_earlier [OF _ _ True] by blast
      then have w: "takeWhile (\<lambda>y. earlier h y p) xs = xs" "dropWhile (\<lambda>y. earlier h y p) xs = []" by simp_all
      show ?thesis unfolding w using assms(2) hd tl nb True lx p(1) Cons
        by (cases q) (simp add: rq_push_sorted_def linked_def Let_def next_on_rq)
    next
      case False
      have pred: "(\<not> goes_before ?v p (p_vruntime (?h1 y)) y) = earlier h y p" if "y \<in> set ys" for y
        using that p goes_before_order(3) [of p y] by auto
      define as bs where "as = takeWhile (\<lambda>y. earlier h y p) ys" and "bs = dropWhile (\<lambda>y. earlier h y p) ys"
      have w: "takeWhile (\<lambda>y. earlier h y p) xs = x # as" "dropWhile (\<lambda>y. earlier h y p) xs = bs"
        using xp Cons by (simp_all add: as_def bs_def)
      have ne: "bs \<noteq> []" using False Cons xp by (auto simp: bs_def dropWhile_eq_Nil_conv split: if_splits)
      have tw: "takeWhile (\<lambda>y. \<not> goes_before ?v p (p_vruntime (?h1 y)) y) ys = as"
        unfolding as_def by (rule takeWhile_cong [OF refl pred])
      have dw: "dropWhile (\<lambda>y. \<not> goes_before ?v p (p_vruntime (?h1 y)) y) ys = bs"
        unfolding bs_def by (rule dropWhile_cong [OF refl pred])
      have "chain ?h1 (p_rq_next (?h1 x)) ys" "p_rq_next (?h1 p) = None" using ch p by simp_all
      from push_walk_eq [OF this, of ?v q]
      have "push_walk p ?v ?h1 q x = Some (upd (last (x # as)) (set_next (Some p)) (upd p (set_next (first_of bs)) ?h1), q)"
        unfolding tw dw Let_def if_not_P [OF ne] .
      then show ?thesis unfolding w using assms(2) hd tl nb False lx p(1) ne
        by (cases q) (simp add: rq_push_sorted_def linked_def Let_def next_on_rq)
    qed
  qed
qed

lemma rq_push_ok:
  assumes "queue h q xs" and "\<not> p_on_rq (h p)" and "Suc (length xs) < 2 ^ 64"
  shows "\<exists>h' q'. rq_push_sorted p h q = Some (h', q') \<and> queue h' q' (place h p xs) \<and> same_tasks h h'
    \<and> (\<forall>x. p_on_rq (h' x) = (x = p \<or> p_on_rq (h x))) \<and> (\<forall>x. x \<notin> insert p (set xs) \<longrightarrow> h' x = h x)"
proof -
  let ?as = "takeWhile (\<lambda>y. earlier h y p) xs" and ?bs = "dropWhile (\<lambda>y. earlier h y p) xs"
  have p: "p \<notin> set xs" by (rule not_in_queue [OF assms(1,2)])
  have "sorted_wrt (earlier h) (place h p xs)" using sorted_place [OF _ p] assms(1) by (simp add: queue_def)
  then have "queue (fst (linked h q ?as p ?bs)) (snd (linked h q ?as p ?bs)) (place h p xs)"
    unfolding place_def by (intro queue_linked) (use assms p in simp_all)
  moreover have "fst (linked h q ?as p ?bs) x = h x" if "x \<notin> insert p (set xs)" for x
  proof -
    have "?as = [] \<or> x \<noteq> last ?as" using that last_in_set set_takeWhileD [of _ "\<lambda>y. earlier h y p" xs] by blast
    then show ?thesis using linked_frame that by simp
  qed
  moreover have "rq_push_sorted p h q = Some (fst (linked h q ?as p ?bs), snd (linked h q ?as p ?bs))"
    using rq_push_eq [OF assms(1,2)] by simp
  ultimately show ?thesis using linked_same linked_on_rq by blast
qed

section \<open>Removal\<close>

lemma unlink_same: "same_tasks h (fst (unlink_at h q prev c))"
  by (auto simp: unlink_at_def same_tasks_def Let_def split: option.split)

lemma unlink_on_rq: "p_on_rq (fst (unlink_at h q prev c) x) = (x \<noteq> c \<and> p_on_rq (h x))"
  by (auto simp: unlink_at_def Let_def split: option.split)

lemma unlink_frame: "x \<noteq> c \<Longrightarrow> Some x \<noteq> prev \<Longrightarrow> fst (unlink_at h q prev c) x = h x"
  by (auto simp: unlink_at_def Let_def split: option.split)

lemma unlink_next: "pr \<noteq> c \<Longrightarrow> p_rq_next (fst (unlink_at h q (Some pr) c) pr) = p_rq_next (h c)"
  by (simp add: unlink_at_def Let_def)

lemma chain_unlink:
  assumes "chain h x (as @ c # bs)" and "distinct (as @ c # bs)"
  shows "chain (fst (unlink_at h q (last_of None as) c)) (if as = [] then p_rq_next (h c) else x) (as @ bs)"
proof (cases as rule: rev_cases)
  case Nil
  have "chain h (p_rq_next (h c)) bs" using assms(1) Nil by simp
  then show ?thesis using assms(2) Nil by (simp add: unlink_at_def Let_def)
next
  case (snoc cs l)
  let ?h = "fst (unlink_at h q (Some l) c)"
  have l: "l \<noteq> c" "l \<notin> set cs" "l \<notin> set bs" "c \<notin> set bs" "c \<notin> set cs" using assms(2) snoc by auto
  have same: "?h y = h y" if "y \<noteq> l" "y \<noteq> c" for y using that unlink_frame [of y c "Some l" h q] by simp
  have bs: "\<forall>y\<in>set bs. ?h y = h y" and cs: "\<forall>y\<in>set cs. ?h y = h y" using l same by metis+
  have "chain h (p_rq_next (h c)) bs" using assms(1) chain_tail [of h x as c bs] by simp
  then have rest: "chain ?h (p_rq_next (?h l)) bs" using chain_frame [OF bs] unlink_next [OF l(1), of h q] by simp
  have "chain h x (cs @ l # c # bs)" using assms(1) snoc by simp
  from chain_relink [OF this l(2) cs rest] have "chain ?h x (cs @ l # bs)" .
  then show ?thesis using snoc by simp
qed

lemma queue_unlink:
  assumes "queue h q (as @ c # bs)"
  shows "queue (fst (unlink_at h q (last_of None as) c)) (snd (unlink_at h q (last_of None as) c)) (as @ bs)"
proof -
  let ?h = "fst (unlink_at h q (last_of None as) c)" and ?q = "snd (unlink_at h q (last_of None as) c)"
  have d: "distinct (as @ c # bs)" using assms earlier_distinct [of h "as @ c # bs"] unfolding queue_def by blast
  have ch: "chain h (rq_head q) (as @ c # bs)" using assms by (simp add: queue_def)
  have head: "rq_head ?q = (if as = [] then p_rq_next (h c) else rq_head q)" by (auto simp: unlink_at_def Let_def)
  have c: "chain ?h (rq_head ?q) (as @ bs)" unfolding head by (rule chain_unlink [OF ch d])
  have "last (c # bs) = c \<longleftrightarrow> bs = []" using d by (cases bs rule: rev_cases) auto
  then have t: "rq_tail ?q = last_of None (as @ bs)" using assms by (auto simp: queue_def unlink_at_def Let_def)
  have l: "unat (rq_len ?q) = length (as @ bs)" using assms by (simp add: queue_def unlink_at_def Let_def unat_saturating_sub)
  have "sorted_wrt (earlier h) (as @ bs)" using assms by (simp add: queue_def sorted_wrt_append)
  then have s: "sorted_wrt (earlier ?h) (as @ bs)"
    using earlier_cong [of "as @ bs" ?h h] same_tasksD(1) [OF unlink_same] by blast
  have o: "\<forall>x\<in>set (as @ bs). p_on_rq (?h x)" using assms d by (auto simp: queue_def unlink_on_rq)
  show ?thesis unfolding queue_def using c t l s o by blast
qed

lemma pop_walk_eq:
  "chain h cur ys \<Longrightarrow> pop_walk h q prev cur =
     (case dropWhile (\<lambda>y. p_is_idle (h y)) ys of
        [] \<Rightarrow> Some (None, h, q)
      | c # _ \<Rightarrow> Some (Some c, unlink_at h q (last_of prev (takeWhile (\<lambda>y. p_is_idle (h y)) ys)) c))"
proof (induction ys arbitrary: cur prev)
  case (Cons y ys)
  then show ?case
  proof (cases "p_is_idle (h y)")
    case True
    have "pop_walk h q prev cur = pop_walk h q (Some y) (p_rq_next (h y))"
      using Cons.prems True by (subst pop_walk.simps) simp
    also have "\<dots> = (case dropWhile (\<lambda>y. p_is_idle (h y)) ys of
        [] \<Rightarrow> Some (None, h, q)
      | c # _ \<Rightarrow> Some (Some c, unlink_at h q (last_of (Some y) (takeWhile (\<lambda>y. p_is_idle (h y)) ys)) c))"
      using Cons by simp
    finally show ?thesis using True by (cases "dropWhile (\<lambda>y. p_is_idle (h y)) ys") (simp_all del: dropWhile_eq_Nil_conv)
  qed (simp add: pop_walk.simps)
qed (simp add: pop_walk.simps)

lemma non_idle_walk_eq: "chain h cur ys \<Longrightarrow> non_idle_walk h cur = Some (\<exists>y\<in>set ys. \<not> p_is_idle (h y))"
proof (induction ys arbitrary: cur)
  case (Cons y ys)
  then show ?case by (cases "p_is_idle (h y)") (simp_all add: non_idle_walk.simps [of h "Some y"])
qed (simp add: non_idle_walk.simps)

lemma remove_walk_eq:
  "chain h (p_rq_next (h cur)) ys \<Longrightarrow> remove_walk pid h q cur =
     (case dropWhile (\<lambda>y. y \<noteq> pid) ys of
        [] \<Rightarrow> Some (False, h, q)
      | c # _ \<Rightarrow> Some (True, unlink_at h q (Some (last (cur # takeWhile (\<lambda>y. y \<noteq> pid) ys))) c))"
proof (induction ys arbitrary: cur)
  case (Cons y ys)
  then have n: "p_rq_next (h cur) = Some y" "chain h (p_rq_next (h y)) ys" by simp_all
  show ?case
  proof (cases "y = pid")
    case False
    then have "remove_walk pid h q cur = remove_walk pid h q y" using n(1) by (subst remove_walk.simps) simp
    then show ?thesis using Cons.IH [OF n(2)] False by (cases "dropWhile (\<lambda>y. y \<noteq> pid) ys") (simp_all del: dropWhile_eq_Nil_conv)
  qed (use n in \<open>simp add: remove_walk.simps\<close>)
qed (simp add: remove_walk.simps)

lemma unlink_ok:
  assumes "queue h q xs" and "xs = as @ c # bs" and "c \<notin> set as" and "pr = last_of None as"
  shows "\<exists>h' q'. unlink_at h q pr c = (h', q') \<and> queue h' q' (remove1 c xs) \<and> same_tasks h h'
    \<and> (\<forall>x. p_on_rq (h' x) = (x \<noteq> c \<and> p_on_rq (h x))) \<and> (\<forall>x. x \<notin> set xs \<longrightarrow> h' x = h x)"
proof -
  let ?u = "unlink_at h q (last_of None as) c"
  have "remove1 c xs = as @ bs" using assms(2,3) by (simp add: remove1_append)
  then have "queue (fst ?u) (snd ?u) (remove1 c xs)" using queue_unlink [of h q as c bs] assms(1,2) by simp
  moreover have "fst ?u x = h x" if "x \<notin> set xs" for x
  proof (rule unlink_frame)
    show "x \<noteq> c" "Some x \<noteq> last_of None as" using that assms(2) last_in_set [of as] by (auto split: if_splits)
  qed
  moreover have "?u = (fst ?u, snd ?u)" by simp
  ultimately show ?thesis unfolding assms(4) using unlink_same unlink_on_rq by blast
qed

lemma dropWhile_split: "dropWhile P xs = c # bs \<Longrightarrow> xs = takeWhile P xs @ c # bs \<and> \<not> P c \<and> (\<forall>y\<in>set (takeWhile P xs). P y)"
  by (metis dropWhile_eq_Cons_conv set_takeWhileD takeWhile_dropWhile_id)

lemma rq_pop_ok:
  assumes "queue h q xs"
  shows "case find (\<lambda>x. \<not> p_is_idle (h x)) xs of
     None \<Rightarrow> rq_pop_min h q = Some (None, h, q)
   | Some c \<Rightarrow> \<exists>h' q'. rq_pop_min h q = Some (Some c, h', q') \<and> queue h' q' (remove1 c xs) \<and> same_tasks h h'
       \<and> (\<forall>x. p_on_rq (h' x) = (x \<noteq> c \<and> p_on_rq (h x))) \<and> (\<forall>x. x \<notin> set xs \<longrightarrow> h' x = h x)"
proof -
  let ?P = "\<lambda>y. p_is_idle (h y)"
  have ch: "chain h (rq_head q) xs" using assms by (simp add: queue_def)
  have pop: "rq_pop_min h q = pop_walk h q None (rq_head q)" by (simp add: rq_pop_min_def pop_walk.simps [of h q None None])
  show ?thesis
  proof (cases "dropWhile ?P xs")
    case Nil
    then show ?thesis using pop_walk_eq [OF ch, of q None] pop by (simp add: find_dropWhile comp_def del: dropWhile_eq_Nil_conv)
  next
    case (Cons c bs)
    note d = dropWhile_split [OF Cons]
    have "find (\<lambda>x. \<not> p_is_idle (h x)) xs = Some c" using Cons by (simp add: find_dropWhile comp_def)
    moreover have "rq_pop_min h q = Some (Some c, unlink_at h q (last_of None (takeWhile ?P xs)) c)"
      using pop_walk_eq [OF ch, of q None] pop Cons by simp
    moreover have "c \<notin> set (takeWhile ?P xs)" using d by blast
    ultimately show ?thesis using unlink_ok [OF assms, of "takeWhile ?P xs" c bs] d by auto
  qed
qed

lemma rq_remove_ok:
  assumes "queue h q xs"
  shows "\<exists>h' q'. rq_remove c h q = Some (c \<in> set xs, h', q') \<and> queue h' q' (remove1 c xs) \<and> same_tasks h h'
    \<and> (\<forall>x. p_on_rq (h' x) = ((x \<noteq> c \<or> c \<notin> set xs) \<and> p_on_rq (h x))) \<and> (\<forall>x. x \<notin> set xs \<longrightarrow> h' x = h x)"
proof (cases xs)
  case Nil
  then show ?thesis using assms by (auto simp: rq_remove_def queue_def)
next
  case (Cons x ys)
  have hd: "rq_head q = Some x" and ch: "chain h (p_rq_next (h x)) ys" using assms Cons by (simp_all add: queue_def)
  show ?thesis
  proof (cases "x = c")
    case True
    then have "rq_remove c h q = Some (True, unlink_at h q None c)" using hd by (simp add: rq_remove_def)
    then show ?thesis using unlink_ok [OF assms, of "[]" c ys None] Cons True by auto
  next
    case False
    then have rm: "rq_remove c h q = remove_walk c h q x" using hd by (simp add: rq_remove_def)
    show ?thesis
    proof (cases "dropWhile (\<lambda>y. y \<noteq> c) ys")
      case Nil
      then have "c \<notin> set xs" using False Cons by (simp add: dropWhile_eq_Nil_conv) blast
      moreover have "rq_remove c h q = Some (False, h, q)" using rm remove_walk_eq [OF ch, of c q] Nil by simp
      ultimately show ?thesis using assms by (simp add: remove1_idem)
    next
      case (Cons c' bs)
      note d = dropWhile_split [OF this]
      let ?as = "x # takeWhile (\<lambda>y. y \<noteq> c) ys"
      have "rq_remove c h q = Some (True, unlink_at h q (Some (last ?as)) c)" using rm remove_walk_eq [OF ch, of c q] Cons d by simp
      moreover have xs: "xs = ?as @ c # bs" using d \<open>xs = x # ys\<close> by auto
      moreover have "c \<notin> set ?as" using d False by auto
      moreover have "c \<in> set xs" unfolding xs by simp
      ultimately show ?thesis using unlink_ok [OF assms, of ?as c bs "Some (last ?as)"] by auto
    qed
  qed
qed

text \<open>C10: The linked run queue is a list of tasks in the order of virtual run time and process
  number. On a well-formed queue every operation returns. A push puts the task at its place, and
  does nothing if the task is queued already; a pop takes the first task that is not idle, and
  leaves the queue as it is if there is none; a removal takes the task out if it is there. What
  the tasks hold besides their links does not change.\<close>

theorem run_queue_refines_list:
  assumes "queue h q xs"
  shows "(\<not> p_on_rq (h p) \<and> Suc (length xs) < 2 ^ 64 \<longrightarrow>
       (\<exists>h' q'. rq_push_sorted p h q = Some (h', q') \<and> queue h' q' (place h p xs) \<and> same_tasks h h'))
   \<and> (p_on_rq (h p) \<longrightarrow> rq_push_sorted p h q = Some (h, q))
   \<and> (\<exists>h' q'. rq_pop_min h q = Some (find (\<lambda>x. \<not> p_is_idle (h x)) xs, h', q') \<and> same_tasks h h'
        \<and> queue h' q' (case find (\<lambda>x. \<not> p_is_idle (h x)) xs of None \<Rightarrow> xs | Some c \<Rightarrow> remove1 c xs))
   \<and> (\<exists>h' q'. rq_remove p h q = Some (p \<in> set xs, h', q') \<and> queue h' q' (remove1 p xs) \<and> same_tasks h h')
   \<and> rq_has_non_idle h q = Some (\<exists>x\<in>set xs. \<not> p_is_idle (h x))
   \<and> rq_peek_min_vr h q = map_option (\<lambda>x. p_vruntime (h x)) (first_of xs)"
proof (intro conjI impI)
  assume "\<not> p_on_rq (h p) \<and> Suc (length xs) < 2 ^ 64"
  then show "\<exists>h' q'. rq_push_sorted p h q = Some (h', q') \<and> queue h' q' (place h p xs) \<and> same_tasks h h'"
    using rq_push_ok [OF assms] by blast
next
  show "\<exists>h' q'. rq_pop_min h q = Some (find (\<lambda>x. \<not> p_is_idle (h x)) xs, h', q') \<and> same_tasks h h'
      \<and> queue h' q' (case find (\<lambda>x. \<not> p_is_idle (h x)) xs of None \<Rightarrow> xs | Some c \<Rightarrow> remove1 c xs)"
    using rq_pop_ok [OF assms] assms by (cases "find (\<lambda>x. \<not> p_is_idle (h x)) xs") auto
next
  show "\<exists>h' q'. rq_remove p h q = Some (p \<in> set xs, h', q') \<and> queue h' q' (remove1 p xs) \<and> same_tasks h h'"
    using rq_remove_ok [OF assms, of p] by blast
next
  have ch: "chain h (rq_head q) xs" using assms by (simp add: queue_def)
  show "rq_has_non_idle h q = Some (\<exists>x\<in>set xs. \<not> p_is_idle (h x))"
    unfolding rq_has_non_idle_def by (rule non_idle_walk_eq [OF ch])
  show "rq_peek_min_vr h q = map_option (\<lambda>x. p_vruntime (h x)) (first_of xs)"
    using chain_first [OF ch] by (simp add: rq_peek_min_vr_def)
qed (simp add: rq_push_sorted_def)

text \<open>Tasks 3 and 5 are queued; task 4 goes between them, and task 3 is the first to run.\<close>

definition demo_task :: task where
  "demo_task = \<lparr>p_is_idle = False, p_priority = 10, p_cpu_mask = - 1, p_cr3 = 0, p_rsp = 0, p_saved_user_rsp = 0,
     p_state = STATE_READY, p_sleep_until = 0, p_blocked_cause = 0, p_vruntime = 0, p_cpu_time = 0,
     p_window_cpu_ticks = 0, p_window_start = 0, p_last_run_tick = 0, p_preempt_count = 0, p_sleep_count = 0,
     p_switch_in_count = 0, p_rq_next = None, p_on_rq = False, p_stack_top = 0, p_ppid = 0, p_exit_code = 0\<rparr>"

definition demo_heap :: heap where
  "demo_heap p = demo_task\<lparr>p_vruntime := (if p = 3 then 10 else if p = 5 then 20 else 15),
     p_rq_next := (if p = 3 then Some 5 else None), p_on_rq := (p = 3 \<or> p = 5)\<rparr>"

definition demo_queue :: run_queue where
  "demo_queue = \<lparr>rq_head = Some 3, rq_tail = Some 5, rq_len = 2\<rparr>"

lemma demo_queue_ok: "queue demo_heap demo_queue [3, 5]"
  by (simp add: queue_def demo_queue_def demo_heap_def goes_before_def)

theorem run_queue_refines_list_witness:
  "(\<exists>h' q'. rq_push_sorted 4 demo_heap demo_queue = Some (h', q') \<and> queue h' q' [3, 4, 5])
   \<and> (\<exists>h' q'. rq_pop_min demo_heap demo_queue = Some (Some 3, h', q') \<and> queue h' q' [5])"
proof -
  have "\<not> p_on_rq (demo_heap 4)" and pl: "place demo_heap 4 [3, 5] = [3, 4, 5]" and f: "find (\<lambda>x. \<not> p_is_idle (demo_heap x)) [3, 5] = Some 3"
    by (simp_all add: demo_heap_def place_def goes_before_def demo_task_def)
  then show ?thesis using run_queue_refines_list [OF demo_queue_ok, of 4] unfolding pl f by auto
qed

end
