(* ===== verification/Sched.thy ===== *)
theory Sched
  imports RunQueue "HOL-Library.Monad_Syntax"
begin

text \<open>
  The scheduler, \<open>kernel/sched\<close>: the CPUs with their run queues, the registry of processes, one
  pass of the scheduler with stealing and the waking of sleepers, and the calls that yield, sleep,
  block, wake, spawn and kill. Every function runs as one step on the CPU \<open>me\<close>; the tick count and
  the stack pointer of the interrupted task are arguments. A result \<open>None\<close> means that a loop over
  a run queue does not end. The theory shows that on one CPU no waiting task starves.
\<close>

section \<open>CPUs and processes\<close>

abbreviation TICK_SCALE :: u64 where "TICK_SCALE \<equiv> 1000000"
abbreviation MAX_PROCS :: u64 where "MAX_PROCS \<equiv> 4096"
abbreviation MAX_CPUS :: nat where "MAX_CPUS \<equiv> 64"

text \<open>\<open>c_cr3\<close> is the page-table register of the CPU; the memory \<open>s_heap\<close> holds the boxed processes,
  \<open>s_table\<close> the keys of \<open>PROC_TABLE\<close> in order, \<open>s_index\<close> the entries of \<open>PROC_INDEX\<close> that are not
  null, and the other fields the counters of \<open>core.rs\<close>, \<open>percpu.rs\<close> and \<open>process\<close>.\<close>

record cpu =
  c_online :: bool
  c_kernel_rsp :: u64
  c_user_rsp :: u64
  c_cr3 :: u64
  c_current_pid :: u64
  c_idle_pid :: u64
  c_total_switches :: u64
  c_min_vruntime :: u64
  c_run_queue :: run_queue

record sched =
  s_heap :: heap
  s_index :: "u64 \<Rightarrow> bool"
  s_table :: "u64 list"
  s_cpus :: "nat \<Rightarrow> cpu"
  s_cpu_count :: nat
  s_sleepers :: u64
  s_total_switches :: u64
  s_next_pid :: u64

definition get_cpu :: "nat \<Rightarrow> sched \<Rightarrow> cpu" where
  "get_cpu i s = s_cpus s (min i (MAX_CPUS - 1))"

definition on_cpu :: "nat \<Rightarrow> (cpu \<Rightarrow> cpu) \<Rightarrow> sched \<Rightarrow> sched" where
  "on_cpu i f s = s\<lparr>s_cpus := (s_cpus s)(min i (MAX_CPUS - 1) := f (get_cpu i s))\<rparr>"

definition on_task :: "u64 \<Rightarrow> (task \<Rightarrow> task) \<Rightarrow> sched \<Rightarrow> sched" where
  "on_task p f s = s\<lparr>s_heap := upd p f (s_heap s)\<rparr>"

definition get_raw :: "u64 \<Rightarrow> sched \<Rightarrow> u64 option" where
  "get_raw pid s = (if pid \<ge> MAX_PROCS then None else if s_index s pid then Some pid else None)"

definition index_set :: "u64 \<Rightarrow> bool \<Rightarrow> sched \<Rightarrow> sched" where
  "index_set pid b s = (if pid \<ge> MAX_PROCS then s else s\<lparr>s_index := (s_index s)(pid := b)\<rparr>)"

definition register_process :: "u64 \<Rightarrow> task \<Rightarrow> sched \<Rightarrow> sched" where
  "register_process pid t s =
     index_set pid True (s\<lparr>s_table := (if pid \<in> set (s_table s) then s_table s else insort pid (s_table s)),
                           s_heap := (s_heap s)(pid := t)\<rparr>)"

section \<open>Run queues of CPUs\<close>

definition push_to_cpu :: "nat \<Rightarrow> u64 \<Rightarrow> sched \<Rightarrow> sched option" where
  "push_to_cpu i p s = do {
     (h, q) \<leftarrow> rq_push_sorted p (s_heap s) (c_run_queue (get_cpu i s));
     Some (on_cpu i (\<lambda>c. c\<lparr>c_run_queue := q\<rparr>) (s\<lparr>s_heap := h\<rparr>))
   }"

definition pop_from_cpu :: "nat \<Rightarrow> sched \<Rightarrow> (u64 option \<times> sched) option" where
  "pop_from_cpu i s = do {
     (r, h, q) \<leftarrow> rq_pop_min (s_heap s) (c_run_queue (get_cpu i s));
     Some (r, on_cpu i (\<lambda>c. c\<lparr>c_run_queue := q\<rparr>) (s\<lparr>s_heap := h\<rparr>))
   }"

fun steal_from :: "nat \<Rightarrow> nat list \<Rightarrow> sched \<Rightarrow> (u64 option \<times> sched) option" where
  "steal_from me [] s = Some (None, s)"
| "steal_from me (i # is) s =
     (if i = me \<or> \<not> c_online (get_cpu i s) then steal_from me is s
      else do {
        (r, s1) \<leftarrow> pop_from_cpu i s;
        case r of
          None \<Rightarrow> steal_from me is s1
        | Some p \<Rightarrow>
            if bit (p_cpu_mask (s_heap s1 p)) me then Some (Some p, s1)
            else do { s2 \<leftarrow> push_to_cpu i p s1; steal_from me is s2 }
      })"

definition try_steal_task :: "nat \<Rightarrow> sched \<Rightarrow> (u64 option \<times> sched) option" where
  "try_steal_task me s = steal_from me [0..<min (s_cpu_count s) MAX_CPUS] s"

fun remove_from :: "u64 \<Rightarrow> nat list \<Rightarrow> sched \<Rightarrow> sched option" where
  "remove_from pid [] s = Some s"
| "remove_from pid (i # is) s = do {
     (removed, h, q) \<leftarrow> rq_remove pid (s_heap s) (c_run_queue (get_cpu i s));
     let s1 = on_cpu i (\<lambda>c. c\<lparr>c_run_queue := q\<rparr>) (s\<lparr>s_heap := h\<rparr>) in
     if removed then Some s1 else remove_from pid is s1
   }"

definition remove_from_any_queue :: "u64 \<Rightarrow> sched \<Rightarrow> sched option" where
  "remove_from_any_queue pid s = remove_from pid [0..<min (s_cpu_count s) MAX_CPUS] s"

definition pick_lightest :: "u64 \<Rightarrow> sched \<Rightarrow> nat" where
  "pick_lightest msk s =
     fst (fold (\<lambda>i (best_idx, best_len).
                  if \<not> bit msk i then (best_idx, best_len)
                  else if \<not> c_online (get_cpu i s) then (best_idx, best_len)
                  else let len = rq_len (c_run_queue (get_cpu i s))
                       in if len < best_len then (i, len) else (best_idx, best_len))
               [0..<min (s_cpu_count s) MAX_CPUS] (0, - 1))"

definition pick_cpu_for :: "nat \<Rightarrow> u64 \<Rightarrow> sched \<Rightarrow> nat" where
  "pick_cpu_for me msk s =
     (let m = (if msk = 0 then - 1 else msk);
          idx = pick_lightest m s
      in if \<not> c_online (get_cpu idx s) then me else idx)"

section \<open>One pass of the scheduler\<close>

definition sleeper_dec_saturating :: "sched \<Rightarrow> sched" where
  "sleeper_dec_saturating s = (if s_sleepers s > 0 then s\<lparr>s_sleepers := s_sleepers s - 1\<rparr> else s)"

text \<open>A task that becomes ready enters the queue of a CPU no earlier than that CPU has come.\<close>

definition enter_queue :: "nat \<Rightarrow> u64 \<Rightarrow> sched \<Rightarrow> sched option" where
  "enter_queue target p s =
     push_to_cpu target p
       (on_task p (\<lambda>t. t\<lparr>p_vruntime := max (p_vruntime t) (c_min_vruntime (get_cpu target s))\<rparr>) s)"

definition wake_one :: "nat \<Rightarrow> u64 \<Rightarrow> u64 \<Rightarrow> sched \<Rightarrow> sched option" where
  "wake_one me tick p s =
     (if \<not> s_index s p then Some s
      else if p_state (s_heap s p) \<noteq> STATE_SLEEPING then Some s
      else if tick < p_sleep_until (s_heap s p) then Some s
      else
        let s1 = on_task p (\<lambda>t. t\<lparr>p_state := STATE_READY\<rparr>) s;
            s2 = s1\<lparr>s_sleepers := s_sleepers s1 - 1\<rparr>
        in enter_queue (pick_cpu_for me (p_cpu_mask (s_heap s2 p)) s2) p s2)"

fun wake_all :: "nat \<Rightarrow> u64 \<Rightarrow> u64 list \<Rightarrow> sched \<Rightarrow> sched option" where
  "wake_all me tick [] s = Some s"
| "wake_all me tick (p # ps) s = do { s1 \<leftarrow> wake_one me tick p s; wake_all me tick ps s1 }"

definition wake_sleepers_isr :: "nat \<Rightarrow> u64 \<Rightarrow> sched \<Rightarrow> sched option" where
  "wake_sleepers_isr me tick s =
     (if s_sleepers s = 0 then Some s
      else wake_all me tick (map of_nat [0..<unat (min (s_next_pid s) MAX_PROCS)]) s)"

text \<open>What a pass does to the task that was running: whether another must take its place.\<close>

definition tick_current :: "nat \<Rightarrow> u64 \<Rightarrow> u64 \<Rightarrow> u64 \<Rightarrow> sched \<Rightarrow> (bool \<times> sched) option" where
  "tick_current me tick old_rsp p s0 =
     (let s = on_task p (\<lambda>t. t\<lparr>p_rsp := old_rsp\<rparr>) s0
      in case p_state (s_heap s p) of
           STATE_RUNNING \<Rightarrow>
             if \<not> p_is_idle (s_heap s p) then
               let dv = TICK_SCALE div weight (p_priority (s_heap s p));
                   new_vr = p_vruntime (s_heap s p) + dv;
                   window = (saturating_sub tick (p_window_start (s_heap s p)) \<ge> 250);
                   s1 = on_task p (\<lambda>t. t\<lparr>p_vruntime := new_vr, p_cpu_time := p_cpu_time t + 1,
                          p_window_cpu_ticks := (if window then 1 else p_window_cpu_ticks t + 1),
                          p_window_start := (if window then tick else p_window_start t)\<rparr>) s
               in case rq_peek_min_vr (s_heap s1) (c_run_queue (get_cpu me s1)) of
                    None \<Rightarrow> Some (False, s1)
                  | Some next_vr \<Rightarrow>
                      if new_vr > next_vr then do {
                        s2 \<leftarrow> push_to_cpu me p
                          (on_task p (\<lambda>t. t\<lparr>p_state := STATE_READY, p_preempt_count := p_preempt_count t + 1\<rparr>) s1);
                        Some (True, s2)
                      } else Some (False, s1)
             else do {
               any \<leftarrow> rq_has_non_idle (s_heap s) (c_run_queue (get_cpu me s));
               Some (if any then (True, on_task p (\<lambda>t. t\<lparr>p_state := STATE_READY\<rparr>) s) else (False, s))
             }
         | STATE_SLEEPING \<Rightarrow> Some (True, on_task p (\<lambda>t. t\<lparr>p_sleep_count := p_sleep_count t + 1\<rparr>) s)
         | _ \<Rightarrow> Some (True, s))"

definition switch_to :: "nat \<Rightarrow> u64 \<Rightarrow> u64 option \<Rightarrow> u64 \<Rightarrow> sched \<Rightarrow> u64 \<times> sched" where
  "switch_to me tick cur next s0 =
     (let old_cr3 = (case cur of Some p \<Rightarrow> p_cr3 (s_heap s0 p) | None \<Rightarrow> 0);
          new_cr3 = p_cr3 (s_heap s0 next);
          new_rsp0 = p_stack_top (s_heap s0 next);
          new_rsp = p_rsp (s_heap s0 next);
          s1 = (case cur of
                  Some p \<Rightarrow> on_task p (\<lambda>t. t\<lparr>p_saved_user_rsp := c_user_rsp (get_cpu me s0)\<rparr>) s0
                | None \<Rightarrow> s0);
          s2 = on_cpu me (\<lambda>c. c\<lparr>c_user_rsp := p_saved_user_rsp (s_heap s1 next)\<rparr>) s1;
          s3 = on_task next (\<lambda>t. t\<lparr>p_state := STATE_RUNNING, p_switch_in_count := p_switch_in_count t + 1,
                 p_last_run_tick := tick\<rparr>) s2;
          s4 = on_cpu me (\<lambda>c. c\<lparr>c_min_vruntime := max (c_min_vruntime c) (p_vruntime (s_heap s3 next)),
                 c_total_switches := c_total_switches c + 1, c_current_pid := next, c_kernel_rsp := new_rsp0,
                 c_cr3 := (if old_cr3 \<noteq> new_cr3 \<and> new_cr3 \<noteq> 0 then new_cr3 else c_cr3 c)\<rparr>) s3
      in (new_rsp, s4\<lparr>s_total_switches := s_total_switches s4 + 1\<rparr>))"

definition schedule_from_isr :: "nat \<Rightarrow> u64 \<Rightarrow> u64 \<Rightarrow> sched \<Rightarrow> (u64 \<times> sched) option" where
  "schedule_from_isr me tick old_rsp s0 =
     (let cur = get_raw (c_current_pid (get_cpu me s0)) s0
      in do {
        (need_switch, s1) \<leftarrow> (case cur of Some p \<Rightarrow> tick_current me tick old_rsp p s0 | None \<Rightarrow> Some (True, s0));
        s2 \<leftarrow> (if me = 0 then wake_sleepers_isr me tick s1 else Some s1);
        if \<not> need_switch then Some (old_rsp, s2)
        else do {
          (r, s3) \<leftarrow> pop_from_cpu me s2;
          (next, s4) \<leftarrow> (case r of None \<Rightarrow> try_steal_task me s3 | Some p \<Rightarrow> Some (Some p, s3));
          case next of
            Some p \<Rightarrow> Some (switch_to me tick cur p s4)
          | None \<Rightarrow>
              (case get_raw (c_idle_pid (get_cpu me s4)) s4 of
                 None \<Rightarrow> Some (old_rsp, s4)
               | Some idle \<Rightarrow>
                   if p_state (s_heap s4 idle) = STATE_RUNNING then Some (old_rsp, s4)
                   else Some (switch_to me tick cur idle s4))
        }
      })"

section \<open>Calls\<close>

definition yield_mark :: "nat \<Rightarrow> sched \<Rightarrow> sched option" where
  "yield_mark me s =
     (case get_raw (c_current_pid (get_cpu me s)) s of
        None \<Rightarrow> Some s
      | Some p \<Rightarrow>
          if p_state (s_heap s p) = STATE_RUNNING \<and> \<not> p_is_idle (s_heap s p)
          then push_to_cpu me p
                 (on_task p (\<lambda>t. t\<lparr>p_vruntime := max (p_vruntime t) (c_min_vruntime (get_cpu me s))
                                       + TICK_SCALE div weight (p_priority t),
                                   p_state := STATE_READY\<rparr>) s)
          else Some s)"

definition yield_now :: "nat \<Rightarrow> u64 \<Rightarrow> u64 \<Rightarrow> sched \<Rightarrow> (u64 \<times> sched) option" where
  "yield_now me tick rsp s = do { s1 \<leftarrow> yield_mark me s; schedule_from_isr me tick rsp s1 }"

definition sleep :: "nat \<Rightarrow> u64 \<Rightarrow> u64 \<Rightarrow> u64 \<Rightarrow> sched \<Rightarrow> (u64 \<times> sched) option" where
  "sleep me tick rsp ticks s =
     (let wake_tick = tick + ticks
      in schedule_from_isr me tick rsp
           (case get_raw (c_current_pid (get_cpu me s)) s of
              None \<Rightarrow> s
            | Some p \<Rightarrow>
                let s1 = on_task p (\<lambda>t. t\<lparr>p_sleep_until := wake_tick, p_state := STATE_SLEEPING\<rparr>) s
                in if p_state (s_heap s p) \<noteq> STATE_SLEEPING then s1\<lparr>s_sleepers := s_sleepers s1 + 1\<rparr> else s1))"

definition block_current :: "nat \<Rightarrow> u64 \<Rightarrow> u64 \<Rightarrow> u64 \<Rightarrow> sched \<Rightarrow> (u64 \<times> sched) option" where
  "block_current me tick rsp cause s =
     schedule_from_isr me tick rsp
       (case get_raw (c_current_pid (get_cpu me s)) s of
          None \<Rightarrow> s
        | Some p \<Rightarrow> on_task p (\<lambda>t. t\<lparr>p_blocked_cause := cause, p_state := STATE_BLOCKED\<rparr>) s)"

definition wakeup :: "nat \<Rightarrow> u64 \<Rightarrow> sched \<Rightarrow> sched option" where
  "wakeup me pid s =
     (case get_raw pid s of
        None \<Rightarrow> Some s
      | Some p \<Rightarrow>
          let st = p_state (s_heap s p)
          in if st \<noteq> STATE_SLEEPING \<and> st \<noteq> STATE_BLOCKED then Some s
             else
               let s1 = on_task p (\<lambda>t. t\<lparr>p_state := STATE_READY\<rparr>) s
               in enter_queue (pick_cpu_for me (p_cpu_mask (s_heap s p)) s) p
                    (if st = STATE_SLEEPING then sleeper_dec_saturating s1 else s1))"

definition add_process :: "nat \<Rightarrow> u64 \<Rightarrow> task \<Rightarrow> sched \<Rightarrow> sched option" where
  "add_process me pid t s =
     (let target = pick_cpu_for me (p_cpu_mask t) s
      in push_to_cpu target pid (register_process pid (t\<lparr>p_vruntime := c_min_vruntime (get_cpu target s)\<rparr>) s))"

definition set_parent :: "u64 \<Rightarrow> u64 \<Rightarrow> sched \<Rightarrow> sched" where
  "set_parent pid new_parent s =
     (if pid \<in> set (s_table s) then on_task pid (\<lambda>t. t\<lparr>p_ppid := new_parent\<rparr>) s else s)"

definition kill_with_code :: "nat \<Rightarrow> u64 \<Rightarrow> u64 \<Rightarrow> sched \<Rightarrow> sched option" where
  "kill_with_code me pid code s0 = do {
     (ppid, s1) \<leftarrow> (case get_raw pid s0 of
        None \<Rightarrow> Some (0, s0)
      | Some p \<Rightarrow>
          (let prev_state = p_state (s_heap s0 p);
               s = on_task p (\<lambda>t. t\<lparr>p_exit_code := code, p_state := STATE_DEAD\<rparr>) s0
           in do {
             s' \<leftarrow> remove_from_any_queue pid (if prev_state = STATE_SLEEPING then sleeper_dec_saturating s else s);
             Some (p_ppid (s_heap s' p), s')
           }));
     let s2 = (if get_raw 1 s1 \<noteq> None \<and> pid \<noteq> 1
               then fold (\<lambda>c. set_parent c 1) (filter (\<lambda>c. p_ppid (s_heap s1 c) = pid) (s_table s1)) s1
               else s1) in
     if ppid \<noteq> 0 then wakeup me ppid s2 else Some s2
   }"

section \<open>Fairness\<close>

text \<open>The interface of a fair scheduler, as far as a task \<open>target\<close> is concerned: while another
  task runs, a step moves the running task back, leaves the others where they are, and lets one
  run that is not behind \<open>target\<close>. Then \<open>target\<close> runs after boundedly many steps, whatever the
  inputs of the steps are.\<close>

fun run_steps :: "('i \<Rightarrow> 's \<Rightarrow> 's option) \<Rightarrow> 'i list \<Rightarrow> 's \<Rightarrow> 's option" where
  "run_steps step [] s = Some s"
| "run_steps step (i # is) s = Option.bind (step i s) (run_steps step is)"

definition ahead :: "('t \<Rightarrow> nat) \<Rightarrow> 't set \<Rightarrow> 't \<Rightarrow> nat" where
  "ahead key ts target = (\<Sum>t\<in>ts - {target}. key target + 1 - key t)"

locale fair_step =
  fixes step :: "'i \<Rightarrow> 's \<Rightarrow> 's option" and inv :: "'s \<Rightarrow> bool" and running :: "'s \<Rightarrow> 't"
    and key :: "'s \<Rightarrow> 't \<Rightarrow> nat" and members :: "'s \<Rightarrow> 't set" and target :: 't
  assumes members: "inv s \<Longrightarrow> finite (members s) \<and> running s \<in> members s"
    and progress: "inv s \<Longrightarrow> running s \<noteq> target \<Longrightarrow>
      \<exists>s'. step i s = Some s' \<and> inv s' \<and> members s' = members s \<and> (\<forall>t. t \<noteq> running s \<longrightarrow> key s' t = key s t)
        \<and> key s (running s) < key s' (running s) \<and> key s' (running s') \<le> key s' target"
begin

lemma ahead_step:
  assumes "inv s" and "running s \<noteq> target" and "step i s = Some s'"
  shows "ahead (key s') (members s') target \<le> ahead (key s) (members s) target"
    and "key s (running s) \<le> key s target \<Longrightarrow> ahead (key s') (members s') target < ahead (key s) (members s) target"
proof -
  have s': "members s' = members s" "\<And>t. t \<noteq> running s \<Longrightarrow> key s' t = key s t" "key s (running s) < key s' (running s)"
    using progress [OF assms(1,2), of i] assms(3) by auto
  have t: "key s' target = key s target" using s'(2) assms(2) by metis
  have le: "key s' target + 1 - key s' u \<le> key s target + 1 - key s u" for u
    using s'(2) [of u] s'(3) t by (cases "u = running s") simp_all
  then show "ahead (key s') (members s') target \<le> ahead (key s) (members s) target"
    unfolding ahead_def s'(1) by (intro sum_mono) simp
  assume "key s (running s) \<le> key s target"
  then have "key s' target + 1 - key s' (running s) < key s target + 1 - key s (running s)" using s'(3) t by simp
  moreover have "running s \<in> members s - {target}" "finite (members s - {target})" using members [OF assms(1)] assms(2) by auto
  ultimately show "ahead (key s') (members s') target < ahead (key s) (members s) target"
    unfolding ahead_def s'(1) by (intro sum_strict_mono_ex1) (use le in auto)
qed

lemma runs_soon:
  assumes "inv s" and "key s (running s) \<le> key s target" and "ahead (key s) (members s) target \<le> length is"
  shows "\<exists>k\<le>length is. \<exists>s'. run_steps step (take k is) s = Some s' \<and> inv s' \<and> running s' = target"
  using assms
proof (induction "is" arbitrary: s)
  case Nil
  have "running s = target"
  proof (rule ccontr)
    assume "running s \<noteq> target"
    then have r: "running s \<in> members s - {target}" "finite (members s - {target})" using members [OF Nil(1)] by auto
    have "key s target + 1 - key s (running s) \<le> ahead (key s) (members s) target"
      unfolding ahead_def by (rule member_le_sum [OF r(1) _ r(2)]) simp
    then show False using Nil(2,3) by simp
  qed
  then show ?case using Nil(1) by auto
next
  case (Cons i "is")
  show ?case
  proof (cases "running s = target")
    case True
    then show ?thesis using Cons.prems(1) by (intro exI [of _ 0]) simp
  next
    case False
    obtain s1 where s1: "step i s = Some s1" "inv s1" "key s1 (running s1) \<le> key s1 target"
      using progress [OF Cons.prems(1) False, of i] by blast
    have "ahead (key s1) (members s1) target \<le> length is"
      using ahead_step(2) [OF Cons.prems(1) False s1(1) Cons.prems(2)] Cons.prems(3) by simp
    from Cons.IH [OF s1(2,3) this] obtain k s' where "k \<le> length is" "run_steps step (take k is) s1 = Some s'" "inv s'" "running s' = target" by blast
    then show ?thesis using s1(1) by (intro exI [of _ "Suc k"]) simp
  qed
qed

lemma runs_eventually:
  assumes "inv s" and "ahead (key s) (members s) target < length is"
  shows "\<exists>k\<le>length is. \<exists>s'. run_steps step (take k is) s = Some s' \<and> inv s' \<and> running s' = target"
proof (cases "running s = target")
  case True
  then show ?thesis using assms(1) by (intro exI [of _ 0]) simp
next
  case False
  obtain i is' where i: "is = i # is'" using assms(2) by (cases "is") auto
  obtain s1 where s1: "step i s = Some s1" "inv s1" "key s1 (running s1) \<le> key s1 target"
    using progress [OF assms(1) False, of i] by blast
  have "ahead (key s1) (members s1) target \<le> length is'"
    using ahead_step(1) [OF assms(1) False s1(1)] assms(2) i by simp
  from runs_soon [OF s1(2,3) this] obtain k s' where "k \<le> length is'" "run_steps step (take k is') s1 = Some s'" "inv s'" "running s' = target" by blast
  then show ?thesis using s1(1) i by (intro exI [of _ "Suc k"]) simp
qed

end

section \<open>The scheduler is fair\<close>

lemma on_task_simps [simp]:
  "s_heap (on_task p f s) = upd p f (s_heap s)" "get_cpu i (on_task p f s) = get_cpu i s"
  "get_raw q (on_task p f s) = get_raw q s" "s_sleepers (on_task p f s) = s_sleepers s"
  "s_index (on_task p f s) = s_index s"
  by (simp_all add: on_task_def get_cpu_def get_raw_def)

lemma on_cpu_simps [simp]:
  "s_heap (on_cpu i g s) = s_heap s" "get_cpu i (on_cpu i g s) = g (get_cpu i s)"
  "get_raw q (on_cpu i g s) = get_raw q s" "s_sleepers (on_cpu i g s) = s_sleepers s"
  "s_index (on_cpu i g s) = s_index s"
  by (simp_all add: on_cpu_def get_cpu_def get_raw_def)

lemma sched_simps [simp]:
  "get_cpu i (s\<lparr>s_heap := h\<rparr>) = get_cpu i s" "get_cpu i (s\<lparr>s_total_switches := n\<rparr>) = get_cpu i s"
  "get_raw q (s\<lparr>s_heap := h\<rparr>) = get_raw q s" "get_raw q (s\<lparr>s_total_switches := n\<rparr>) = get_raw q s"
  by (simp_all add: get_cpu_def get_raw_def)

lemma get_raw_SomeD: "get_raw p s = Some q \<Longrightarrow> q = p \<and> p < MAX_PROCS"
  by (auto simp: get_raw_def split: if_splits)

lemma slice_bounds: "11 \<le> unat (TICK_SCALE div weight pr)" "unat (TICK_SCALE div weight pr) \<le> 783"
proof -
  have "unat (max 1 (min 20 pr)) \<le> unat (20 :: u8)" unfolding word_le_nat_alt [symmetric] by simp
  then have "weight pr \<in> set PRIO_WEIGHT"
    unfolding weight_def by (intro nth_mem) (simp add: PRIO_WEIGHT_def)
  then show "11 \<le> unat (TICK_SCALE div weight pr)" "unat (TICK_SCALE div weight pr) \<le> 783"
    by (auto simp: PRIO_WEIGHT_def)
qed

lemma few_tasks:
  assumes "distinct xs" and "\<And>x. x \<in> set xs \<Longrightarrow> x < MAX_PROCS"
  shows "length xs \<le> 4096"
proof -
  have "unat ` set xs \<subseteq> {..<4096}" using assms(2) by (auto simp: word_less_nat_alt)
  then have "card (unat ` set xs) \<le> 4096" using card_mono [of "{..<4096::nat}"] by fastforce
  moreover have "inj_on unat (set xs)" by (simp add: inj_on_def word_unat_eq_iff)
  then have "card (unat ` set xs) = length xs" using assms(1) by (simp add: card_image distinct_card)
  ultimately show ?thesis by simp
qed

text \<open>The running task and the queue of a CPU, when it is not idle.\<close>

definition busy :: "nat \<Rightarrow> u64 list \<Rightarrow> sched \<Rightarrow> bool" where
  "busy me xs s =
     (queue (s_heap s) (c_run_queue (get_cpu me s)) xs
      \<and> (\<forall>x\<in>insert (c_current_pid (get_cpu me s)) (set xs). \<not> p_is_idle (s_heap s x) \<and> get_raw x s = Some x)
      \<and> p_state (s_heap s (c_current_pid (get_cpu me s))) = STATE_RUNNING
      \<and> \<not> p_on_rq (s_heap s (c_current_pid (get_cpu me s))))"

text \<open>The virtual run time of the running task after it yields.\<close>

definition yield_vr :: "nat \<Rightarrow> sched \<Rightarrow> u64" where
  "yield_vr me s = (let t = s_heap s (c_current_pid (get_cpu me s))
     in max (p_vruntime t) (c_min_vruntime (get_cpu me s)) + TICK_SCALE div weight (p_priority t))"

lemma switch_to_ok:
  assumes "switch_to me tick cur y s = (r, s')"
  shows "c_current_pid (get_cpu me s') = y" "c_run_queue (get_cpu me s') = c_run_queue (get_cpu me s)"
    "c_min_vruntime (get_cpu me s') = max (c_min_vruntime (get_cpu me s)) (p_vruntime (s_heap s y))"
    "get_raw p s' = get_raw p s" "s_sleepers s' = s_sleepers s"
    "p_state (s_heap s' y) = STATE_RUNNING" "p_rq_next (s_heap s' x) = p_rq_next (s_heap s x)" "p_on_rq (s_heap s' x) = p_on_rq (s_heap s x)"
    "p_vruntime (s_heap s' x) = p_vruntime (s_heap s x)" "p_is_idle (s_heap s' x) = p_is_idle (s_heap s x)"
proof -
  have s': "s' = snd (switch_to me tick cur y s)" using assms by simp
  show "c_current_pid (get_cpu me s') = y" "c_run_queue (get_cpu me s') = c_run_queue (get_cpu me s)"
    "c_min_vruntime (get_cpu me s') = max (c_min_vruntime (get_cpu me s)) (p_vruntime (s_heap s y))"
    "get_raw p s' = get_raw p s" "s_sleepers s' = s_sleepers s"
    "p_state (s_heap s' y) = STATE_RUNNING" "p_rq_next (s_heap s' x) = p_rq_next (s_heap s x)" "p_on_rq (s_heap s' x) = p_on_rq (s_heap s x)"
    "p_vruntime (s_heap s' x) = p_vruntime (s_heap s x)" "p_is_idle (s_heap s' x) = p_is_idle (s_heap s x)"
    unfolding s' switch_to_def Let_def by (cases cur; simp)+
qed

lemma push_running_ok:
  assumes "busy me xs s" and "\<And>t. p_on_rq (f t) = p_on_rq t \<and> p_is_idle (f t) = p_is_idle t"
  defines "c \<equiv> c_current_pid (get_cpu me s)"
  shows "\<exists>h q. push_to_cpu me c (on_task c f s) = Some (on_cpu me (\<lambda>k. k\<lparr>c_run_queue := q\<rparr>) ((on_task c f s)\<lparr>s_heap := h\<rparr>))
    \<and> queue h q (place (upd c f (s_heap s)) c xs) \<and> same_tasks (upd c f (s_heap s)) h
    \<and> (\<forall>x. p_on_rq (h x) = (x = c \<or> p_on_rq (s_heap s x)))"
proof -
  let ?q = "c_run_queue (get_cpu me s)" and ?h = "upd c f (s_heap s)"
  have q: "queue (s_heap s) ?q xs" and off: "\<not> p_on_rq (s_heap s c)" and reg: "\<And>x. x \<in> set xs \<Longrightarrow> x < MAX_PROCS"
    using assms(1) get_raw_SomeD by (auto simp: busy_def c_def)
  have "queue ?h ?q xs" by (rule queue_cong [OF q]) (use not_in_queue [OF q off] in auto)
  moreover have "\<not> p_on_rq (?h c)" using off assms(2) by simp
  moreover have "distinct xs" using q earlier_distinct by (auto simp: queue_def)
  then have "length xs \<le> 4096" by (rule few_tasks [OF _ reg])
  then have "Suc (length xs) < 2 ^ 64" by simp
  ultimately obtain h q where "rq_push_sorted c ?h ?q = Some (h, q)" "queue h q (place ?h c xs)" "same_tasks ?h h"
      "\<forall>x. p_on_rq (h x) = (x = c \<or> p_on_rq (?h x))"
    using rq_push_ok by blast
  then show ?thesis using assms(2) by (intro exI [of _ h] exI [of _ q]) (auto simp: push_to_cpu_def)
qed

lemma pop_first_ok:
  assumes "queue (s_heap s) (c_run_queue (get_cpu me s)) (y # ys)" and "\<not> p_is_idle (s_heap s y)"
  shows "\<exists>h q. pop_from_cpu me s = Some (Some y, on_cpu me (\<lambda>k. k\<lparr>c_run_queue := q\<rparr>) (s\<lparr>s_heap := h\<rparr>))
    \<and> queue h q ys \<and> same_tasks (s_heap s) h \<and> (\<forall>x. p_on_rq (h x) = (x \<noteq> y \<and> p_on_rq (s_heap s x)))
    \<and> (\<forall>x. x \<notin> set (y # ys) \<longrightarrow> h x = s_heap s x)"
proof -
  obtain h q where "rq_pop_min (s_heap s) (c_run_queue (get_cpu me s)) = Some (Some y, h, q)" "queue h q ys" "same_tasks (s_heap s) h"
      "\<forall>x. p_on_rq (h x) = (x \<noteq> y \<and> p_on_rq (s_heap s x))" "\<forall>x. x \<notin> set (y # ys) \<longrightarrow> h x = s_heap s x"
    using rq_pop_ok [OF assms(1)] assms(2) by auto
  then show ?thesis by (intro exI [of _ h] exI [of _ q]) (simp add: pop_from_cpu_def)
qed

lemma schedule_ready_ok:
  assumes "queue (s_heap s) (c_run_queue (get_cpu me s)) (y # ys)" and "\<not> p_is_idle (s_heap s y)" and "s_sleepers s = 0"
    and "get_raw (c_current_pid (get_cpu me s)) s = Some c" and "p_state (s_heap s c) = STATE_READY"
  shows "\<exists>r s'. schedule_from_isr me tick rsp s = Some (r, s') \<and> queue (s_heap s') (c_run_queue (get_cpu me s')) ys
    \<and> c_current_pid (get_cpu me s') = y \<and> p_state (s_heap s' y) = STATE_RUNNING \<and> s_sleepers s' = 0
    \<and> c_min_vruntime (get_cpu me s') = max (c_min_vruntime (get_cpu me s)) (p_vruntime (s_heap s y))
    \<and> (\<forall>p. get_raw p s' = get_raw p s)
    \<and> (\<forall>x. p_on_rq (s_heap s' x) = (x \<noteq> y \<and> p_on_rq (s_heap s x)))
    \<and> (\<forall>x. p_vruntime (s_heap s' x) = p_vruntime (s_heap s x) \<and> p_is_idle (s_heap s' x) = p_is_idle (s_heap s x))"
proof -
  define s1 where "s1 = on_task c (\<lambda>t. t\<lparr>p_rsp := rsp\<rparr>) s"
  have tick: "tick_current me tick rsp c s = Some (True, s1)" using assms(5) by (simp add: tick_current_def Let_def s1_def)
  have wake: "(if me = 0 then wake_sleepers_isr me tick s1 else Some s1) = Some s1"
    using assms(3) by (simp add: wake_sleepers_isr_def s1_def)
  have "queue (s_heap s1) (c_run_queue (get_cpu me s1)) (y # ys)"
    unfolding s1_def on_task_simps by (rule queue_cong [OF assms(1)]) auto
  moreover have "\<not> p_is_idle (s_heap s1 y)" using assms(2) by (auto simp: s1_def)
  ultimately obtain h q where pop: "pop_from_cpu me s1 = Some (Some y, on_cpu me (\<lambda>k. k\<lparr>c_run_queue := q\<rparr>) (s1\<lparr>s_heap := h\<rparr>))"
    and h: "queue h q ys" "same_tasks (s_heap s1) h" "\<forall>x. p_on_rq (h x) = (x \<noteq> y \<and> p_on_rq (s_heap s1 x))"
    using pop_first_ok by blast
  let ?s2 = "on_cpu me (\<lambda>k. k\<lparr>c_run_queue := q\<rparr>) (s1\<lparr>s_heap := h\<rparr>)"
  obtain r s' where sw: "switch_to me tick (Some c) y ?s2 = (r, s')" by (rule prod.exhaust)
  note to = switch_to_ok [OF sw]
  have run: "schedule_from_isr me tick rsp s = Some (r, s')"
    unfolding schedule_from_isr_def Let_def assms(4) option.case tick bind.bind_lunit prod.case wake pop sw by simp
  have heap: "p_vruntime (h x) = p_vruntime (s_heap s x)" "p_is_idle (h x) = p_is_idle (s_heap s x)" for x
    using same_tasksD(1,2) [OF h(2), of x] by (simp_all add: s1_def)
  have "queue (s_heap s') q ys" by (rule queue_cong [OF h(1)]) (use to(7-9) in simp)
  then have "queue (s_heap s') (c_run_queue (get_cpu me s')) ys" using to(2) by simp
  moreover have "p_on_rq (s_heap s1 x) = p_on_rq (s_heap s x)" for x by (simp add: s1_def)
  moreover have "get_cpu me s1 = get_cpu me s" "\<And>p. get_raw p s1 = get_raw p s" "s_sleepers s1 = s_sleepers s" by (simp_all add: s1_def)
  ultimately show ?thesis using run to(1,3-6,8-10) heap h(3) assms(3)
    by (intro exI [of _ r] exI [of _ s']) auto
qed

text \<open>A yield: the running task is charged and queued, and the first of the queue runs.\<close>

lemma yield_ok:
  assumes "busy me xs s" and "s_sleepers s = 0"
  defines "c \<equiv> c_current_pid (get_cpu me s)"
  shows "\<exists>r s' y ys. yield_now me tick rsp s = Some (r, s') \<and> busy me ys s' \<and> s_sleepers s' = 0
    \<and> c_current_pid (get_cpu me s') = y \<and> insert y (set ys) = insert c (set xs)
    \<and> c_min_vruntime (get_cpu me s') = max (c_min_vruntime (get_cpu me s)) (p_vruntime (s_heap s' y))
    \<and> (\<forall>x. p_vruntime (s_heap s' x) = (if x = c then yield_vr me s else p_vruntime (s_heap s x)))
    \<and> (\<forall>x\<in>set ys. earlier (s_heap s') y x)"
proof -
  define f where "f = (\<lambda>t :: task. t\<lparr>p_vruntime := max (p_vruntime t) (c_min_vruntime (get_cpu me s)) + TICK_SCALE div weight (p_priority t),
    p_state := STATE_READY\<rparr>)"
  have b: "get_raw c s = Some c" "p_state (s_heap s c) = STATE_RUNNING"
    "\<And>x. x \<in> insert c (set xs) \<Longrightarrow> \<not> p_is_idle (s_heap s x) \<and> get_raw x s = Some x"
    using assms(1) by (auto simp: busy_def c_def)
  obtain h q where push: "push_to_cpu me c (on_task c f s) = Some (on_cpu me (\<lambda>k. k\<lparr>c_run_queue := q\<rparr>) ((on_task c f s)\<lparr>s_heap := h\<rparr>))"
    and h: "queue h q (place (upd c f (s_heap s)) c xs)" "same_tasks (upd c f (s_heap s)) h" "\<forall>x. p_on_rq (h x) = (x = c \<or> p_on_rq (s_heap s x))"
    using push_running_ok [OF assms(1), of f] unfolding c_def by (auto simp: f_def)
  define s1 where "s1 = on_cpu me (\<lambda>k. k\<lparr>c_run_queue := q\<rparr>) ((on_task c f s)\<lparr>s_heap := h\<rparr>)"
  have mark: "yield_mark me s = Some s1"
    using b push by (simp add: yield_mark_def c_def [symmetric] f_def s1_def)
  have s1: "s_heap s1 = h" "c_run_queue (get_cpu me s1) = q" "c_current_pid (get_cpu me s1) = c" "s_sleepers s1 = 0"
    "c_min_vruntime (get_cpu me s1) = c_min_vruntime (get_cpu me s)" "\<And>p. get_raw p s1 = get_raw p s"
    using assms(2) by (simp_all add: s1_def c_def)
  have data: "p_vruntime (h x) = (if x = c then yield_vr me s else p_vruntime (s_heap s x))" "p_is_idle (h x) = p_is_idle (s_heap s x)" for x
    using same_tasksD(1,2) [OF h(2), of x] by (auto simp: f_def yield_vr_def c_def Let_def)
  have ready: "p_state (h c) = STATE_READY" using same_tasksD(3) [OF h(2), of c] by (simp add: f_def)
  obtain y ys where pl: "place (upd c f (s_heap s)) c xs = y # ys" using length_place [of "upd c f (s_heap s)" c xs] by (cases "place (upd c f (s_heap s)) c xs") auto
  have mem: "insert y (set ys) = insert c (set xs)" using set_place [of "upd c f (s_heap s)" c xs] unfolding pl by simp
  have "\<not> p_is_idle (h y)" using b(3) [of y] mem data(2) by blast
  from schedule_ready_ok [of s1 me y ys c tick rsp] obtain r s' where run: "schedule_from_isr me tick rsp s1 = Some (r, s')"
    and s': "queue (s_heap s') (c_run_queue (get_cpu me s')) ys" "c_current_pid (get_cpu me s') = y" "p_state (s_heap s' y) = STATE_RUNNING"
      "s_sleepers s' = 0" "c_min_vruntime (get_cpu me s') = max (c_min_vruntime (get_cpu me s)) (p_vruntime (h y))"
      "\<forall>p. get_raw p s' = get_raw p s" "\<forall>x. p_on_rq (s_heap s' x) = (x \<noteq> y \<and> p_on_rq (h x))"
      "\<forall>x. p_vruntime (s_heap s' x) = p_vruntime (h x) \<and> p_is_idle (s_heap s' x) = p_is_idle (h x)"
    using h(1) pl s1 \<open>\<not> p_is_idle (h y)\<close> b(1) ready by auto
  have "\<forall>x\<in>set ys. earlier h y x" using h(1) unfolding pl by (simp add: queue_def)
  then have first: "\<forall>x\<in>set ys. earlier (s_heap s') y x" using s'(8) by simp
  have "busy me ys s'" unfolding busy_def s'(2) mem using s' b(3) data(2) by auto
  then show ?thesis using mark run s'(2,4,5,8) mem first data(1) by (intro exI [of _ r] exI [of _ s'] exI [of _ y] exI [of _ ys]) (simp add: yield_now_def)
qed

text \<open>The tasks that wait for or hold the CPU, and the states in which \<open>p\<close> is one of them and no
  virtual run time is about to wrap around.\<close>

definition contenders :: "nat \<Rightarrow> sched \<Rightarrow> u64 set" where
  "contenders me s = insert (c_current_pid (get_cpu me s)) {x. \<exists>xs. chain (s_heap s) (rq_head (c_run_queue (get_cpu me s))) xs \<and> x \<in> set xs}"

definition vr_of :: "sched \<Rightarrow> u64 \<Rightarrow> nat" where
  "vr_of s p = unat (p_vruntime (s_heap s p))"

definition waits :: "nat \<Rightarrow> u64 \<Rightarrow> sched \<Rightarrow> bool" where
  "waits me p s = ((\<exists>xs. busy me xs s) \<and> s_sleepers s = 0 \<and> p \<in> contenders me s
     \<and> max (max (vr_of s p) (unat (c_min_vruntime (get_cpu me s)))) (vr_of s (c_current_pid (get_cpu me s))) + 783 < 2 ^ 64)"

lemma contenders_busy:
  assumes "busy me xs s"
  shows "contenders me s = insert (c_current_pid (get_cpu me s)) (set xs)"
proof -
  have ch: "chain (s_heap s) (rq_head (c_run_queue (get_cpu me s))) xs" using assms by (simp add: busy_def queue_def)
  have "{x. \<exists>ys. chain (s_heap s) (rq_head (c_run_queue (get_cpu me s))) ys \<and> x \<in> set ys} = set xs"
    using ch chain_unique [OF ch] by blast
  then show ?thesis by (simp add: contenders_def)
qed

lemma waits_step:
  assumes "waits me p s" and "c_current_pid (get_cpu me s) \<noteq> p"
  shows "\<exists>r s'. yield_now me tick rsp s = Some (r, s') \<and> waits me p s' \<and> contenders me s' = contenders me s
    \<and> (\<forall>t. t \<noteq> c_current_pid (get_cpu me s) \<longrightarrow> vr_of s' t = vr_of s t)
    \<and> vr_of s (c_current_pid (get_cpu me s)) < vr_of s' (c_current_pid (get_cpu me s))
    \<and> vr_of s' (c_current_pid (get_cpu me s')) \<le> vr_of s' p"
proof -
  let ?c = "c_current_pid (get_cpu me s)"
  obtain xs where xs: "busy me xs s" and "s_sleepers s = 0" using assms(1) by (auto simp: waits_def)
  from yield_ok [OF this, of tick rsp] obtain r s' y ys where run: "yield_now me tick rsp s = Some (r, s')"
    and s': "busy me ys s'" "s_sleepers s' = 0" "c_current_pid (get_cpu me s') = y" "insert y (set ys) = insert ?c (set xs)"
      "c_min_vruntime (get_cpu me s') = max (c_min_vruntime (get_cpu me s)) (p_vruntime (s_heap s' y))"
      "\<forall>x. p_vruntime (s_heap s' x) = (if x = ?c then yield_vr me s else p_vruntime (s_heap s x))"
      "\<forall>x\<in>set ys. earlier (s_heap s') y x" by blast
  have same: "contenders me s' = contenders me s" using contenders_busy [OF xs] contenders_busy [OF s'(1)] s'(3,4) by simp
  have p: "p = y \<or> p \<in> set ys" using assms(1) same contenders_busy [OF s'(1)] s'(3) by (auto simp: waits_def)
  have first: "vr_of s' y \<le> vr_of s' p"
    using p s'(7) by (auto simp: vr_of_def goes_before_def word_le_nat_alt word_less_nat_alt)
  have others: "vr_of s' t = vr_of s t" if "t \<noteq> ?c" for t using s'(6) that by (simp add: vr_of_def)
  have bound: "max (vr_of s ?c) (unat (c_min_vruntime (get_cpu me s))) + 783 < 2 ^ 64" using assms(1) by (auto simp: waits_def)
  then have grows: "vr_of s ?c < vr_of s' ?c"
    using s'(6) slice_bounds [of "p_priority (s_heap s ?c)"]
    by (auto simp: vr_of_def yield_vr_def Let_def max_def unat_word_ariths word_le_nat_alt split: if_splits)
  have "unat (c_min_vruntime (get_cpu me s')) = max (unat (c_min_vruntime (get_cpu me s))) (vr_of s' y)"
    unfolding s'(5) vr_of_def by (simp add: max_def word_le_nat_alt)
  then have "waits me p s'" using assms(1) s'(1-3) same first others [of p] assms(2) by (auto simp: waits_def)
  then show ?thesis using run same others grows first s'(3) by blast
qed

interpretation yields: fair_step "\<lambda>(tick, rsp) s. map_option snd (yield_now me tick rsp s)" "waits me p"
    "\<lambda>s. c_current_pid (get_cpu me s)" vr_of "contenders me" p for me p
proof
  fix s assume "waits me p s"
  then obtain xs where "busy me xs s" by (auto simp: waits_def)
  then show "finite (contenders me s) \<and> c_current_pid (get_cpu me s) \<in> contenders me s" by (simp add: contenders_busy)
next
  fix s and i :: "u64 \<times> u64" assume w: "waits me p s" "c_current_pid (get_cpu me s) \<noteq> p"
  obtain tick rsp where i: "i = (tick, rsp)" by (rule prod.exhaust)
  from waits_step [OF w, of tick rsp] show "\<exists>s'. (case i of (tick, rsp) \<Rightarrow> \<lambda>s. map_option snd (yield_now me tick rsp s)) s = Some s' \<and> waits me p s'
      \<and> contenders me s' = contenders me s \<and> (\<forall>t. t \<noteq> c_current_pid (get_cpu me s) \<longrightarrow> vr_of s' t = vr_of s t)
      \<and> vr_of s (c_current_pid (get_cpu me s)) < vr_of s' (c_current_pid (get_cpu me s)) \<and> vr_of s' (c_current_pid (get_cpu me s')) \<le> vr_of s' p"
    unfolding i prod.case by (elim exE conjE) (rule exI, auto)
qed

text \<open>C4: No waiting task starves. On a CPU whose tasks yield, with no task asleep and no virtual run
  time near the end of its range, every task of the queue runs after at most one yield more than
  the sum of what the other tasks are ahead of it in virtual run time. Every yield returns, at
  whatever tick and stack pointer.\<close>

theorem no_starvation:
  assumes "waits me p s" and "ahead (vr_of s) (contenders me s) p < length inputs"
  shows "\<exists>k s'. k \<le> length inputs
    \<and> run_steps (\<lambda>(tick, rsp) s. map_option snd (yield_now me tick rsp s)) (take k inputs) s = Some s'
    \<and> c_current_pid (get_cpu me s') = p \<and> p_state (s_heap s' p) = STATE_RUNNING"
proof -
  obtain k s' where k: "k \<le> length inputs" "run_steps (\<lambda>(tick, rsp) s. map_option snd (yield_now me tick rsp s)) (take k inputs) s = Some s'"
    and s': "waits me p s'" "c_current_pid (get_cpu me s') = p"
    using yields.runs_eventually [OF assms] by blast
  have "p_state (s_heap s' p) = STATE_RUNNING" using s' by (auto simp: waits_def busy_def)
  with k s'(2) show ?thesis by blast
qed

text \<open>Task 4 runs; tasks 3 and 5 wait.\<close>

definition demo_sched :: sched where
  "demo_sched = \<lparr>s_heap = (\<lambda>p. demo_task\<lparr>p_vruntime := (if p = 4 then 19 else 20), p_on_rq := (p = 3 \<or> p = 5),
       p_rq_next := (if p = 3 then Some 5 else None), p_state := (if p = 4 then STATE_RUNNING else STATE_READY)\<rparr>),
     s_index = (\<lambda>p. p < 6), s_table = [0, 1, 2, 3, 4, 5],
     s_cpus = (\<lambda>_. \<lparr>c_online = True, c_kernel_rsp = 0, c_user_rsp = 0, c_cr3 = 0, c_current_pid = 4, c_idle_pid = 0,
       c_total_switches = 0, c_min_vruntime = 19, c_run_queue = demo_queue\<rparr>),
     s_cpu_count = 1, s_sleepers = 0, s_total_switches = 0, s_next_pid = 6\<rparr>"

lemma demo_sched_waits: "waits 0 5 demo_sched" and demo_contenders: "contenders 0 demo_sched = {3, 4, 5}"
proof -
  have b: "busy 0 [3, 5] demo_sched"
    by (simp add: busy_def demo_sched_def get_cpu_def queue_def demo_queue_def demo_task_def goes_before_def get_raw_def)
  have "c_current_pid (get_cpu 0 demo_sched) = 4" by (simp add: demo_sched_def get_cpu_def)
  then show c: "contenders 0 demo_sched = {3, 4, 5}" using contenders_busy [OF b] by auto
  show "waits 0 5 demo_sched" using b unfolding waits_def c
    by (auto simp: demo_sched_def get_cpu_def vr_of_def demo_task_def)
qed

theorem no_starvation_witness:
  "\<exists>k s'. k \<le> 4 \<and> run_steps (\<lambda>(tick, rsp) s. map_option snd (yield_now 0 tick rsp s)) (take k (replicate 4 (7, 0))) demo_sched = Some s'
     \<and> c_current_pid (get_cpu 0 s') = 5"
proof -
  have "vr_of demo_sched p = (if p = 4 then 19 else 20)" for p by (simp add: vr_of_def demo_sched_def)
  moreover have "{3, 4, 5} - {5} = {3, 4 :: u64}" by auto
  ultimately have "ahead (vr_of demo_sched) (contenders 0 demo_sched) 5 < length (replicate 4 (7 :: u64, 0 :: u64))"
    by (simp add: ahead_def demo_contenders)
  from no_starvation [OF demo_sched_waits this] show ?thesis by auto
qed

text \<open>C36: The registry has 4096 entries and process numbers are never used again, so tasks numbered
  from 4096 on are lost. When such a task yields, the next task runs, and the yielding task is
  neither queued nor marked, its stack pointer is not saved: it never runs again.\<close>

theorem high_pid_lost:
  assumes "c_current_pid (get_cpu me s) \<ge> MAX_PROCS" and "\<not> p_on_rq (s_heap s (c_current_pid (get_cpu me s)))"
    and "queue (s_heap s) (c_run_queue (get_cpu me s)) (y # ys)" and "\<not> p_is_idle (s_heap s y)" and "s_sleepers s = 0"
  shows "\<exists>r s'. yield_now me tick rsp s = Some (r, s') \<and> c_current_pid (get_cpu me s') = y
    \<and> c_current_pid (get_cpu me s) \<notin> contenders me s'
    \<and> s_heap s' (c_current_pid (get_cpu me s)) = s_heap s (c_current_pid (get_cpu me s))"
proof -
  let ?c = "c_current_pid (get_cpu me s)"
  have none: "get_raw ?c s = None" using assms(1) by (simp add: get_raw_def)
  have c: "?c \<notin> set (y # ys)" by (rule not_in_queue [OF assms(3,2)])
  obtain h q where pop: "pop_from_cpu me s = Some (Some y, on_cpu me (\<lambda>k. k\<lparr>c_run_queue := q\<rparr>) (s\<lparr>s_heap := h\<rparr>))"
    and h: "queue h q ys" "\<forall>x. x \<notin> set (y # ys) \<longrightarrow> h x = s_heap s x"
    using pop_first_ok [OF assms(3,4)] by blast
  let ?s1 = "on_cpu me (\<lambda>k. k\<lparr>c_run_queue := q\<rparr>) (s\<lparr>s_heap := h\<rparr>)"
  obtain r s' where sw: "switch_to me tick None y ?s1 = (r, s')" by (rule prod.exhaust)
  note to = switch_to_ok [OF sw]
  have wake: "(if me = 0 then wake_sleepers_isr me tick s else Some s) = Some s" using assms(5) by (simp add: wake_sleepers_isr_def)
  have "schedule_from_isr me tick rsp s = Some (r, s')"
    unfolding schedule_from_isr_def Let_def none option.case bind.bind_lunit prod.case wake pop sw by simp
  then have run: "yield_now me tick rsp s = Some (r, s')" by (simp add: yield_now_def yield_mark_def none)
  have heap: "s_heap s' x = h x" if "x \<noteq> y" for x using sw that by (auto simp: switch_to_def Let_def)
  have "queue (s_heap s') q ys" by (rule queue_cong [OF h(1)]) (use to(7-9) in simp)
  then have "chain (s_heap s') (rq_head (c_run_queue (get_cpu me s'))) ys" using to(2) by (simp add: queue_def)
  then have "?c \<notin> contenders me s'" using c to(1) chain_unique by (auto simp: contenders_def)
  moreover have "s_heap s' ?c = s_heap s ?c" using heap [of ?c] h(2) c by auto
  ultimately show ?thesis using run to(1) by blast
qed

text \<open>Task 5000 runs, and tasks 3 and 5 wait.\<close>

definition demo_high :: sched where
  "demo_high = on_cpu 0 (\<lambda>c. c\<lparr>c_current_pid := 5000\<rparr>) demo_sched"

theorem high_pid_lost_witness:
  "\<exists>r s'. yield_now 0 7 0 demo_high = Some (r, s') \<and> c_current_pid (get_cpu 0 s') = 3 \<and> 5000 \<notin> contenders 0 s'"
proof -
  have q: "queue (s_heap demo_high) (c_run_queue (get_cpu 0 demo_high)) [3, 5]"
    by (simp add: demo_high_def on_cpu_def demo_sched_def get_cpu_def queue_def demo_queue_def goes_before_def)
  have c: "c_current_pid (get_cpu 0 demo_high) = 5000" by (simp add: demo_high_def)
  have h: "\<not> p_on_rq (s_heap demo_high 5000)" "\<not> p_is_idle (s_heap demo_high 3)" "s_sleepers demo_high = 0"
    by (simp_all add: demo_high_def demo_sched_def demo_task_def)
  show ?thesis using high_pid_lost [OF _ _ q h(2,3), of 7 0] h(1) unfolding c by auto
qed

end
