(* ===== verification/VfsTypes.thy ===== *)
theory VfsTypes
  imports Bytes
begin

text \<open>
  The types of \<open>kernel/fs/vfs/types.rs\<close> that the components of the virtual file system
  share: errors, node kinds, file modes, credentials, and the fixed-size name and path
  buffers. A Rust \<open>&str\<close> is the list of its bytes; 16-bit identifiers are natural numbers
  below \<open>INVALID_ID\<close>.
\<close>

definition INVALID_ID :: nat where
  "INVALID_ID = 0xFFFF"

definition NAME_LEN :: nat where
  "NAME_LEN = 64"

abbreviation MAX_GROUPS :: nat where "MAX_GROUPS \<equiv> 8"

datatype VfsError =
    NotFound | PermissionDenied | AlreadyExists | NotDirectory | IsDirectory | NotEmpty | InvalidPath
  | TooManySymlinks | NoSpace | ReadOnly | Busy | IoError | CrossDevice | NameTooLong | InvalidArgument
  | NotSupported | BadFd | TooManyOpenFiles | SeekError | Deadlock | WouldBlock | QuotaExceeded
  | Interrupted | FileTooLarge | NotSymlink | Loop | Stale | TxConflict | Corrupted | SecurityViolation
  | NotMounted | AlreadyMounted | InvalidXattr | XattrTooLarge | NoLock | PipeEmpty | PipeFull
  | BrokenPipe | InvalidUtf8

type_synonym 'a vfs_result = "VfsError + 'a"

datatype FsType = TmpFS | DevFS | ProcFS | Ext2 | Ext3 | Ext4 | CowFS | PipeFS

definition is_ext_family :: "FsType \<Rightarrow> bool" where
  "is_ext_family t = (t = Ext2 \<or> t = Ext3 \<or> t = Ext4)"

fun fs_magic :: "FsType \<Rightarrow> u32" where
  "fs_magic Ext2 = 0xEF53"
| "fs_magic Ext3 = 0xEF53"
| "fs_magic Ext4 = 0xEF53"
| "fs_magic TmpFS = 0x01021994"
| "fs_magic DevFS = 0x1373"
| "fs_magic ProcFS = 0x9FA0"
| "fs_magic PipeFS = 0x50495045"
| "fs_magic CowFS = 0xC0FF"

datatype VNodeKind = Regular | Directory | Symlink | CharDevice | BlockDevice | Pipe | Socket | Fifo

section \<open>File modes\<close>

type_synonym file_mode = u16

definition mode_new :: "u16 \<Rightarrow> file_mode" where
  "mode_new mode = mode AND 0xFFF"

definition owner_read :: "file_mode \<Rightarrow> bool" where "owner_read m = (m AND 0x100 \<noteq> 0)"
definition owner_write :: "file_mode \<Rightarrow> bool" where "owner_write m = (m AND 0x80 \<noteq> 0)"
definition owner_exec :: "file_mode \<Rightarrow> bool" where "owner_exec m = (m AND 0x40 \<noteq> 0)"
definition group_read :: "file_mode \<Rightarrow> bool" where "group_read m = (m AND 0x20 \<noteq> 0)"
definition group_write :: "file_mode \<Rightarrow> bool" where "group_write m = (m AND 0x10 \<noteq> 0)"
definition group_exec :: "file_mode \<Rightarrow> bool" where "group_exec m = (m AND 0x8 \<noteq> 0)"
definition other_read :: "file_mode \<Rightarrow> bool" where "other_read m = (m AND 0x4 \<noteq> 0)"
definition other_write :: "file_mode \<Rightarrow> bool" where "other_write m = (m AND 0x2 \<noteq> 0)"
definition other_exec :: "file_mode \<Rightarrow> bool" where "other_exec m = (m AND 0x1 \<noteq> 0)"
definition setuid :: "file_mode \<Rightarrow> bool" where "setuid m = (m AND 0x800 \<noteq> 0)"
definition setgid :: "file_mode \<Rightarrow> bool" where "setgid m = (m AND 0x400 \<noteq> 0)"
definition sticky :: "file_mode \<Rightarrow> bool" where "sticky m = (m AND 0x200 \<noteq> 0)"

definition apply_umask :: "file_mode \<Rightarrow> u16 \<Rightarrow> file_mode" where
  "apply_umask m umask = mode_new (m AND NOT umask)"

datatype perm_who = Owner | Group | Other

fun perm_bits_for :: "file_mode \<Rightarrow> perm_who \<Rightarrow> u8" where
  "perm_bits_for m Owner = ucast (drop_bit 6 m AND 7)"
| "perm_bits_for m Group = ucast (drop_bit 3 m AND 7)"
| "perm_bits_for m Other = ucast (m AND 7)"

definition kind_char :: "VNodeKind \<Rightarrow> u8" where
  "kind_char kind =
     (case kind of Directory \<Rightarrow> 0x64 | Symlink \<Rightarrow> 0x6C | CharDevice \<Rightarrow> 0x63 | BlockDevice \<Rightarrow> 0x62
      | Pipe \<Rightarrow> 0x70 | Fifo \<Rightarrow> 0x70 | Socket \<Rightarrow> 0x73 | Regular \<Rightarrow> 0x2D)"

definition exec_char :: "bool \<Rightarrow> bool \<Rightarrow> u8 \<Rightarrow> u8 \<Rightarrow> u8" where
  "exec_char exec special lower upper =
     (if exec then (if special then lower else 0x78) else if special then upper else 0x2D)"

definition format_string :: "file_mode \<Rightarrow> VNodeKind \<Rightarrow> u8 list" where
  "format_string m kind =
     [kind_char kind,
      if owner_read m then 0x72 else 0x2D, if owner_write m then 0x77 else 0x2D,
      exec_char (owner_exec m) (setuid m) 0x73 0x53,
      if group_read m then 0x72 else 0x2D, if group_write m then 0x77 else 0x2D,
      exec_char (group_exec m) (setgid m) 0x73 0x53,
      if other_read m then 0x72 else 0x2D, if other_write m then 0x77 else 0x2D,
      exec_char (other_exec m) (sticky m) 0x74 0x54]"

section \<open>Credentials\<close>

record credentials =
  cr_uid :: u16
  cr_gid :: u16
  cr_euid :: u16
  cr_egid :: u16
  cr_groups :: "u16 list"
  cr_ngroups :: nat

definition cred_root :: credentials where
  "cred_root = \<lparr>cr_uid = 0, cr_gid = 0, cr_euid = 0, cr_egid = 0, cr_groups = replicate MAX_GROUPS 0, cr_ngroups = 1\<rparr>"

definition cred_user :: "u16 \<Rightarrow> u16 \<Rightarrow> credentials" where
  "cred_user uid gid = \<lparr>cr_uid = uid, cr_gid = gid, cr_euid = uid, cr_egid = gid,
     cr_groups = (replicate MAX_GROUPS 0)[0 := gid], cr_ngroups = 1\<rparr>"

definition is_root :: "credentials \<Rightarrow> bool" where
  "is_root c = (cr_euid c = 0)"

definition in_group :: "credentials \<Rightarrow> u16 \<Rightarrow> bool" where
  "in_group c gid = (cr_egid c = gid \<or> (\<exists>i\<in>set [0..<cr_ngroups c]. i < MAX_GROUPS \<and> cr_groups c ! i = gid))"

definition who_for :: "credentials \<Rightarrow> u16 \<Rightarrow> u16 \<Rightarrow> perm_who" where
  "who_for c file_uid file_gid =
     (if cr_euid c = file_uid then Owner else if in_group c file_gid then Group else Other)"

section \<open>Open flags\<close>

type_synonym open_flags = u32

abbreviation O_READ :: u32 where "O_READ \<equiv> 0x0001"
abbreviation O_WRITE :: u32 where "O_WRITE \<equiv> 0x0002"
abbreviation O_RDWR :: u32 where "O_RDWR \<equiv> 0x0003"

definition flags_has :: "open_flags \<Rightarrow> u32 \<Rightarrow> bool" where
  "flags_has f flag = (f AND flag \<noteq> 0)"

definition readable :: "open_flags \<Rightarrow> bool" where
  "readable f = flags_has f O_READ"

definition writable :: "open_flags \<Rightarrow> bool" where
  "writable f = flags_has f O_WRITE"

definition is_rdwr :: "open_flags \<Rightarrow> bool" where
  "is_rdwr f = (f AND O_RDWR = O_RDWR)"

record process_context =
  pc_pid :: u16
  pc_cred :: credentials
  pc_umask :: u16
  pc_cwd :: nat
  pc_root :: nat

section \<open>Strings\<close>

text \<open>\<open>core::str::from_utf8\<close>: the well-formed byte sequences of Unicode.\<close>

definition utf8_cont :: "u8 \<Rightarrow> bool" where
  "utf8_cont c = (0x80 \<le> c \<and> c \<le> 0xBF)"

definition utf8_second :: "u8 \<Rightarrow> u8 \<Rightarrow> bool" where
  "utf8_second b c =
     (if b = 0xE0 then 0xA0 \<le> c \<and> c \<le> 0xBF else if b = 0xED then 0x80 \<le> c \<and> c \<le> 0x9F
      else if b = 0xF0 then 0x90 \<le> c \<and> c \<le> 0xBF else if b = 0xF4 then 0x80 \<le> c \<and> c \<le> 0x8F
      else utf8_cont c)"

fun utf8_ok :: "u8 list \<Rightarrow> bool" where
  "utf8_ok [] = True"
| "utf8_ok (b # bs) =
     (if b < 0x80 then utf8_ok bs
      else if 0xC2 \<le> b \<and> b \<le> 0xDF then (case bs of c # cs \<Rightarrow> utf8_cont c \<and> utf8_ok cs | _ \<Rightarrow> False)
      else if 0xE0 \<le> b \<and> b \<le> 0xEF then
        (case bs of c # d # cs \<Rightarrow> utf8_second b c \<and> utf8_cont d \<and> utf8_ok cs | _ \<Rightarrow> False)
      else if 0xF0 \<le> b \<and> b \<le> 0xF4 then
        (case bs of c # d # e # cs \<Rightarrow> utf8_second b c \<and> utf8_cont d \<and> utf8_cont e \<and> utf8_ok cs | _ \<Rightarrow> False)
      else False)"

section \<open>Names and paths\<close>

record name_buf =
  nb_data :: "u8 list"
  nb_len :: nat

definition nb_empty :: name_buf where
  "nb_empty = \<lparr>nb_data = replicate NAME_LEN 0, nb_len = 0\<rparr>"

definition nb_from_str :: "u8 list \<Rightarrow> name_buf" where
  "nb_from_str s =
     (let len = min (length s) NAME_LEN
      in \<lparr>nb_data = copy_at 0 (take len s) (nb_data nb_empty), nb_len = len\<rparr>)"

definition nb_bytes :: "name_buf \<Rightarrow> u8 list" where
  "nb_bytes nb = take (nb_len nb) (nb_data nb)"

definition nb_as_str :: "name_buf \<Rightarrow> u8 list" where
  "nb_as_str nb = (if utf8_ok (nb_bytes nb) then nb_bytes nb else [0xEF, 0xBF, 0xBD])"

definition nb_eq_str :: "name_buf \<Rightarrow> u8 list \<Rightarrow> bool" where
  "nb_eq_str nb s = (nb_len nb = length s \<and> nb_bytes nb = s)"

record path_buf =
  pb_data :: "u8 list"
  pb_len :: nat

definition pb_empty :: path_buf where
  "pb_empty = \<lparr>pb_data = replicate 256 0, pb_len = 0\<rparr>"

definition pb_from_str :: "u8 list \<Rightarrow> path_buf" where
  "pb_from_str s =
     (let len = min (length s) 256 in \<lparr>pb_data = copy_at 0 (take len s) (pb_data pb_empty), pb_len = len\<rparr>)"

definition pb_push :: "u8 list \<Rightarrow> path_buf \<Rightarrow> path_buf" where
  "pb_push component p =
     (let p1 = (if pb_len p > 0 \<and> pb_data p ! (pb_len p - 1) \<noteq> 0x2F
                then if pb_len p < 255
                     then p\<lparr>pb_data := (pb_data p)[pb_len p := 0x2F], pb_len := pb_len p + 1\<rparr> else p
                else p);
          avail = 256 - pb_len p1;
          len = min (length component) avail
      in p1\<lparr>pb_data := copy_at (pb_len p1) (take len component) (pb_data p1), pb_len := pb_len p1 + len\<rparr>)"

definition pb_str :: "path_buf \<Rightarrow> u8 list" where
  "pb_str p = take (pb_len p) (pb_data p)"

definition pb_set_root :: "path_buf \<Rightarrow> path_buf" where
  "pb_set_root p = p\<lparr>pb_data := (pb_data p)[0 := 0x2F], pb_len := 1\<rparr>"

section \<open>Lemmas\<close>

lemma nb_bytes_from_str [simp]: "nb_bytes (nb_from_str s) = take NAME_LEN s"
  by (simp add: nb_bytes_def nb_from_str_def copy_at_def Let_def min_def)

lemma nb_from_str_len: "nb_len (nb_from_str s) = min (length s) NAME_LEN"
  by (simp add: nb_from_str_def Let_def)

text \<open>A stored name equals the string it is compared with, unless the string was cut off.\<close>

lemma nb_eq_from_str: "nb_eq_str (nb_from_str s) t \<longleftrightarrow> take NAME_LEN s = t"
  by (auto simp: nb_eq_str_def nb_from_str_len)

definition pb_wf :: "path_buf \<Rightarrow> bool" where
  "pb_wf p = (length (pb_data p) = 256 \<and> pb_len p \<le> 256)"

lemma pb_wf_push: "pb_wf p \<Longrightarrow> pb_wf (pb_push c p)"
  by (auto simp: pb_wf_def pb_push_def Let_def min_def)

text \<open>Pushing a component that fits appends it after a single separator.\<close>

lemma pb_push_str:
  assumes "pb_wf p" and "pb_len p + 1 + length c \<le> 256" and "pb_len p < 255"
  shows "pb_str (pb_push c p) =
    (if pb_str p = [] \<or> last (pb_str p) = 0x2F then pb_str p @ c else pb_str p @ 0x2F # c)"
proof -
  have len: "length (pb_data p) = 256" using assms by (simp add: pb_wf_def)
  show ?thesis
  proof (cases "pb_len p = 0")
    case True
    then show ?thesis using assms len by (simp add: pb_push_def pb_str_def Let_def copy_at_def)
  next
    case False
    then have ne: "pb_str p \<noteq> []" using len by (auto simp: pb_str_def)
    then have l: "last (pb_str p) = pb_data p ! (pb_len p - 1)" "pb_str p \<noteq> []"
      using last_conv_nth [OF ne] False assms len by (auto simp: pb_str_def)
    show ?thesis
    proof (cases "pb_data p ! (pb_len p - 1) = 0x2F")
      case True
      then show ?thesis using assms len l False
        by (simp add: pb_push_def pb_str_def Let_def copy_at_def)
    next
      case sep: False
      then show ?thesis using assms len l False
        by (simp add: pb_push_def pb_str_def Let_def copy_at_def take_Suc_conv_app_nth)
    qed
  qed
qed

end
