(* ===== verification/SlotTable.thy ===== *)
theory SlotTable
  imports VfsTypes Alloc
begin

text \<open>
  The fixed-size tables of the virtual file system have one shape: an array of entries with
  an \<open>active\<close> flag, searched from the front. \<open>first_slot\<close> is the search loop and
  \<open>tbl_put\<close> the pair of loops that first looks for the entry of a key and then for an
  inactive one. The locale \<open>key_table\<close> derives, once, that such a table is a map from keys
  to values; the tables of security labels, extended attributes and quotas are instances.
\<close>

definition first_slot :: "('e \<Rightarrow> bool) \<Rightarrow> 'e list \<Rightarrow> nat option" where
  "first_slot P xs = find_from (\<lambda>i. P (xs ! i)) 0 (length xs)"

definition tbl_put :: "('e \<Rightarrow> bool) \<Rightarrow> ('e \<Rightarrow> bool) \<Rightarrow> ('e \<Rightarrow> 'e) \<Rightarrow> ('e \<Rightarrow> 'e) \<Rightarrow> 'e list \<Rightarrow> 'e list option" where
  "tbl_put is_key is_free upd new xs =
     (case first_slot is_key xs of
        Some i \<Rightarrow> Some (xs[i := upd (xs ! i)])
      | None \<Rightarrow>
          (case first_slot is_free xs of
             Some i \<Rightarrow> Some (xs[i := new (xs ! i)])
           | None \<Rightarrow> None))"

text \<open>The loop \<open>for e in table.iter_mut() { if P { e = f(e) } }\<close>.\<close>

definition update_all :: "('e \<Rightarrow> bool) \<Rightarrow> ('e \<Rightarrow> 'e) \<Rightarrow> 'e list \<Rightarrow> 'e list" where
  "update_all P f xs = map (\<lambda>e. if P e then f e else e) xs"

lemma length_update_all [simp]: "length (update_all P f xs) = length xs"
  by (simp add: update_all_def)

lemma nth_update_all [table_simps]:
  "i < length xs \<Longrightarrow> update_all P f xs ! i = (if P (xs ! i) then f (xs ! i) else xs ! i)"
  by (simp add: update_all_def)

lemma first_slot_Some:
  "first_slot P xs = Some i \<longleftrightarrow> i < length xs \<and> P (xs ! i) \<and> (\<forall>j<i. \<not> P (xs ! j))"
  by (auto simp: first_slot_def find_from_Some)

lemma first_slot_None: "first_slot P xs = None \<longleftrightarrow> (\<forall>i<length xs. \<not> P (xs ! i))"
  by (auto simp: first_slot_def find_from_None)

lemma first_slot_None_set: "first_slot P xs = None \<longleftrightarrow> (\<forall>e\<in>set xs. \<not> P e)"
  unfolding first_slot_None by (metis in_set_conv_nth)

lemma length_tbl_put: "tbl_put k f u n xs = Some ys \<Longrightarrow> length ys = length xs"
  by (auto simp: tbl_put_def split: option.splits)

section \<open>Tables with keys\<close>

text \<open>At most one active entry has a given key.\<close>

definition uniq_keys :: "('e \<Rightarrow> bool) \<Rightarrow> ('e \<Rightarrow> 'k) \<Rightarrow> 'e list \<Rightarrow> bool" where
  "uniq_keys act key xs =
     (\<forall>i<length xs. \<forall>j<length xs. act (xs ! i) \<and> act (xs ! j) \<and> key (xs ! i) = key (xs ! j) \<longrightarrow> i = j)"

definition tbl_get :: "('e \<Rightarrow> bool) \<Rightarrow> ('e \<Rightarrow> 'k) \<Rightarrow> ('e \<Rightarrow> 'v) \<Rightarrow> 'k \<Rightarrow> 'e list \<Rightarrow> 'v option" where
  "tbl_get act key val k xs = map_option (\<lambda>i. val (xs ! i)) (first_slot (\<lambda>e. act e \<and> key e = k) xs)"

lemma tbl_get_Some:
  assumes "uniq_keys act key xs"
  shows "tbl_get act key val k xs = Some v \<longleftrightarrow> (\<exists>i<length xs. act (xs ! i) \<and> key (xs ! i) = k \<and> val (xs ! i) = v)"
proof
  assume "tbl_get act key val k xs = Some v"
  then show "\<exists>i<length xs. act (xs ! i) \<and> key (xs ! i) = k \<and> val (xs ! i) = v"
    by (auto simp: tbl_get_def first_slot_Some)
next
  assume "\<exists>i<length xs. act (xs ! i) \<and> key (xs ! i) = k \<and> val (xs ! i) = v"
  then obtain i where i: "i < length xs" "act (xs ! i)" "key (xs ! i) = k" "val (xs ! i) = v" by blast
  have "\<not> (act (xs ! j) \<and> key (xs ! j) = k)" if "j < i" for j
    using assms [unfolded uniq_keys_def, rule_format, of j i] i that by auto
  with i have "first_slot (\<lambda>e. act e \<and> key e = k) xs = Some i" by (simp add: first_slot_Some)
  with i show "tbl_get act key val k xs = Some v" by (simp add: tbl_get_def)
qed

lemma tbl_get_None: "tbl_get act key val k xs = None \<longleftrightarrow> (\<forall>i<length xs. \<not> (act (xs ! i) \<and> key (xs ! i) = k))"
  by (simp add: tbl_get_def first_slot_None)

locale key_table =
  fixes act :: "'e \<Rightarrow> bool"
    and key :: "'e \<Rightarrow> 'k"
    and val :: "'e \<Rightarrow> 'v"
    and upd :: "'v \<Rightarrow> 'e \<Rightarrow> 'e"
    and new :: "'k \<Rightarrow> 'v \<Rightarrow> 'e \<Rightarrow> 'e"
    and ok :: "'k \<Rightarrow> 'v \<Rightarrow> 'e \<Rightarrow> bool"
  assumes upd: "act e \<Longrightarrow> ok (key e) v e \<Longrightarrow> act (upd v e) \<and> key (upd v e) = key e \<and> val (upd v e) = v"
    and new: "\<not> act e \<Longrightarrow> ok k v e \<Longrightarrow> act (new k v e) \<and> key (new k v e) = k \<and> val (new k v e) = v"
begin

abbreviation put :: "'k \<Rightarrow> 'v \<Rightarrow> 'e list \<Rightarrow> 'e list option" where
  "put k v xs \<equiv> tbl_put (\<lambda>e. act e \<and> key e = k) (\<lambda>e. \<not> act e) (upd v) (new k v) xs"

text \<open>A successful put writes one slot: the one of the key, or an inactive one if the key
  has none.\<close>

lemma put_cases:
  assumes "put k v xs = Some ys" and "\<forall>e\<in>set xs. ok k v e"
  obtains i where "i < length xs" "ys = xs[i := ys ! i]" "act (ys ! i)" "key (ys ! i) = k" "val (ys ! i) = v"
    "act (xs ! i) \<Longrightarrow> key (xs ! i) = k"
    "\<not> act (xs ! i) \<Longrightarrow> \<forall>j<length xs. \<not> (act (xs ! j) \<and> key (xs ! j) = k)"
proof (cases "first_slot (\<lambda>e. act e \<and> key e = k) xs")
  case (Some i)
  then have i: "i < length xs" "act (xs ! i)" "key (xs ! i) = k" by (auto simp: first_slot_Some)
  moreover have ys: "ys = xs[i := upd v (xs ! i)]" using assms(1) Some by (simp add: tbl_put_def)
  ultimately show thesis using upd [of "xs ! i" v] assms(2) by (intro that [of i]) auto
next
  case None
  then obtain i where i: "first_slot (\<lambda>e. \<not> act e) xs = Some i" and ys: "ys = xs[i := new k v (xs ! i)]"
    using assms(1) by (auto simp: tbl_put_def split: option.splits)
  then have "i < length xs" "\<not> act (xs ! i)" by (auto simp: first_slot_Some)
  with ys None new [of "xs ! i" k v] assms(2) show thesis by (intro that [of i]) (auto simp: first_slot_None)
qed

lemma put_uniq:
  assumes "put k v xs = Some ys" and "\<forall>e\<in>set xs. ok k v e" and "uniq_keys act key xs"
  shows "uniq_keys act key ys"
proof -
  obtain i where i: "i < length xs" "ys = xs[i := ys ! i]" "act (ys ! i)" "key (ys ! i) = k"
    "act (xs ! i) \<Longrightarrow> key (xs ! i) = k"
    "\<not> act (xs ! i) \<Longrightarrow> \<forall>j<length xs. \<not> (act (xs ! j) \<and> key (xs ! j) = k)"
    using put_cases [OF assms(1,2)] by metis
  have other: "ys ! j = xs ! j" if "j \<noteq> i" for j using i(2) that by (metis nth_list_update_neq)
  have "j = i" if "j < length xs" "act (ys ! j)" "key (ys ! j) = k" for j
  proof (rule ccontr)
    assume "j \<noteq> i"
    then have "act (xs ! j)" "key (xs ! j) = k" using other that by auto
    with i(1,5,6) that(1) \<open>j \<noteq> i\<close> assms(3) show False unfolding uniq_keys_def by metis
  qed
  moreover have "length ys = length xs" using i(2) by (metis length_list_update)
  ultimately show ?thesis using assms(3) i(4) other unfolding uniq_keys_def by metis
qed

text \<open>The table is a map: a put changes the value of its key and no other.\<close>

lemma get_put:
  assumes "put k v xs = Some ys" and "\<forall>e\<in>set xs. ok k v e" and "uniq_keys act key xs"
  shows "tbl_get act key val k' ys = (if k' = k then Some v else tbl_get act key val k' xs)"
proof -
  obtain i where i: "i < length xs" "ys = xs[i := ys ! i]" "act (ys ! i)" "key (ys ! i) = k" "val (ys ! i) = v"
    "act (xs ! i) \<Longrightarrow> key (xs ! i) = k"
    using put_cases [OF assms(1,2)] by metis
  have len: "length ys = length xs" using i(2) by (metis length_list_update)
  have other: "ys ! j = xs ! j" if "j \<noteq> i" for j using i(2) that by (metis nth_list_update_neq)
  note u = put_uniq [OF assms]
  show ?thesis
  proof (cases "k' = k")
    case True
    have "\<exists>j<length ys. act (ys ! j) \<and> key (ys ! j) = k \<and> val (ys ! j) = v"
      using i(1,3-5) len by auto
    then have "tbl_get act key val k ys = Some v" by (rule tbl_get_Some [OF u, THEN iffD2])
    with True show ?thesis by simp
  next
    case False
    have "(\<exists>j<length ys. act (ys ! j) \<and> key (ys ! j) = k' \<and> val (ys ! j) = w) \<longleftrightarrow>
        (\<exists>j<length xs. act (xs ! j) \<and> key (xs ! j) = k' \<and> val (xs ! j) = w)" for w
      using False i(4,6) other len by metis
    then have "tbl_get act key val k' ys = Some w \<longleftrightarrow> tbl_get act key val k' xs = Some w" for w
      unfolding tbl_get_Some [OF u] tbl_get_Some [OF assms(3)] .
    with False show ?thesis by (metis not_Some_eq)
  qed
qed

text \<open>A put fails only when the key is absent and every slot is taken.\<close>

lemma put_None: "put k v xs = None \<longleftrightarrow> (\<forall>e\<in>set xs. act e \<and> key e \<noteq> k)"
proof -
  have "put k v xs = None \<longleftrightarrow>
      first_slot (\<lambda>e. act e \<and> key e = k) xs = None \<and> first_slot (\<lambda>e. \<not> act e) xs = None"
    by (simp add: tbl_put_def split: option.split)
  then show ?thesis unfolding first_slot_None_set by blast
qed

end

text \<open>Deactivating entries, whatever they become, never adds a binding.\<close>

lemma uniq_keys_deactivate:
  assumes "uniq_keys act key xs" and "\<And>e. \<not> act (f e)"
  shows "uniq_keys act key (update_all P f xs)"
  unfolding uniq_keys_def
proof (intro allI impI)
  fix i j
  assume l: "i < length (update_all P f xs)" "j < length (update_all P f xs)"
    and a: "act (update_all P f xs ! i) \<and> act (update_all P f xs ! j) \<and> key (update_all P f xs ! i) = key (update_all P f xs ! j)"
  then have "update_all P f xs ! i = xs ! i" "update_all P f xs ! j = xs ! j"
    using assms(2) by (auto simp: nth_update_all split: if_splits)
  with l a assms(1) show "i = j" by (simp add: uniq_keys_def)
qed

lemma tbl_get_deactivate:
  assumes "\<And>e. \<not> act (f e)"
  shows "tbl_get act key val k (update_all (\<lambda>e. act e \<and> key e = k) f xs) = None"
  unfolding tbl_get_None using assms by (auto simp: nth_update_all)

lemma tbl_get_deactivate_other:
  assumes "uniq_keys act key xs" and "\<And>e. \<not> act (f e)" and "k' \<noteq> k"
  shows "tbl_get act key val k' (update_all (\<lambda>e. act e \<and> key e = k) f xs) = tbl_get act key val k' xs"
proof -
  note u = uniq_keys_deactivate [OF assms(1,2), of "\<lambda>e. act e \<and> key e = k"]
  have "(\<exists>i<length xs. act (update_all (\<lambda>e. act e \<and> key e = k) f xs ! i)
       \<and> key (update_all (\<lambda>e. act e \<and> key e = k) f xs ! i) = k'
       \<and> val (update_all (\<lambda>e. act e \<and> key e = k) f xs ! i) = v) \<longleftrightarrow>
     (\<exists>i<length xs. act (xs ! i) \<and> key (xs ! i) = k' \<and> val (xs ! i) = v)" for v
    using assms(2,3) by (auto simp: nth_update_all split: if_splits)
  then have "tbl_get act key val k' (update_all (\<lambda>e. act e \<and> key e = k) f xs) = Some v \<longleftrightarrow>
      tbl_get act key val k' xs = Some v" for v
    unfolding tbl_get_Some [OF u] tbl_get_Some [OF assms(1)] length_update_all .
  then show ?thesis by (metis not_Some_eq)
qed

end
