(* ===== verification/Locks.thy ===== *)
theory Locks
  imports SlotTable
begin

text \<open>
  Advisory byte-range locks, \<open>kernel/fs/vfs/locks.rs\<close>: the conflict test between two locks,
  acquisition and the three ways of releasing. Offsets and lengths stay 64-bit words, so the
  wrap-around of \<open>offset + length\<close> is part of the model. The table is reached from the empty
  one by any sequence of calls (\<open>lm_reach\<close>).
\<close>

abbreviation MAX_LOCKS :: nat where "MAX_LOCKS \<equiv> 16"

datatype lock_type = Shared | Exclusive

record file_lock =
  fl_vnode_id :: nat
  fl_lock_type :: lock_type
  fl_pid :: u16
  fl_offset :: u64
  fl_length :: u64
  fl_active :: bool

type_synonym lock_manager = "file_lock list"

definition fl_empty :: file_lock where
  "fl_empty = \<lparr>fl_vnode_id = INVALID_ID, fl_lock_type = Shared, fl_pid = 0, fl_offset = 0,
     fl_length = 0, fl_active = False\<rparr>"

definition lock_end :: "file_lock \<Rightarrow> u64" where
  "lock_end l = (if fl_length l = 0 then - 1 else fl_offset l + fl_length l)"

definition conflicts_with :: "file_lock \<Rightarrow> file_lock \<Rightarrow> bool" where
  "conflicts_with self other =
     (if \<not> fl_active self \<or> \<not> fl_active other then False
      else if fl_vnode_id self \<noteq> fl_vnode_id other then False
      else if fl_pid self = fl_pid other then False
      else
        let s1 = fl_offset self; e1 = lock_end self; s2 = fl_offset other; e2 = lock_end other
        in if s1 \<ge> e2 \<or> s2 \<ge> e1 then False
           else if fl_lock_type self = Shared \<and> fl_lock_type other = Shared then False
           else True)"

definition lm_new :: lock_manager where
  "lm_new = replicate MAX_LOCKS fl_empty"

definition acquire :: "nat \<Rightarrow> u16 \<Rightarrow> lock_type \<Rightarrow> u64 \<Rightarrow> u64 \<Rightarrow> lock_manager \<Rightarrow> unit vfs_result \<times> lock_manager" where
  "acquire vnode_id pid lock_type offset len m =
     (let new_lock = \<lparr>fl_vnode_id = vnode_id, fl_lock_type = lock_type, fl_pid = pid, fl_offset = offset,
            fl_length = len, fl_active = True\<rparr>
      in if list_ex (\<lambda>lock. conflicts_with lock new_lock) m then (Inl WouldBlock, m)
         else
           (case first_slot (\<lambda>lock. \<not> fl_active lock) m of
              Some i \<Rightarrow> (Inr (), m[i := new_lock])
            | None \<Rightarrow> (Inl NoSpace, m)))"

definition release :: "nat \<Rightarrow> u16 \<Rightarrow> lock_manager \<Rightarrow> unit vfs_result \<times> lock_manager" where
  "release vnode_id pid m =
     (let mine = (\<lambda>lock. fl_active lock \<and> fl_vnode_id lock = vnode_id \<and> fl_pid lock = pid)
      in (if list_ex mine m then Inr () else Inl NoLock, update_all mine (\<lambda>_. fl_empty) m))"

definition release_all_for_pid :: "u16 \<Rightarrow> lock_manager \<Rightarrow> lock_manager" where
  "release_all_for_pid pid m = update_all (\<lambda>lock. fl_active lock \<and> fl_pid lock = pid) (\<lambda>_. fl_empty) m"

definition release_all_for_vnode :: "nat \<Rightarrow> lock_manager \<Rightarrow> lock_manager" where
  "release_all_for_vnode vnode_id m =
     update_all (\<lambda>lock. fl_active lock \<and> fl_vnode_id lock = vnode_id) (\<lambda>_. fl_empty) m"

definition has_lock :: "nat \<Rightarrow> u16 \<Rightarrow> lock_manager \<Rightarrow> bool" where
  "has_lock vnode_id pid m = list_ex (\<lambda>l. fl_active l \<and> fl_vnode_id l = vnode_id \<and> fl_pid l = pid) m"

definition lock_count :: "lock_manager \<Rightarrow> nat" where
  "lock_count m = length (filter fl_active m)"

inductive lm_reach :: "lock_manager \<Rightarrow> bool" where
  new: "lm_reach lm_new"
| acquire: "lm_reach m \<Longrightarrow> lm_reach (snd (acquire v p t off len m))"
| release: "lm_reach m \<Longrightarrow> lm_reach (snd (release v p m))"
| release_pid: "lm_reach m \<Longrightarrow> lm_reach (release_all_for_pid p m)"
| release_vnode: "lm_reach m \<Longrightarrow> lm_reach (release_all_for_vnode v m)"

section \<open>The bytes of a lock\<close>

text \<open>A lock of length zero reaches to the end of the file. \<open>no_wrap\<close> says that the end of
  the range is representable.\<close>

definition lock_bytes :: "file_lock \<Rightarrow> nat set" where
  "lock_bytes l =
     (if fl_length l = 0 then {unat (fl_offset l)..<2 ^ 64 - 1}
      else {unat (fl_offset l)..<unat (fl_offset l) + unat (fl_length l)})"

definition no_wrap :: "file_lock \<Rightarrow> bool" where
  "no_wrap l = (fl_length l = 0 \<or> unat (fl_offset l) + unat (fl_length l) < 2 ^ 64)"

lemma lock_bytes_interval: "no_wrap l \<Longrightarrow> lock_bytes l = {unat (fl_offset l)..<unat (lock_end l)}"
  by (auto simp: lock_bytes_def no_wrap_def lock_end_def unat_word_ariths unsigned_minus_1_eq_mask
      mask_eq_exp_minus_1)

lemma intervals_disjoint:
  "{a..<b} \<inter> {c..<d} = {} \<longleftrightarrow> b \<le> a \<or> d \<le> c \<or> d \<le> a \<or> b \<le> c" for a b c d :: nat
proof
  assume h: "{a..<b} \<inter> {c..<d} = {}"
  show "b \<le> a \<or> d \<le> c \<or> d \<le> a \<or> b \<le> c"
  proof (rule ccontr)
    assume "\<not> ?thesis"
    then have "max a c \<in> {a..<b} \<inter> {c..<d}" by auto
    with h show False by blast
  qed
qed auto

lemma lock_nonempty: "no_wrap l \<Longrightarrow> fl_offset l \<noteq> - 1 \<Longrightarrow> unat (fl_offset l) < unat (lock_end l)"
  using unat_lt [of "fl_offset l"] word_unat_eq_iff [of "fl_offset l" "- 1"]
  by (auto simp: no_wrap_def lock_end_def unat_word_ariths unsigned_minus_1_eq_mask mask_eq_exp_minus_1
      word_unat_eq_iff [of "fl_length l" 0])

lemma conflicts_iff:
  assumes "no_wrap l" and "no_wrap l'" and "fl_offset l \<noteq> - 1" and "fl_offset l' \<noteq> - 1"
  shows "conflicts_with l l' \<longleftrightarrow> fl_active l \<and> fl_active l' \<and> fl_vnode_id l = fl_vnode_id l' \<and> fl_pid l \<noteq> fl_pid l'
    \<and> \<not> (fl_lock_type l = Shared \<and> fl_lock_type l' = Shared) \<and> lock_bytes l \<inter> lock_bytes l' \<noteq> {}"
  using lock_nonempty [OF assms(1,3)] lock_nonempty [OF assms(2,4)]
  by (auto simp: conflicts_with_def Let_def lock_bytes_interval [OF assms(1)] lock_bytes_interval [OF assms(2)]
      intervals_disjoint word_le_nat_alt)

lemma conflicts_sym: "conflicts_with l l' = conflicts_with l' l"
  by (auto simp: conflicts_with_def Let_def)

lemma conflicts_active: "conflicts_with l l' \<Longrightarrow> fl_active l \<and> fl_active l'"
  by (auto simp: conflicts_with_def split: if_splits)

lemma fl_empty_inactive [simp]: "\<not> fl_active fl_empty"
  by (simp add: fl_empty_def)

section \<open>Mutual exclusion\<close>

definition compatible :: "lock_manager \<Rightarrow> bool" where
  "compatible m = (length m = MAX_LOCKS \<and> (\<forall>i<length m. \<forall>j<length m. i \<noteq> j \<longrightarrow> \<not> conflicts_with (m ! i) (m ! j)))"

lemma compatible_update:
  assumes "compatible m" and "\<forall>l\<in>set m. \<not> conflicts_with l new" and "k < length m"
  shows "compatible (m[k := new])"
proof -
  have "\<not> conflicts_with (m[k := new] ! i) (m[k := new] ! j)" if "i < length m" "j < length m" "i \<noteq> j" for i j
    using assms that conflicts_sym [of new "m ! j"] by (auto simp: compatible_def nth_list_update)
  with assms(1) show ?thesis by (auto simp: compatible_def)
qed

lemma compatible_update_all: "compatible m \<Longrightarrow> compatible (update_all P (\<lambda>_. fl_empty) m)"
  by (auto simp: compatible_def nth_update_all dest: conflicts_active)

lemma compatible_acquire: "compatible m \<Longrightarrow> compatible (snd (acquire v p t off len m))"
  by (auto simp: acquire_def Let_def list_ex_iff first_slot_Some intro!: compatible_update split: option.split)

lemma lm_reach_compatible: "lm_reach m \<Longrightarrow> compatible m"
proof (induction rule: lm_reach.induct)
  case new
  then show ?case by (auto simp: compatible_def lm_new_def dest: conflicts_active)
qed (simp_all add: compatible_acquire compatible_update_all release_def release_all_for_pid_def
    release_all_for_vnode_def Let_def)

section \<open>Properties\<close>


lemma lm_new_eval: "lm_new = [fl_empty, fl_empty, fl_empty, fl_empty, fl_empty, fl_empty, fl_empty, fl_empty,
    fl_empty, fl_empty, fl_empty, fl_empty, fl_empty, fl_empty, fl_empty, fl_empty]"
  by (simp add: lm_new_def numeral_eq_Suc)

lemmas lock_eval = acquire_def lm_new_eval Let_def first_slot_def find_from_rec fl_empty_def
  conflicts_with_def lock_end_def lock_bytes_def no_wrap_def




text \<open>Wrap-around of a range. A lock whose offset and length add up to more than the
  largest offset ends, by the wrapped sum, before it starts; the conflict test then finds no
  overlap, and two processes hold exclusive locks on the same bytes.\<close>

lemma wrapping_lock_not_exclusive:
  "let m1 = snd (acquire 5 1 Exclusive 1 0xFFFFFFFFFFFFFFFF lm_new); (r, m2) = acquire 5 2 Exclusive 100 10 m1
   in r = Inr () \<and> fl_lock_type (m2 ! 0) = Exclusive \<and> fl_lock_type (m2 ! 1) = Exclusive
      \<and> fl_pid (m2 ! 0) \<noteq> fl_pid (m2 ! 1) \<and> 105 \<in> lock_bytes (m2 ! 0) \<inter> lock_bytes (m2 ! 1)"
  by (simp add: lock_eval)

end
