(* ===== verification/Hash.thy ===== *)
theory Hash
  imports VfsTypes
begin

text \<open>
  The hash functions of \<open>kernel/fs/vfs/hash.rs\<close>, 32-bit FNV-1a and its uses: names of
  directory entries, keys of the dentry cache and the eight-lane content hash. The
  multiplication is the wrapping one of the machine word.
\<close>

definition fnv_step :: "u32 \<Rightarrow> u8 \<Rightarrow> u32" where
  "fnv_step h b = (h XOR ucast b) * 0x01000193"

definition fnv32 :: "u8 list \<Rightarrow> u32" where
  "fnv32 data = foldl fnv_step 0x811c9dc5 data"

definition name_hash :: "u8 list \<Rightarrow> u32" where
  "name_hash name = fnv32 name"

definition dentry_hash :: "u16 \<Rightarrow> u8 list \<Rightarrow> u32" where
  "dentry_hash parent name = foldl fnv_step (foldl fnv_step 0x811c9dc5 (to_le_bytes parent)) name"

definition content_lanes :: "u8 list \<Rightarrow> u32 list" where
  "content_lanes data =
     foldl (\<lambda>h (i, b). h[i mod 8 := fnv_step (h ! (i mod 8)) b])
       [0x811c9dc5, 0x01000193, 0x811c9dc5 XOR 0xdeadbeef, 0x01000193 XOR 0xcafebabe,
        0x811c9dc5 XOR 0x12345678, 0x01000193 XOR 0x9abcdef0, 0x811c9dc5 XOR 0xfedcba98,
        0x01000193 XOR 0x76543210]
       (enumerate 0 data)"

definition content_hash :: "u8 list \<Rightarrow> u8 list" where
  "content_hash data = concat (map to_le_bytes (content_lanes data))"

lemma dentry_hash_eq: "dentry_hash parent name = fnv32 (to_le_bytes parent @ name)"
  by (simp add: dentry_hash_def fnv32_def)

lemma length_content_lanes [simp]: "length (content_lanes data) = 8"
proof -
  have "length (foldl (\<lambda>h (i, b). h[i mod 8 := fnv_step (h ! (i mod 8)) b]) hs xs) = length hs" for hs xs
    by (induction xs arbitrary: hs) auto
  then show ?thesis by (simp add: content_lanes_def)
qed

end
