(* ===== verification/Children.thy ===== *)
theory Children
  imports Hash SlotTable
begin

text \<open>
  The table of a directory's entries, \<open>kernel/fs/vfs/children.rs\<close>: an open-addressing hash
  table with linear probing and tombstones, doubled when three quarters of it are occupied.
  A slot keeps the hash of the name, its length and its first 32 bytes. The reference is a
  finite map from names to node identifiers.
\<close>

abbreviation INITIAL_CAPACITY :: nat where "INITIAL_CAPACITY \<equiv> 16"

definition CHILD_NAME_LEN :: nat where
  "CHILD_NAME_LEN = 32"

datatype slot_state = Empty | Occupied | Tombstone

record child_slot =
  cs_hash :: u32
  cs_id :: nat
  cs_state :: slot_state
  cs_name_len :: nat
  cs_name :: "u8 list"

definition cs_empty :: child_slot where
  "cs_empty = \<lparr>cs_hash = 0, cs_id = INVALID_ID, cs_state = Empty, cs_name_len = 0,
     cs_name = replicate CHILD_NAME_LEN 0\<rparr>"

definition name_matches :: "child_slot \<Rightarrow> u8 list \<Rightarrow> bool" where
  "name_matches s nb =
     (let slen = cs_name_len s
      in if slen = 0 then False
         else if slen \<le> CHILD_NAME_LEN then length nb = slen \<and> nb = take slen (cs_name s)
         else length nb \<ge> CHILD_NAME_LEN \<and> take CHILD_NAME_LEN nb = cs_name s)"

definition set_name :: "u8 list \<Rightarrow> child_slot \<Rightarrow> child_slot" where
  "set_name bytes s =
     (let copy_len = min (length bytes) CHILD_NAME_LEN
      in s\<lparr>cs_name := take copy_len bytes @ replicate (CHILD_NAME_LEN - copy_len) 0,
           cs_name_len := min (length bytes) 255\<rparr>)"

record children =
  ch_slots :: "child_slot list"
  ch_count :: nat

definition ch_new :: children where
  "ch_new = \<lparr>ch_slots = [], ch_count = 0\<rparr>"

definition ensure_init :: "children \<Rightarrow> children" where
  "ensure_init c = (if ch_slots c = [] then c\<lparr>ch_slots := replicate INITIAL_CAPACITY cs_empty\<rparr> else c)"

definition needs_rehash :: "children \<Rightarrow> bool" where
  "needs_rehash c = (ch_count c * 4 \<ge> length (ch_slots c) * 3)"

text \<open>The slots in the order in which a search for the hash \<open>h\<close> visits them.\<close>

definition probe_path :: "nat \<Rightarrow> u32 \<Rightarrow> nat list" where
  "probe_path cap h = ring_order cap (unat h mod cap) cap"

definition rehash_slot :: "child_slot \<Rightarrow> child_slot list \<Rightarrow> child_slot list" where
  "rehash_slot slot new_slots =
     (if cs_state slot \<noteq> Occupied then new_slots
      else
        (case List.find (\<lambda>idx. cs_state (new_slots ! idx) = Empty) (probe_path (length new_slots) (cs_hash slot)) of
           Some idx \<Rightarrow> new_slots[idx := slot]
         | None \<Rightarrow> new_slots))"

definition rehash :: "children \<Rightarrow> children" where
  "rehash c = c\<lparr>ch_slots := fold rehash_slot (ch_slots c) (replicate (length (ch_slots c) * 2) cs_empty)\<rparr>"

text \<open>The loop shared by the lookups: stop at an empty slot, pass over tombstones, and return
  the first occupied slot that satisfies the test.\<close>

fun scan_slots :: "(child_slot \<Rightarrow> bool) \<Rightarrow> child_slot list \<Rightarrow> nat list \<Rightarrow> nat option" where
  "scan_slots P slots [] = None"
| "scan_slots P slots (idx # rest) =
     (case cs_state (slots ! idx) of
        Empty \<Rightarrow> None
      | Tombstone \<Rightarrow> scan_slots P slots rest
      | Occupied \<Rightarrow> if P (slots ! idx) then Some idx else scan_slots P slots rest)"

definition probe :: "(child_slot \<Rightarrow> bool) \<Rightarrow> u32 \<Rightarrow> children \<Rightarrow> nat option" where
  "probe P h c = scan_slots P (ch_slots c) (probe_path (length (ch_slots c)) h)"

definition is_entry :: "u32 \<Rightarrow> u8 list \<Rightarrow> child_slot \<Rightarrow> bool" where
  "is_entry h name s = (cs_hash s = h \<and> name_matches s name)"

definition contains_name :: "u32 \<Rightarrow> u8 list \<Rightarrow> children \<Rightarrow> bool" where
  "contains_name h name c = (probe (is_entry h name) h c \<noteq> None)"

text \<open>The loop of \<open>insert\<close>: the first tombstone before an empty slot, or else that slot.\<close>

fun place_slot :: "child_slot list \<Rightarrow> nat option \<Rightarrow> nat list \<Rightarrow> nat option" where
  "place_slot slots tombstone_idx [] = tombstone_idx"
| "place_slot slots tombstone_idx (idx # rest) =
     (case cs_state (slots ! idx) of
        Empty \<Rightarrow> Some (case tombstone_idx of None \<Rightarrow> idx | Some t \<Rightarrow> t)
      | Tombstone \<Rightarrow> place_slot slots (if tombstone_idx = None then Some idx else tombstone_idx) rest
      | Occupied \<Rightarrow> place_slot slots tombstone_idx rest)"

definition mk_slot :: "u8 list \<Rightarrow> nat \<Rightarrow> child_slot" where
  "mk_slot name cid = set_name name \<lparr>cs_hash = name_hash name, cs_id = cid, cs_state = Occupied, cs_name_len = 0,
     cs_name = replicate CHILD_NAME_LEN 0\<rparr>"

definition ch_insert :: "u8 list \<Rightarrow> nat \<Rightarrow> children \<Rightarrow> bool \<times> children" where
  "ch_insert name cid c0 =
     (let c1 = ensure_init c0;
          c = (if needs_rehash c1 then rehash c1 else c1);
          h = name_hash name
      in if contains_name h name c then (False, c)
         else
           (case place_slot (ch_slots c) None (probe_path (length (ch_slots c)) h) of
              Some dst \<Rightarrow> (True, c\<lparr>ch_slots := (ch_slots c)[dst := mk_slot name cid], ch_count := ch_count c + 1\<rparr>)
            | None \<Rightarrow> (False, c)))"

definition find_by_name :: "u8 list \<Rightarrow> children \<Rightarrow> nat option" where
  "find_by_name name c =
     map_option (\<lambda>idx. cs_id (ch_slots c ! idx)) (probe (is_entry (name_hash name) name) (name_hash name) c)"

definition kill_slot :: "nat \<Rightarrow> children \<Rightarrow> children" where
  "kill_slot idx c = c\<lparr>ch_slots := (ch_slots c)[idx := (ch_slots c ! idx)\<lparr>cs_state := Tombstone\<rparr>],
     ch_count := (if ch_count c > 0 then ch_count c - 1 else ch_count c)\<rparr>"

definition remove_by_name :: "u8 list \<Rightarrow> children \<Rightarrow> nat option \<times> children" where
  "remove_by_name name c =
     (case probe (is_entry (name_hash name) name) (name_hash name) c of
        Some idx \<Rightarrow> (Some (cs_id (ch_slots c ! idx)), kill_slot idx c)
      | None \<Rightarrow> (None, c))"

definition find_by_hash :: "u32 \<Rightarrow> children \<Rightarrow> nat list" where
  "find_by_hash h c =
     map (\<lambda>idx. cs_id (ch_slots c ! idx))
       (filter (\<lambda>idx. cs_state (ch_slots c ! idx) = Occupied \<and> cs_hash (ch_slots c ! idx) = h)
         (takeWhile (\<lambda>idx. cs_state (ch_slots c ! idx) \<noteq> Empty) (probe_path (length (ch_slots c)) h)))"

definition get_first :: "u32 \<Rightarrow> children \<Rightarrow> nat option" where
  "get_first h c = map_option (\<lambda>idx. cs_id (ch_slots c ! idx)) (probe (\<lambda>s. cs_hash s = h) h c)"

definition ch_remove :: "u32 \<Rightarrow> nat \<Rightarrow> children \<Rightarrow> bool \<times> children" where
  "ch_remove h cid c =
     (case probe (\<lambda>s. cs_hash s = h \<and> cs_id s = cid) h c of
        Some idx \<Rightarrow> (True, kill_slot idx c)
      | None \<Rightarrow> (False, c))"

definition remove_by_hash :: "u32 \<Rightarrow> children \<Rightarrow> nat option \<times> children" where
  "remove_by_hash h c =
     (case probe (\<lambda>s. cs_hash s = h) h c of
        Some idx \<Rightarrow> (Some (cs_id (ch_slots c ! idx)), kill_slot idx c)
      | None \<Rightarrow> (None, c))"

definition ch_clear :: "children \<Rightarrow> children" where
  "ch_clear c = c\<lparr>ch_slots := map (\<lambda>_. cs_empty) (ch_slots c), ch_count := 0\<rparr>"

definition ch_is_empty :: "children \<Rightarrow> bool" where
  "ch_is_empty c = (ch_count c = 0)"

definition ch_iter :: "children \<Rightarrow> (u32 \<times> nat) list" where
  "ch_iter c = map (\<lambda>s. (cs_hash s, cs_id s)) (filter (\<lambda>s. cs_state s = Occupied) (ch_slots c))"

section \<open>Probing\<close>

lemma probe_path_0 [simp]: "probe_path 0 h = []"
  by (simp add: probe_path_def ring_order_def)

lemma set_probe_path [simp]: "set (probe_path cap h) = {..<cap}"
proof (cases "0 < cap")
  case True
  then show ?thesis by (simp add: probe_path_def set_ring_order)
qed simp

text \<open>A slot is reachable on a path when no slot before it is empty.\<close>

definition reachable :: "child_slot list \<Rightarrow> nat list \<Rightarrow> nat \<Rightarrow> bool" where
  "reachable slots path i = (\<exists>pre post. path = pre @ i # post \<and> (\<forall>j\<in>set pre. cs_state (slots ! j) \<noteq> Empty))"

lemma reachable_Cons:
  "reachable slots (x # path) i \<longleftrightarrow> x = i \<or> cs_state (slots ! x) \<noteq> Empty \<and> reachable slots path i"
proof
  assume "reachable slots (x # path) i"
  then obtain pre post where p: "x # path = pre @ i # post" "\<forall>j\<in>set pre. cs_state (slots ! j) \<noteq> Empty"
    by (auto simp: reachable_def)
  then show "x = i \<or> cs_state (slots ! x) \<noteq> Empty \<and> reachable slots path i"
    by (cases pre) (auto simp: reachable_def)
next
  assume "x = i \<or> cs_state (slots ! x) \<noteq> Empty \<and> reachable slots path i"
  then show "reachable slots (x # path) i"
  proof
    assume "x = i"
    then have "x # path = [] @ i # path" by simp
    then show ?thesis unfolding reachable_def by (metis empty_iff empty_set)
  next
    assume a: "cs_state (slots ! x) \<noteq> Empty \<and> reachable slots path i"
    then obtain pre post where "path = pre @ i # post" "\<forall>j\<in>set pre. cs_state (slots ! j) \<noteq> Empty"
      by (auto simp: reachable_def)
    with a have "x # path = (x # pre) @ i # post \<and> (\<forall>j\<in>set (x # pre). cs_state (slots ! j) \<noteq> Empty)" by simp
    then show ?thesis unfolding reachable_def by blast
  qed
qed

lemma reachable_Nil [simp]: "\<not> reachable slots [] i"
  by (simp add: reachable_def)

lemma reachable_mono:
  "reachable slots path i \<Longrightarrow> (\<And>j. cs_state (slots ! j) \<noteq> Empty \<Longrightarrow> cs_state (slots' ! j) \<noteq> Empty) \<Longrightarrow>
   reachable slots' path i"
  unfolding reachable_def by blast

lemma scan_Some:
  "scan_slots P slots path = Some i \<Longrightarrow> i \<in> set path \<and> cs_state (slots ! i) = Occupied \<and> P (slots ! i)"
  by (induction path) (auto split: slot_state.splits if_splits)

lemma scan_finds:
  assumes "reachable slots path i" and "cs_state (slots ! i) = Occupied" and "P (slots ! i)"
    and "\<And>j. j \<in> set path \<Longrightarrow> cs_state (slots ! j) = Occupied \<Longrightarrow> P (slots ! j) \<Longrightarrow> j = i"
  shows "scan_slots P slots path = Some i"
  using assms(1,4)
proof (induction path)
  case (Cons a path)
  show ?case
  proof (cases "a = i")
    case True
    with assms(2,3) show ?thesis by simp
  next
    case False
    then have ne: "cs_state (slots ! a) \<noteq> Empty" and r: "reachable slots path i"
      using Cons.prems(1) by (simp_all add: reachable_Cons)
    have "\<not> (cs_state (slots ! a) = Occupied \<and> P (slots ! a))" using Cons.prems(2) [of a] False by auto
    moreover have "scan_slots P slots path = Some i" by (rule Cons.IH [OF r]) (rule Cons.prems(2); simp)
    ultimately show ?thesis using ne by (simp split: slot_state.split)
  qed
qed simp

lemma place_slot_Some_tomb: "place_slot slots (Some t) path = Some t"
  by (induction path) (auto split: slot_state.split)

lemma place_slot_Some:
  "place_slot slots None path = Some d \<Longrightarrow> d \<in> set path \<and> cs_state (slots ! d) \<noteq> Occupied \<and> reachable slots path d"
  by (induction path) (auto simp: place_slot_Some_tomb reachable_Cons split: slot_state.splits)

lemma place_slot_None:
  "place_slot slots None path = None \<Longrightarrow> i \<in> set path \<Longrightarrow> cs_state (slots ! i) = Occupied"
  by (induction path) (auto simp: place_slot_Some_tomb split: slot_state.splits)

section \<open>Names that the table tells apart\<close>

text \<open>A stored name longer than 32 bytes is compared by hash and prefix only. On a set of
  names without a collision of both, the comparison is equality; names of at most 32 bytes
  never collide.\<close>

definition collision_free :: "u8 list set \<Rightarrow> bool" where
  "collision_free N = ([] \<notin> N \<and> (\<forall>m\<in>N. \<forall>n\<in>N. name_hash m = name_hash n \<and> take CHILD_NAME_LEN m = take CHILD_NAME_LEN n \<longrightarrow> m = n))"

definition short_names :: "u8 list set" where
  "short_names = {n. n \<noteq> [] \<and> length n \<le> CHILD_NAME_LEN}"

lemma collision_free_short: "collision_free short_names"
  by (auto simp: collision_free_def short_names_def)

lemma mk_slot_fields [simp]:
  "cs_hash (mk_slot n i) = name_hash n" "cs_id (mk_slot n i) = i" "cs_state (mk_slot n i) = Occupied"
  by (simp_all add: mk_slot_def set_name_def Let_def)

lemma name_matches_mk_slot:
  assumes "m \<noteq> []"
  shows "name_matches (mk_slot m i) n \<longleftrightarrow>
    (if length m \<le> CHILD_NAME_LEN then n = m
     else CHILD_NAME_LEN \<le> length n \<and> take CHILD_NAME_LEN n = take CHILD_NAME_LEN m)"
  using assms by (auto simp: name_matches_def mk_slot_def set_name_def Let_def min_def CHILD_NAME_LEN_def)

lemma is_entry_mk_slot:
  assumes "collision_free N" and "m \<in> N" and "n \<in> N"
  shows "is_entry (name_hash n) n (mk_slot m i) \<longleftrightarrow> n = m"
proof -
  have m: "m \<noteq> []" using assms by (auto simp: collision_free_def)
  have "name_hash m = name_hash n \<Longrightarrow> take CHILD_NAME_LEN m = take CHILD_NAME_LEN n \<Longrightarrow> m = n"
    using assms unfolding collision_free_def by blast
  then show ?thesis by (auto simp: is_entry_def name_matches_mk_slot [OF m])
qed

section \<open>Invariant and abstraction\<close>

definition occ :: "child_slot list \<Rightarrow> nat set" where
  "occ sl = {i. i < length sl \<and> cs_state (sl ! i) = Occupied}"

definition binds :: "child_slot list \<Rightarrow> u8 list \<Rightarrow> nat \<Rightarrow> bool" where
  "binds sl n x = (\<exists>i\<in>occ sl. sl ! i = mk_slot n x)"

definition tbl_ok :: "u8 list set \<Rightarrow> child_slot list \<Rightarrow> bool" where
  "tbl_ok N sl =
     ((\<forall>i\<in>occ sl. reachable sl (probe_path (length sl) (cs_hash (sl ! i))) i)
    \<and> (\<forall>i\<in>occ sl. \<exists>n\<in>N. \<exists>x. sl ! i = mk_slot n x)
    \<and> (\<forall>i\<in>occ sl. \<forall>j\<in>occ sl. \<forall>n\<in>N. is_entry (name_hash n) n (sl ! i) \<and> is_entry (name_hash n) n (sl ! j) \<longrightarrow> i = j))"

definition ch_inv :: "u8 list set \<Rightarrow> children \<Rightarrow> bool" where
  "ch_inv N c = (tbl_ok N (ch_slots c) \<and> ch_count c = card (occ (ch_slots c)))"

lemma finite_occ [simp]: "finite (occ sl)"
  by (simp add: occ_def)

lemma tbl_okD:
  assumes "tbl_ok N sl"
  shows "i \<in> occ sl \<Longrightarrow> reachable sl (probe_path (length sl) (cs_hash (sl ! i))) i"
    and "i \<in> occ sl \<Longrightarrow> \<exists>n\<in>N. \<exists>x. sl ! i = mk_slot n x"
    and "i \<in> occ sl \<Longrightarrow> j \<in> occ sl \<Longrightarrow> n \<in> N \<Longrightarrow> is_entry (name_hash n) n (sl ! i) \<Longrightarrow> is_entry (name_hash n) n (sl ! j) \<Longrightarrow> i = j"
  using assms unfolding tbl_ok_def by blast+

lemma probe_entry:
  assumes "collision_free N" and "tbl_ok N (ch_slots c)" and "n \<in> N"
  shows "probe (is_entry (name_hash n) n) (name_hash n) c = Some i \<longleftrightarrow> i \<in> occ (ch_slots c) \<and> (\<exists>x. ch_slots c ! i = mk_slot n x)"
proof
  assume p: "probe (is_entry (name_hash n) n) (name_hash n) c = Some i"
  note s = scan_Some [OF p [unfolded probe_def]]
  then have i: "i \<in> occ (ch_slots c)" by (auto simp: occ_def)
  obtain m x where m: "m \<in> N" "ch_slots c ! i = mk_slot m x" using tbl_okD(2) [OF assms(2) i] by blast
  with s is_entry_mk_slot [OF assms(1) m(1) assms(3)] have "n = m" by simp
  with i m show "i \<in> occ (ch_slots c) \<and> (\<exists>x. ch_slots c ! i = mk_slot n x)" by blast
next
  assume "i \<in> occ (ch_slots c) \<and> (\<exists>x. ch_slots c ! i = mk_slot n x)"
  then obtain x where i: "i \<in> occ (ch_slots c)" "ch_slots c ! i = mk_slot n x" by blast
  have e: "is_entry (name_hash n) n (ch_slots c ! i)" using i is_entry_mk_slot [OF assms(1,3,3)] by simp
  show "probe (is_entry (name_hash n) n) (name_hash n) c = Some i"
    unfolding probe_def
  proof (rule scan_finds)
    show "reachable (ch_slots c) (probe_path (length (ch_slots c)) (name_hash n)) i"
      using tbl_okD(1) [OF assms(2) i(1)] i(2) by simp
    show "cs_state (ch_slots c ! i) = Occupied" using i(2) by simp
    show "is_entry (name_hash n) n (ch_slots c ! i)" by (rule e)
    fix j
    assume "j \<in> set (probe_path (length (ch_slots c)) (name_hash n))" "cs_state (ch_slots c ! j) = Occupied"
      and ej: "is_entry (name_hash n) n (ch_slots c ! j)"
    then have "j \<in> occ (ch_slots c)" using i(1) by (auto simp: occ_def)
    then show "j = i" using tbl_okD(3) [OF assms(2) _ i(1) assms(3) ej e] by blast
  qed
qed

lemma find_by_name_binds:
  assumes "collision_free N" and "tbl_ok N (ch_slots c)" and "n \<in> N"
  shows "find_by_name n c = Some x \<longleftrightarrow> binds (ch_slots c) n x"
  unfolding find_by_name_def map_option_eq_Some probe_entry [OF assms] binds_def by auto

section \<open>Filling and clearing a slot\<close>

lemma occ_put: "d < length sl \<Longrightarrow> occ (sl[d := mk_slot n x]) = insert d (occ sl)"
  by (auto simp: occ_def nth_list_update split: if_splits)

lemma binds_put:
  assumes "d < length sl" and "d \<notin> occ sl"
  shows "binds (sl[d := mk_slot n x]) m y \<longleftrightarrow> binds sl m y \<or> mk_slot n x = mk_slot m y"
proof -
  have "sl[d := mk_slot n x] ! i = sl ! i" if "i \<in> occ sl" for i
    using that assms(2) by (metis nth_list_update_neq)
  then show ?thesis using assms(1) unfolding binds_def occ_put [OF assms(1)] by auto
qed

lemma put_tbl_ok:
  assumes ok: "tbl_ok N sl" and cf: "collision_free N" and n: "n \<in> N"
    and d: "d < length sl" "d \<notin> occ sl" and r: "reachable sl (probe_path (length sl) (name_hash n)) d"
    and fresh: "\<And>i. i \<in> occ sl \<Longrightarrow> \<not> is_entry (name_hash n) n (sl ! i)"
  shows "tbl_ok N (sl[d := mk_slot n x])"
proof -
  let ?sl = "sl[d := mk_slot n x]"
  have same: "?sl ! i = sl ! i" if "i \<in> occ sl" for i using that d(2) by (metis nth_list_update_neq)
  have at: "?sl ! d = mk_slot n x" using d(1) by simp
  have mono: "cs_state (sl ! j) \<noteq> Empty \<Longrightarrow> cs_state (?sl ! j) \<noteq> Empty" for j
    by (cases "j = d") (simp_all add: d(1))
  have reach: "reachable ?sl (probe_path (length sl) (cs_hash (?sl ! i))) i" if "i \<in> insert d (occ sl)" for i
  proof (cases "i = d")
    case True
    with reachable_mono [OF r mono] at show ?thesis by simp
  next
    case False
    with that have i: "i \<in> occ sl" by simp
    from reachable_mono [OF tbl_okD(1) [OF ok i] mono] show ?thesis by (simp add: same [OF i])
  qed
  have names: "\<exists>m\<in>N. \<exists>y. ?sl ! i = mk_slot m y" if "i \<in> insert d (occ sl)" for i
    using that tbl_okD(2) [OF ok] same at n by (cases "i = d") auto
  have uniq: "i = j" if ij: "i \<in> insert d (occ sl)" "j \<in> insert d (occ sl)" and m: "m \<in> N"
    and e: "is_entry (name_hash m) m (?sl ! i)" "is_entry (name_hash m) m (?sl ! j)" for i j m
  proof (cases "m = n")
    case True
    have "k = d" if "k \<in> insert d (occ sl)" "is_entry (name_hash n) n (?sl ! k)" for k
      using that fresh [of k] same [of k] by auto
    with ij e True show ?thesis by metis
  next
    case False
    then have "\<not> is_entry (name_hash m) m (?sl ! d)" using at is_entry_mk_slot [OF cf n m] by simp
    with ij e have "i \<in> occ sl" "j \<in> occ sl" by auto
    with tbl_okD(3) [OF ok this m] e same show ?thesis by simp
  qed
  show ?thesis unfolding tbl_ok_def occ_put [OF d(1)] length_list_update
    by (intro conjI ballI impI; (elim conjE)?) (rule reach names uniq; assumption)+
qed

lemma occ_kill: "occ (sl[d := s\<lparr>cs_state := Tombstone\<rparr>]) = occ sl - {d}"
  by (cases "d < length sl") (auto simp: occ_def nth_list_update split: if_splits)

lemma kill_tbl_ok:
  assumes ok: "tbl_ok N sl"
  shows "tbl_ok N (sl[d := s\<lparr>cs_state := Tombstone\<rparr>])"
proof -
  let ?sl = "sl[d := s\<lparr>cs_state := Tombstone\<rparr>]"
  have same: "?sl ! i = sl ! i" if "i \<in> occ sl - {d}" for i using that by auto
  have "cs_state (sl ! j) \<noteq> Empty \<Longrightarrow> cs_state (?sl ! j) \<noteq> Empty" for j
    by (cases "j = d"; cases "d < length sl") (simp_all add: nth_list_update list_update_beyond)
  then have reach: "reachable ?sl (probe_path (length sl) (cs_hash (?sl ! i))) i" if "i \<in> occ sl - {d}" for i
    using reachable_mono [OF tbl_okD(1) [OF ok]] same that by simp
  have names: "\<exists>m\<in>N. \<exists>y. ?sl ! i = mk_slot m y" if "i \<in> occ sl - {d}" for i
    using tbl_okD(2) [OF ok, of i] same [OF that] that by simp
  have uniq: "i = j" if "i \<in> occ sl - {d}" "j \<in> occ sl - {d}" "m \<in> N"
    "is_entry (name_hash m) m (?sl ! i)" "is_entry (name_hash m) m (?sl ! j)" for i j m
    using tbl_okD(3) [OF ok _ _ that(3), of i j] same that by simp
  show ?thesis unfolding tbl_ok_def occ_kill length_list_update
    by (intro conjI ballI impI; (elim conjE)?) (rule reach names uniq; assumption)+
qed

lemma binds_kill:
  assumes ok: "tbl_ok N sl" and cf: "collision_free N" and n: "n \<in> N" and d: "d \<in> occ sl" "sl ! d = mk_slot n x" and m: "m \<in> N"
  shows "binds (sl[d := s\<lparr>cs_state := Tombstone\<rparr>]) m y \<longleftrightarrow> binds sl m y \<and> m \<noteq> n"
proof -
  have a: "i = d" if "i \<in> occ sl" "sl ! i = mk_slot n z" for i z
    using tbl_okD(3) [OF ok that(1) d(1) n] that(2) d(2) is_entry_mk_slot [OF cf n n] by simp
  have b: "m = n" if "mk_slot n x = mk_slot m z" for z
    using that is_entry_mk_slot [OF cf n m, of x] is_entry_mk_slot [OF cf m m, of z] by simp
  have "binds (sl[d := s\<lparr>cs_state := Tombstone\<rparr>]) m y \<longleftrightarrow> (\<exists>i\<in>occ sl. i \<noteq> d \<and> sl ! i = mk_slot m y)"
    unfolding binds_def occ_kill by auto
  also have "\<dots> \<longleftrightarrow> binds sl m y \<and> m \<noteq> n"
  proof
    assume "\<exists>i\<in>occ sl. i \<noteq> d \<and> sl ! i = mk_slot m y"
    then show "binds sl m y \<and> m \<noteq> n" using a unfolding binds_def by blast
  next
    assume "binds sl m y \<and> m \<noteq> n"
    then show "\<exists>i\<in>occ sl. i \<noteq> d \<and> sl ! i = mk_slot m y" using b d(2) unfolding binds_def by metis
  qed
  finally show ?thesis .
qed

section \<open>Growing the table\<close>

lemma cs_empty_state [simp]: "cs_state cs_empty = Empty"
  by (simp add: cs_empty_def)

lemma occ_replicate [simp]: "occ (replicate k cs_empty) = {}"
  by (auto simp: occ_def)

lemma tbl_ok_replicate: "tbl_ok N (replicate k cs_empty)"
  by (simp add: tbl_ok_def)

lemma find_reachable:
  "List.find (\<lambda>idx. cs_state (slots ! idx) = Empty) path = Some d \<Longrightarrow> reachable slots path d"
  by (induction path) (auto simp: reachable_Cons split: if_splits)

definition rehash_inv :: "u8 list set \<Rightarrow> child_slot list \<Rightarrow> nat \<Rightarrow> child_slot list \<Rightarrow> bool" where
  "rehash_inv N old k new =
     (tbl_ok N new \<and> length new = 2 * length old \<and> (\<forall>i<length new. cs_state (new ! i) \<noteq> Tombstone)
    \<and> card (occ new) = card (occ old \<inter> {..<k}) \<and> (\<forall>m y. binds new m y \<longleftrightarrow> (\<exists>i\<in>occ old \<inter> {..<k}. old ! i = mk_slot m y)))"

lemma rehash_step:
  assumes inv: "rehash_inv N old k new" and k: "k < length old" and ok: "tbl_ok N old" and cf: "collision_free N"
  shows "rehash_inv N old (Suc k) (rehash_slot (old ! k) new)"
proof (cases "k \<in> occ old")
  case False
  then have "occ old \<inter> {..<Suc k} = occ old \<inter> {..<k}" by (auto simp: less_Suc_eq)
  moreover have "cs_state (old ! k) \<noteq> Occupied" using False k by (simp add: occ_def)
  ultimately show ?thesis using inv by (simp add: rehash_inv_def rehash_slot_def)
next
  case True
  have I: "tbl_ok N new" "length new = 2 * length old" "\<And>i. i < length new \<Longrightarrow> cs_state (new ! i) \<noteq> Tombstone"
    "card (occ new) = card (occ old \<inter> {..<k})"
    "\<And>m y. binds new m y \<longleftrightarrow> (\<exists>i\<in>occ old \<inter> {..<k}. old ! i = mk_slot m y)"
    using inv unfolding rehash_inv_def by blast+
  have step: "occ old \<inter> {..<Suc k} = insert k (occ old \<inter> {..<k})" using True by (auto simp: less_Suc_eq)
  obtain n x where n: "n \<in> N" "old ! k = mk_slot n x" using tbl_okD(2) [OF ok True] by blast
  have "card (occ new) \<le> k" using I(4) card_mono [of "{..<k}" "occ old \<inter> {..<k}"] by simp
  then have "\<not> {..<length new} \<subseteq> occ new" using I(2) k card_mono [of "occ new" "{..<length new}"] by auto
  then obtain e where "e < length new" "e \<notin> occ new" by blast
  then have "e \<in> set (probe_path (length new) (name_hash n))" "cs_state (new ! e) = Empty"
    using I(3) [of e]
    by (auto simp: occ_def intro: slot_state.exhaust [of "cs_state (new ! e)"])
  then obtain d where d: "List.find (\<lambda>idx. cs_state (new ! idx) = Empty) (probe_path (length new) (name_hash n)) = Some d"
    by (cases "List.find (\<lambda>idx. cs_state (new ! idx) = Empty) (probe_path (length new) (name_hash n))")
      (auto simp: find_None_iff)
  have dl: "d < length new" "d \<notin> occ new" using find_SomeD [OF d] \<open>e < length new\<close> by (auto simp: occ_def)
  have new': "rehash_slot (old ! k) new = new[d := mk_slot n x]" using d n(2) by (simp add: rehash_slot_def)
  have fresh: "\<not> is_entry (name_hash n) n (new ! i)" if i: "i \<in> occ new" for i
  proof
    assume e: "is_entry (name_hash n) n (new ! i)"
    obtain m y where m: "m \<in> N" "new ! i = mk_slot m y" using tbl_okD(2) [OF I(1) i] by blast
    with e is_entry_mk_slot [OF cf m(1) n(1)] have "n = m" by simp
    with m i have "binds new n y" unfolding binds_def by blast
    with I(5) obtain j where j: "j \<in> occ old" "j < k" "old ! j = mk_slot n y" by auto
    from tbl_okD(3) [OF ok j(1) True n(1)] j n(2) is_entry_mk_slot [OF cf n(1) n(1)] show False by simp
  qed
  have ok': "tbl_ok N (new[d := mk_slot n x])"
    by (rule put_tbl_ok [OF _ cf n(1) dl find_reachable [OF d] fresh]) (simp_all add: I(1))
  have b: "binds (new[d := mk_slot n x]) m y \<longleftrightarrow> (\<exists>i\<in>insert k (occ old \<inter> {..<k}). old ! i = mk_slot m y)" for m y
    unfolding binds_put [OF dl] I(5) using n(2) by auto
  have "\<forall>i<length new. cs_state (new[d := mk_slot n x] ! i) \<noteq> Tombstone" using dl(1) by (simp add: nth_list_update I(3))
  moreover have "card (insert d (occ new)) = card (insert k (occ old \<inter> {..<k}))" using I(4) dl(2) by simp
  ultimately show ?thesis
    unfolding rehash_inv_def new' step occ_put [OF dl(1)] length_list_update using ok' b I(2) by blast
qed

lemma rehash_fold:
  assumes "k \<le> length old" and ok: "tbl_ok N old" and cf: "collision_free N"
  shows "rehash_inv N old k (fold rehash_slot (take k old) (replicate (length old * 2) cs_empty))"
  using assms(1)
proof (induction k)
  case 0
  then show ?case by (auto simp: rehash_inv_def tbl_ok_replicate binds_def)
next
  case (Suc k)
  then show ?case using rehash_step [OF _ _ ok cf] by (simp add: take_Suc_conv_app_nth)
qed

lemma rehash_ok:
  assumes "ch_inv N c" and "collision_free N"
  shows "ch_inv N (rehash c)" "length (ch_slots (rehash c)) = 2 * length (ch_slots c)"
    "binds (ch_slots (rehash c)) m y \<longleftrightarrow> binds (ch_slots c) m y" "ch_count (rehash c) = ch_count c"
proof -
  have ok: "tbl_ok N (ch_slots c)" using assms(1) by (simp add: ch_inv_def)
  have all: "occ (ch_slots c) \<inter> {..<length (ch_slots c)} = occ (ch_slots c)" by (auto simp: occ_def)
  note r = rehash_fold [OF order_refl ok assms(2)]
  then show "ch_inv N (rehash c)" "length (ch_slots (rehash c)) = 2 * length (ch_slots c)"
    "binds (ch_slots (rehash c)) m y \<longleftrightarrow> binds (ch_slots c) m y" "ch_count (rehash c) = ch_count c"
    using assms(1) by (simp_all add: rehash_inv_def rehash_def ch_inv_def all binds_def)
qed

section \<open>The operations refine a map\<close>

lemma ensure_init_ok:
  assumes "ch_inv N c"
  shows "ch_inv N (ensure_init c)" "binds (ch_slots (ensure_init c)) m y \<longleftrightarrow> binds (ch_slots c) m y"
    "ch_slots (ensure_init c) \<noteq> []"
  using assms by (auto simp: ensure_init_def ch_inv_def tbl_ok_replicate binds_def occ_def)

text \<open>After the initialisation and the growth at the start of \<open>insert\<close> some slot is free.\<close>

lemma grow_ok:
  assumes "ch_inv N c0" and "collision_free N"
  defines "c \<equiv> (if needs_rehash (ensure_init c0) then rehash (ensure_init c0) else ensure_init c0)"
  shows "ch_inv N c" "binds (ch_slots c) m y \<longleftrightarrow> binds (ch_slots c0) m y" "card (occ (ch_slots c)) < length (ch_slots c)"
proof -
  let ?i = "ensure_init c0"
  note e = ensure_init_ok [OF assms(1)] and r = rehash_ok [OF ensure_init_ok(1) [OF assms(1)] assms(2)]
  show inv: "ch_inv N c" and "binds (ch_slots c) m y \<longleftrightarrow> binds (ch_slots c0) m y"
    using e r by (auto simp: c_def)
  have cnt: "ch_count ?i = card (occ (ch_slots ?i))" using e(1) by (simp add: ch_inv_def)
  have "card (occ (ch_slots ?i)) \<le> length (ch_slots ?i)"
    using card_mono [of "{..<length (ch_slots ?i)}" "occ (ch_slots ?i)"] by (auto simp: occ_def)
  moreover have "0 < length (ch_slots ?i)" using e(3) by simp
  ultimately have "ch_count c < length (ch_slots c)"
    using r(2,4) cnt by (auto simp: c_def needs_rehash_def simp del: length_greater_0_conv)
  then show "card (occ (ch_slots c)) < length (ch_slots c)" using inv by (simp add: ch_inv_def)
qed

lemma find_by_name_cong:
  assumes "collision_free N" and "tbl_ok N (ch_slots c)" and "tbl_ok N (ch_slots c')" and "n \<in> N"
    and "\<And>y. binds (ch_slots c) n y \<longleftrightarrow> binds (ch_slots c') n y"
  shows "find_by_name n c = find_by_name n c'"
  using find_by_name_binds [OF assms(1,2,4)] find_by_name_binds [OF assms(1,3,4)] assms(5) by (metis not_Some_eq)

lemma ch_insert_ok:
  assumes inv: "ch_inv N c0" and cf: "collision_free N" and n: "n \<in> N"
  shows "ch_inv N (snd (ch_insert n x c0))" "fst (ch_insert n x c0) \<longleftrightarrow> find_by_name n c0 = None"
    "m \<in> N \<Longrightarrow> find_by_name m (snd (ch_insert n x c0)) =
       (if m = n \<and> find_by_name n c0 = None then Some x else find_by_name m c0)"
proof -
  define c where "c = (if needs_rehash (ensure_init c0) then rehash (ensure_init c0) else ensure_init c0)"
  note g = grow_ok [OF inv cf, folded c_def]
  have ok0: "tbl_ok N (ch_slots c0)" and ok: "tbl_ok N (ch_slots c)" and cnt: "ch_count c = card (occ (ch_slots c))"
    using inv g(1) by (simp_all add: ch_inv_def)
  have find: "m \<in> N \<Longrightarrow> find_by_name m c = find_by_name m c0" for m
    by (rule find_by_name_cong [OF cf ok ok0]) (simp_all add: g(2))
  have has: "contains_name (name_hash n) n c \<longleftrightarrow> find_by_name n c0 \<noteq> None"
    unfolding find [OF n, symmetric] by (simp add: contains_name_def find_by_name_def)
  have ins: "ch_insert n x c0 = (if contains_name (name_hash n) n c then (False, c)
      else case place_slot (ch_slots c) None (probe_path (length (ch_slots c)) (name_hash n)) of
        Some dst \<Rightarrow> (True, c\<lparr>ch_slots := (ch_slots c)[dst := mk_slot n x], ch_count := ch_count c + 1\<rparr>)
      | None \<Rightarrow> (False, c))"
    unfolding ch_insert_def Let_def c_def ..
  have "ch_inv N (snd (ch_insert n x c0)) \<and> (fst (ch_insert n x c0) \<longleftrightarrow> find_by_name n c0 = None) \<and>
    (\<forall>m\<in>N. find_by_name m (snd (ch_insert n x c0)) = (if m = n \<and> find_by_name n c0 = None then Some x else find_by_name m c0))"
  proof (cases "contains_name (name_hash n) n c")
    case True
    with has ins g(1) find show ?thesis by simp
  next
    case False
    have "\<not> {..<length (ch_slots c)} \<subseteq> occ (ch_slots c)"
      using g(3) card_mono [of "occ (ch_slots c)" "{..<length (ch_slots c)}"] by auto
    then obtain d where p: "place_slot (ch_slots c) None (probe_path (length (ch_slots c)) (name_hash n)) = Some d"
      using place_slot_None [of "ch_slots c" "probe_path (length (ch_slots c)) (name_hash n)"]
      by (auto simp: occ_def)
    note d = place_slot_Some [OF p]
    have dl: "d < length (ch_slots c)" "d \<notin> occ (ch_slots c)" using d by (auto simp: occ_def)
    have free: "\<not> binds (ch_slots c) n y" for y
      using False has find [OF n] find_by_name_binds [OF cf ok n] by simp
    have fresh: "\<not> is_entry (name_hash n) n (ch_slots c ! i)" if i: "i \<in> occ (ch_slots c)" for i
    proof
      assume e: "is_entry (name_hash n) n (ch_slots c ! i)"
      obtain m y where m: "m \<in> N" "ch_slots c ! i = mk_slot m y" using tbl_okD(2) [OF ok i] by blast
      with e is_entry_mk_slot [OF cf m(1) n] have "n = m" by simp
      with m i free [of y] show False unfolding binds_def by blast
    qed
    define c' where "c' = c\<lparr>ch_slots := (ch_slots c)[d := mk_slot n x], ch_count := ch_count c + 1\<rparr>"
    have ok': "tbl_ok N (ch_slots c')"
      unfolding c'_def by simp (rule put_tbl_ok [OF ok cf n dl _ fresh], simp_all add: d)
    have ins': "ch_insert n x c0 = (True, c')" using ins False p by (simp add: c'_def)
    have "ch_inv N c'" using ok' cnt dl(2) by (simp add: ch_inv_def c'_def occ_put [OF dl(1)])
    moreover have "find_by_name m c' = (if m = n then Some x else find_by_name m c0)" if m: "m \<in> N" for m
    proof (cases "m = n")
      case True
      then have "binds (ch_slots c') m x" by (simp add: c'_def binds_put [OF dl])
      with True show ?thesis using find_by_name_binds [OF cf ok' m] by simp
    next
      case False
      then have "mk_slot n x \<noteq> mk_slot m y" for y
        using is_entry_mk_slot [OF cf n m, of x] is_entry_mk_slot [OF cf m m, of y] by auto
      then have "binds (ch_slots c') m y \<longleftrightarrow> binds (ch_slots c) m y" for y by (simp add: c'_def binds_put [OF dl])
      from find_by_name_cong [OF cf ok' ok m this] find [OF m] False show ?thesis by simp
    qed
    ultimately show ?thesis using ins' False has by simp
  qed
  then show "ch_inv N (snd (ch_insert n x c0))" "fst (ch_insert n x c0) \<longleftrightarrow> find_by_name n c0 = None"
    "m \<in> N \<Longrightarrow> find_by_name m (snd (ch_insert n x c0)) = (if m = n \<and> find_by_name n c0 = None then Some x else find_by_name m c0)"
    by blast+
qed

lemma kill_slot_ok:
  assumes inv: "ch_inv N c" and cf: "collision_free N" and n: "n \<in> N"
    and d: "d \<in> occ (ch_slots c)" "ch_slots c ! d = mk_slot n x"
  shows "ch_inv N (kill_slot d c)" "m \<in> N \<Longrightarrow> find_by_name m (kill_slot d c) = (if m = n then None else find_by_name m c)"
proof -
  have ok: "tbl_ok N (ch_slots c)" and cnt: "ch_count c = card (occ (ch_slots c))" using inv by (simp_all add: ch_inv_def)
  have ok': "tbl_ok N (ch_slots (kill_slot d c))" using kill_tbl_ok [OF ok] by (simp add: kill_slot_def)
  have "card (occ (ch_slots c)) > 0" using d(1) by (auto simp: card_gt_0_iff)
  then show "ch_inv N (kill_slot d c)"
    using ok' d(1) cnt by (simp add: ch_inv_def kill_slot_def occ_kill card_Diff_singleton)
  assume m: "m \<in> N"
  have b: "binds (ch_slots (kill_slot d c)) m y \<longleftrightarrow> binds (ch_slots c) m y \<and> m \<noteq> n" for y
    using binds_kill [OF ok cf n d m] by (simp add: kill_slot_def)
  show "find_by_name m (kill_slot d c) = (if m = n then None else find_by_name m c)"
    using find_by_name_binds [OF cf ok' m] find_by_name_binds [OF cf ok m] b by (cases "m = n") (metis not_Some_eq)+
qed

lemma remove_by_name_ok:
  assumes inv: "ch_inv N c" and cf: "collision_free N" and n: "n \<in> N"
  shows "ch_inv N (snd (remove_by_name n c))" "fst (remove_by_name n c) = find_by_name n c"
    "m \<in> N \<Longrightarrow> find_by_name m (snd (remove_by_name n c)) = (if m = n then None else find_by_name m c)"
proof -
  have ok: "tbl_ok N (ch_slots c)" using inv by (simp add: ch_inv_def)
  show "fst (remove_by_name n c) = find_by_name n c"
    by (simp add: remove_by_name_def find_by_name_def split: option.split)
  show "ch_inv N (snd (remove_by_name n c))"
    using inv kill_slot_ok(1) [OF inv cf n] probe_entry [OF cf ok n]
    by (auto simp: remove_by_name_def split: option.split)
  assume m: "m \<in> N"
  show "find_by_name m (snd (remove_by_name n c)) = (if m = n then None else find_by_name m c)"
    using kill_slot_ok(2) [OF inv cf n _ _ m] probe_entry [OF cf ok n]
    by (auto simp: remove_by_name_def find_by_name_def split: option.split)
qed

section \<open>The interface of a directory\<close>

text \<open>What the rest of the virtual file system relies on: a table of named entries behaves
  like a finite map, and a sequence of insertions and removals like the same sequence on the
  map.\<close>

datatype entry_op = Insert_Entry "u8 list" nat | Remove_Entry "u8 list"

fun entry_name :: "entry_op \<Rightarrow> u8 list" where
  "entry_name (Insert_Entry n x) = n"
| "entry_name (Remove_Entry n) = n"

fun map_op :: "entry_op \<Rightarrow> (u8 list \<rightharpoonup> nat) \<Rightarrow> (u8 list \<rightharpoonup> nat)" where
  "map_op (Insert_Entry n x) m = (if m n = None then m(n \<mapsto> x) else m)"
| "map_op (Remove_Entry n) m = m(n := None)"

fun entry_step :: "(u8 list \<Rightarrow> nat \<Rightarrow> 's \<Rightarrow> bool \<times> 's) \<Rightarrow> (u8 list \<Rightarrow> 's \<Rightarrow> nat option \<times> 's) \<Rightarrow> entry_op \<Rightarrow> 's \<Rightarrow> 's" where
  "entry_step ins rem (Insert_Entry n x) s = snd (ins n x s)"
| "entry_step ins rem (Remove_Entry n) s = snd (rem n s)"

locale name_table =
  fixes names :: "u8 list set"
    and inv :: "'s \<Rightarrow> bool"
    and find :: "u8 list \<Rightarrow> 's \<Rightarrow> nat option"
    and ins :: "u8 list \<Rightarrow> nat \<Rightarrow> 's \<Rightarrow> bool \<times> 's"
    and rem :: "u8 list \<Rightarrow> 's \<Rightarrow> nat option \<times> 's"
  assumes ins_inv: "inv s \<Longrightarrow> n \<in> names \<Longrightarrow> inv (snd (ins n x s))"
    and ins_result: "inv s \<Longrightarrow> n \<in> names \<Longrightarrow> fst (ins n x s) \<longleftrightarrow> find n s = None"
    and ins_find: "inv s \<Longrightarrow> n \<in> names \<Longrightarrow> m \<in> names \<Longrightarrow>
      find m (snd (ins n x s)) = (if m = n \<and> find n s = None then Some x else find m s)"
    and rem_inv: "inv s \<Longrightarrow> n \<in> names \<Longrightarrow> inv (snd (rem n s))"
    and rem_result: "inv s \<Longrightarrow> n \<in> names \<Longrightarrow> fst (rem n s) = find n s"
    and rem_find: "inv s \<Longrightarrow> n \<in> names \<Longrightarrow> m \<in> names \<Longrightarrow>
      find m (snd (rem n s)) = (if m = n then None else find m s)"
begin

lemma step_refines:
  assumes "inv s" and "entry_name op \<in> names" and "\<And>m. m \<in> names \<Longrightarrow> find m s = f m" and "m \<in> names"
  shows "find m (entry_step ins rem op s) = map_op op f m"
  using assms by (cases op) (auto simp: ins_find rem_find)

lemma step_inv: "inv s \<Longrightarrow> entry_name op \<in> names \<Longrightarrow> inv (entry_step ins rem op s)"
  by (cases op) (simp_all add: ins_inv rem_inv)

lemma run_refines:
  assumes "inv s" and "entry_name ` set ops \<subseteq> names" and "\<And>m. m \<in> names \<Longrightarrow> find m s = f m"
  shows "inv (fold (entry_step ins rem) ops s) \<and> (\<forall>m\<in>names. find m (fold (entry_step ins rem) ops s) = fold map_op ops f m)"
  using assms
proof (induction ops arbitrary: s f)
  case (Cons op ops)
  have "inv (entry_step ins rem op s)" using Cons.prems by (simp add: step_inv)
  moreover have "find m (entry_step ins rem op s) = map_op op f m" if "m \<in> names" for m
    by (rule step_refines) (use Cons.prems that in auto)
  ultimately show ?case using Cons.IH [of "entry_step ins rem op s" "map_op op f"] Cons.prems(2) by simp
qed simp

end

lemma children_name_table:
  assumes "collision_free N"
  shows "name_table N (ch_inv N) find_by_name ch_insert remove_by_name"
  by unfold_locales (simp_all add: ch_insert_ok [OF _ assms] remove_by_name_ok [OF _ assms])

interpretation short: name_table short_names "ch_inv short_names" find_by_name ch_insert remove_by_name
  by (rule children_name_table [OF collision_free_short])

lemma ch_inv_new: "ch_inv N ch_new"
  by (simp add: ch_inv_def ch_new_def tbl_ok_def occ_def)

lemma find_by_name_new [simp]: "find_by_name n ch_new = None"
  by (simp add: find_by_name_def probe_def ch_new_def)

section \<open>Properties\<close>



lemma scan_cong:
  "(\<And>i. i \<in> set path \<Longrightarrow> cs_state (slots ! i) = Occupied \<Longrightarrow> P (slots ! i) = Q (slots ! i)) \<Longrightarrow>
   scan_slots P slots path = scan_slots Q slots path"
  by (induction path) (auto split: slot_state.split)

lemma same_entry_probe:
  assumes "ch_inv {a} c" and "name_hash b = name_hash a" and "\<And>x. name_matches (mk_slot a x) b = name_matches (mk_slot a x) a"
  shows "probe (is_entry (name_hash b) b) (name_hash b) c = probe (is_entry (name_hash a) a) (name_hash a) c"
  unfolding probe_def assms(2)
proof (rule scan_cong)
  fix i
  assume "i \<in> set (probe_path (length (ch_slots c)) (name_hash a))" "cs_state (ch_slots c ! i) = Occupied"
  then have "i \<in> occ (ch_slots c)" by (simp add: occ_def)
  then obtain x where "ch_slots c ! i = mk_slot a x" using assms(1) tbl_okD(2) unfolding ch_inv_def by blast
  with assms(3) show "is_entry (name_hash a) b (ch_slots c ! i) = is_entry (name_hash a) a (ch_slots c ! i)"
    by (simp add: is_entry_def)
qed

lemma replicate_32: "replicate 32 x = [x, x, x, x, x, x, x, x, x, x, x, x, x, x, x, x, x, x, x, x, x, x, x, x, x, x, x, x, x, x, x, x]"
  by (simp add: numeral_eq_Suc)


end
