(* ===== verification/Slab.thy ===== *)
theory Slab
  imports VfsTypes Alloc
begin

text \<open>
  The fixed-capacity index allocator \<open>Slab<N>\<close> of \<open>kernel/fs/vfs/slab.rs\<close>: a stack of free
  indices and an occupancy flag per index. The capacity \<open>N\<close> is the length of the two
  arrays; a stored index is cut to 16 bits as in the source.
\<close>

record slab =
  sl_free_stack :: "nat list"
  sl_free_top :: nat
  sl_total_allocated :: nat
  sl_active :: "bool list"

definition slab_new :: "nat \<Rightarrow> slab" where
  "slab_new N = \<lparr>sl_free_stack = map (\<lambda>i. i mod 65536) [0..<N], sl_free_top = N,
     sl_total_allocated = 0, sl_active = replicate N False\<rparr>"

definition slab_capacity :: "slab \<Rightarrow> nat" where
  "slab_capacity s = length (sl_active s)"

definition slab_set_active :: "nat \<Rightarrow> bool \<Rightarrow> slab \<Rightarrow> slab" where
  "slab_set_active idx active s =
     (if idx < slab_capacity s then s\<lparr>sl_active := (sl_active s)[idx := active]\<rparr> else s)"

definition slab_is_active :: "slab \<Rightarrow> nat \<Rightarrow> bool" where
  "slab_is_active s idx = (idx < slab_capacity s \<and> sl_active s ! idx)"

definition slab_alloc :: "slab \<Rightarrow> nat vfs_result \<times> slab" where
  "slab_alloc s =
     (if sl_free_top s = 0 then (Inl NoSpace, s)
      else (let s1 = s\<lparr>sl_free_top := sl_free_top s - 1\<rparr>;
                idx = sl_free_stack s1 ! sl_free_top s1;
                s2 = slab_set_active idx True s1
            in (Inr idx, s2\<lparr>sl_total_allocated := sl_total_allocated s2 + 1\<rparr>)))"

definition slab_free :: "nat \<Rightarrow> slab \<Rightarrow> slab" where
  "slab_free idx s =
     (if idx < slab_capacity s \<and> slab_is_active s idx
      then (let s1 = slab_set_active idx False s;
                s2 = (if sl_free_top s1 < slab_capacity s1
                      then s1\<lparr>sl_free_stack := (sl_free_stack s1)[sl_free_top s1 := idx mod 65536],
                              sl_free_top := sl_free_top s1 + 1\<rparr>
                      else s1)
            in if sl_total_allocated s2 > 0 then s2\<lparr>sl_total_allocated := sl_total_allocated s2 - 1\<rparr> else s2)
      else s)"

text \<open>The indices the iterator \<open>SlabIter\<close> yields.\<close>

definition iter_active :: "slab \<Rightarrow> nat list" where
  "iter_active s = filter (slab_is_active s) [0..<slab_capacity s]"

section \<open>Invariant\<close>

definition slab_used :: "slab \<Rightarrow> nat set" where
  "slab_used s = {i. slab_is_active s i}"

definition slab_free_list :: "slab \<Rightarrow> nat list" where
  "slab_free_list s = take (sl_free_top s) (sl_free_stack s)"

definition slab_inv :: "slab \<Rightarrow> bool" where
  "slab_inv s = (length (sl_free_stack s) = slab_capacity s \<and> slab_capacity s \<le> 65536
     \<and> sl_free_top s \<le> slab_capacity s \<and> distinct (slab_free_list s)
     \<and> set (slab_free_list s) = {..<slab_capacity s} - slab_used s
     \<and> sl_total_allocated s = card (slab_used s))"

lemma slab_invD:
  assumes "slab_inv s"
  shows "length (sl_free_stack s) = slab_capacity s" "slab_capacity s \<le> 65536" "sl_free_top s \<le> slab_capacity s"
    "distinct (slab_free_list s)" "set (slab_free_list s) = {..<slab_capacity s} - slab_used s"
    "sl_total_allocated s = card (slab_used s)"
  using assms unfolding slab_inv_def by blast+

lemma slab_used_sub: "slab_used s \<subseteq> {..<slab_capacity s}"
  by (auto simp: slab_used_def slab_is_active_def)

lemma finite_slab_used [simp]: "finite (slab_used s)"
  using slab_used_sub finite_subset by blast

lemma slab_inv_new:
  assumes "N \<le> 65536"
  shows "slab_inv (slab_new N)"
proof -
  have cap: "slab_capacity (slab_new N) = N" by (simp add: slab_capacity_def slab_new_def)
  have "map (\<lambda>i. i mod 65536) [0..<N] = [0..<N]" by (rule map_idI) (use assms in auto)
  moreover have "slab_used (slab_new N) = {}"
    by (auto simp: slab_used_def slab_is_active_def cap) (simp add: slab_new_def)
  ultimately show ?thesis using assms cap
    by (auto simp: slab_inv_def slab_free_list_def slab_new_def)
qed

lemma slab_counts: "slab_inv s \<Longrightarrow> sl_free_top s + sl_total_allocated s = slab_capacity s"
proof -
  assume inv: "slab_inv s"
  then have "sl_free_top s = card (set (slab_free_list s))"
    using distinct_card [of "slab_free_list s"] by (auto simp: slab_inv_def slab_free_list_def)
  also have "\<dots> = slab_capacity s - card (slab_used s)"
    using inv card_Diff_subset [OF finite_slab_used slab_used_sub, of s] by (simp add: slab_inv_def)
  finally show ?thesis
    using inv card_mono [OF _ slab_used_sub, of s] by (simp add: slab_inv_def)
qed

lemma slab_free_list_snoc:
  assumes "slab_inv s" and "sl_free_top s > 0"
  shows "slab_free_list s = take (sl_free_top s - 1) (sl_free_stack s) @ [sl_free_stack s ! (sl_free_top s - 1)]"
proof -
  have "sl_free_top s - 1 < length (sl_free_stack s)" using slab_invD(1,3) [OF assms(1)] assms(2) by simp
  from take_Suc_conv_app_nth [OF this] show ?thesis using assms(2) by (simp add: slab_free_list_def)
qed

lemma slab_alloc_Inr:
  assumes inv: "slab_inv s" and a: "slab_alloc s = (Inr i, s')"
  shows "i < slab_capacity s \<and> i \<notin> slab_used s \<and> slab_used s' = insert i (slab_used s)
    \<and> slab_capacity s' = slab_capacity s \<and> slab_inv s'"
proof -
  have top: "sl_free_top s > 0" using a by (auto simp: slab_alloc_def split: if_splits)
  let ?i = "sl_free_stack s ! (sl_free_top s - 1)"
  note fl = slab_free_list_snoc [OF inv top]
  have i: "i = ?i" using a top by (auto simp: slab_alloc_def Let_def slab_set_active_def split: if_splits)
  have "i \<in> set (slab_free_list s)" unfolding fl i by simp
  then have cap: "i < slab_capacity s" and nu: "i \<notin> slab_used s" using slab_invD(5) [OF inv] by auto
  have s': "s' = s\<lparr>sl_free_top := sl_free_top s - 1, sl_active := (sl_active s)[i := True],
      sl_total_allocated := sl_total_allocated s + 1\<rparr>"
    using a top cap i by (auto simp: slab_alloc_def Let_def slab_set_active_def slab_capacity_def)
  have c': "slab_capacity s' = slab_capacity s" by (simp add: s' slab_capacity_def)
  have u': "slab_used s' = insert i (slab_used s)"
    using cap by (auto simp: slab_used_def slab_is_active_def c' s' slab_capacity_def nth_list_update)
  have "distinct (take (sl_free_top s - 1) (sl_free_stack s) @ [i])"
    "set (take (sl_free_top s - 1) (sl_free_stack s) @ [i]) = {..<slab_capacity s} - slab_used s"
    using slab_invD(4,5) [OF inv] unfolding fl i by blast+
  then have "distinct (slab_free_list s')" "set (slab_free_list s') = {..<slab_capacity s} - slab_used s'"
    using u' by (auto simp: slab_free_list_def s')
  moreover have "sl_free_top s' \<le> slab_capacity s" "length (sl_free_stack s') = slab_capacity s"
    "sl_total_allocated s' = card (slab_used s')"
    using slab_invD [OF inv] nu u' by (simp_all add: s')
  ultimately show ?thesis using slab_invD(2) [OF inv] cap nu u' c' by (simp add: slab_inv_def)
qed

lemma slab_alloc_Inl:
  assumes "slab_inv s" and "slab_alloc s = (Inl e, s')"
  shows "s' = s \<and> e = NoSpace \<and> slab_used s = {..<slab_capacity s}"
proof -
  have "sl_free_top s = 0" "s' = s" "e = NoSpace"
    using assms(2) by (auto simp: slab_alloc_def Let_def split: if_splits)
  with slab_invD(5) [OF assms(1)] slab_used_sub [of s] show ?thesis by (auto simp: slab_free_list_def)
qed

lemma slab_free_used:
  assumes inv: "slab_inv s" and u: "i \<in> slab_used s"
  shows "slab_used (slab_free i s) = slab_used s - {i} \<and> slab_capacity (slab_free i s) = slab_capacity s
    \<and> slab_inv (slab_free i s)"
    and "slab_free_list (slab_free i s) = slab_free_list s @ [i]"
proof -
  have cap: "i < slab_capacity s" and act: "slab_is_active s i"
    using u by (auto simp: slab_used_def slab_is_active_def)
  have pos: "sl_total_allocated s > 0" using slab_invD(6) [OF inv] u by (auto simp: card_gt_0_iff)
  have top: "sl_free_top s < slab_capacity s" using slab_counts [OF inv] pos by simp
  have im: "i mod 65536 = i" using cap slab_invD(2) [OF inv] by simp
  have s': "slab_free i s = s\<lparr>sl_active := (sl_active s)[i := False],
      sl_free_stack := (sl_free_stack s)[sl_free_top s := i], sl_free_top := sl_free_top s + 1,
      sl_total_allocated := sl_total_allocated s - 1\<rparr>"
    using cap act top pos im by (simp add: slab_free_def Let_def slab_set_active_def slab_capacity_def)
  have c': "slab_capacity (slab_free i s) = slab_capacity s" by (simp add: s' slab_capacity_def)
  have u': "slab_used (slab_free i s) = slab_used s - {i}"
    using cap by (auto simp: slab_used_def slab_is_active_def c') (auto simp: s' slab_capacity_def nth_list_update split: if_splits)
  show fl: "slab_free_list (slab_free i s) = slab_free_list s @ [i]"
    using top slab_invD(1) [OF inv] by (simp add: slab_free_list_def s' take_Suc_conv_app_nth)
  have "i \<notin> set (slab_free_list s)" using slab_invD(5) [OF inv] u by simp
  then have "distinct (slab_free_list (slab_free i s))"
    "set (slab_free_list (slab_free i s)) = {..<slab_capacity s} - slab_used (slab_free i s)"
    using slab_invD(4,5) [OF inv] u cap unfolding fl u' by auto
  moreover have "sl_total_allocated s - 1 = card (slab_used s - {i})"
    using slab_invD(6) [OF inv] u by (simp add: card_Diff_singleton)
  ultimately show "slab_used (slab_free i s) = slab_used s - {i} \<and> slab_capacity (slab_free i s) = slab_capacity s
      \<and> slab_inv (slab_free i s)"
    using slab_invD(1,2) [OF inv] top u' c' by (simp add: slab_inv_def) (simp add: s')
qed

lemma slab_free_unused: "i \<notin> slab_used s \<Longrightarrow> slab_free i s = s"
  by (auto simp: slab_free_def slab_used_def)

text \<open>The slab is an allocator in the sense of the shared interface.\<close>

definition slab_try_alloc :: "slab \<Rightarrow> nat option \<times> slab" where
  "slab_try_alloc s = (case slab_alloc s of (Inl _, s') \<Rightarrow> (None, s') | (Inr i, s') \<Rightarrow> (Some i, s'))"

interpretation slab: allocator slab_inv slab_used "\<lambda>s. {..<slab_capacity s}" slab_try_alloc slab_free
proof unfold_locales
  fix s i s'
  assume "slab_inv s" "slab_try_alloc s = (Some i, s')"
  then show "i \<in> {..<slab_capacity s} \<and> i \<notin> slab_used s \<and> slab_used s' = insert i (slab_used s)
      \<and> {..<slab_capacity s'} = {..<slab_capacity s} \<and> slab_inv s'"
    using slab_alloc_Inr [of s i s'] by (auto simp: slab_try_alloc_def split: prod.splits sum.splits)
next
  fix s s'
  assume "slab_inv s" "slab_try_alloc s = (None, s')"
  then show "s' = s \<and> {..<slab_capacity s} \<subseteq> slab_used s"
    using slab_alloc_Inl [of s _ s'] by (auto simp: slab_try_alloc_def split: prod.splits sum.splits)
qed (auto simp: slab_free_used)

end
