(* ===== verification/Lru.thy ===== *)
theory Lru
  imports VfsTypes
begin

text \<open>
  The intrusive doubly linked list \<open>LruList<N>\<close> of \<open>kernel/fs/vfs/lru.rs\<close>, with indices as
  links and \<open>INVALID_ID\<close> as the null link. \<open>lru_rep l xs\<close> relates the arrays to the list
  of indices from the most to the least recently used one; every operation is shown to be
  the corresponding list operation.
\<close>

record lru_node =
  ln_prev :: nat
  ln_next :: nat
  ln_in_lru :: bool

definition ln_empty :: lru_node where
  "ln_empty = \<lparr>ln_prev = INVALID_ID, ln_next = INVALID_ID, ln_in_lru = False\<rparr>"

record lru_list =
  lr_nodes :: "lru_node list"
  lr_head :: nat
  lr_tail :: nat
  lr_count :: nat

definition lru_new :: "nat \<Rightarrow> lru_list" where
  "lru_new N = \<lparr>lr_nodes = replicate N ln_empty, lr_head = INVALID_ID, lr_tail = INVALID_ID, lr_count = 0\<rparr>"

abbreviation set_next :: "nat \<Rightarrow> nat \<Rightarrow> lru_node list \<Rightarrow> lru_node list" where
  "set_next i v ns \<equiv> ns[i := (ns ! i)\<lparr>ln_next := v\<rparr>]"

abbreviation set_prev :: "nat \<Rightarrow> nat \<Rightarrow> lru_node list \<Rightarrow> lru_node list" where
  "set_prev i v ns \<equiv> ns[i := (ns ! i)\<lparr>ln_prev := v\<rparr>]"

definition lru_remove :: "nat \<Rightarrow> lru_list \<Rightarrow> lru_list" where
  "lru_remove idx l =
     (if idx \<ge> length (lr_nodes l) \<or> \<not> ln_in_lru (lr_nodes l ! idx) then l
      else (let prev = ln_prev (lr_nodes l ! idx);
                next = ln_next (lr_nodes l ! idx);
                l1 = (if prev \<noteq> INVALID_ID then l\<lparr>lr_nodes := set_next prev next (lr_nodes l)\<rparr>
                      else l\<lparr>lr_head := next\<rparr>);
                l2 = (if next \<noteq> INVALID_ID then l1\<lparr>lr_nodes := set_prev next prev (lr_nodes l1)\<rparr>
                      else l1\<lparr>lr_tail := prev\<rparr>)
            in l2\<lparr>lr_nodes := (lr_nodes l2)[idx := ln_empty], lr_count := lr_count l2 - 1\<rparr>))"

definition lru_push_front :: "nat \<Rightarrow> lru_list \<Rightarrow> lru_list" where
  "lru_push_front idx l =
     (if idx \<ge> length (lr_nodes l) then l
      else (let l0 = (if ln_in_lru (lr_nodes l ! idx) then lru_remove idx l else l);
                l1 = l0\<lparr>lr_nodes := (lr_nodes l0)[idx := \<lparr>ln_prev = INVALID_ID, ln_next = lr_head l0, ln_in_lru = True\<rparr>]\<rparr>;
                l2 = (if lr_head l1 \<noteq> INVALID_ID then l1\<lparr>lr_nodes := set_prev (lr_head l1) idx (lr_nodes l1)\<rparr> else l1);
                l3 = l2\<lparr>lr_head := idx\<rparr>;
                l4 = (if lr_tail l3 = INVALID_ID then l3\<lparr>lr_tail := idx\<rparr> else l3)
            in l4\<lparr>lr_count := min (lr_count l4 + 1) 65535\<rparr>))"

definition lru_touch :: "nat \<Rightarrow> lru_list \<Rightarrow> lru_list" where
  "lru_touch idx l = (if idx \<ge> length (lr_nodes l) then l else lru_push_front idx l)"

definition lru_pop :: "lru_list \<Rightarrow> nat option \<times> lru_list" where
  "lru_pop l =
     (if lr_tail l = INVALID_ID then (None, l) else (Some (lr_tail l), lru_remove (lr_tail l) l))"

definition lru_peek_lru :: "lru_list \<Rightarrow> nat option" where
  "lru_peek_lru l = (if lr_tail l = INVALID_ID then None else Some (lr_tail l))"

definition lru_peek_mru :: "lru_list \<Rightarrow> nat option" where
  "lru_peek_mru l = (if lr_head l = INVALID_ID then None else Some (lr_head l))"

text \<open>The iterator follows the \<open>next\<close> links; not returning is the value \<open>None\<close>.\<close>

partial_function (option) lru_walk :: "lru_node list \<Rightarrow> nat \<Rightarrow> nat list option" where
  "lru_walk ns current =
     (if current = INVALID_ID then Some []
      else Option.bind (lru_walk ns (ln_next (ns ! current))) (\<lambda>rest. Some (current # rest)))"

definition lru_iter :: "lru_list \<Rightarrow> nat list option" where
  "lru_iter l = lru_walk (lr_nodes l) (lr_head l)"

section \<open>Linked segments\<close>

definition first_of :: "nat list \<Rightarrow> nat \<Rightarrow> nat" where
  "first_of xs q = (case xs of [] \<Rightarrow> q | x # _ \<Rightarrow> x)"

definition last_of :: "nat \<Rightarrow> nat list \<Rightarrow> nat" where
  "last_of p xs = (if xs = [] then p else last xs)"

lemma first_of_simps [simp]: "first_of [] q = q" "first_of (x # xs) q = x"
  by (simp_all add: first_of_def)

lemma last_of_simps [simp]: "last_of p [] = p" "last_of p (xs @ [x]) = x" "last_of p (x # xs) = last_of x xs"
  by (simp_all add: last_of_def)

lemma last_of_append [simp]: "last_of p (xs @ ys) = last_of (last_of p xs) ys"
  by (simp add: last_of_def)

lemma first_of_append [simp]: "first_of (xs @ ys) q = first_of xs (first_of ys q)"
  by (cases xs) simp_all

text \<open>\<open>seg ns p xs q\<close>: the nodes \<open>xs\<close> are linked in this order, coming from \<open>p\<close> and leading
  to \<open>q\<close>.\<close>

fun seg :: "lru_node list \<Rightarrow> nat \<Rightarrow> nat list \<Rightarrow> nat \<Rightarrow> bool" where
  "seg ns p [] q = True"
| "seg ns p (x # xs) q = (ln_prev (ns ! x) = p \<and> ln_next (ns ! x) = first_of xs q \<and> seg ns x xs q)"

lemma seg_append: "seg ns p (xs @ ys) q \<longleftrightarrow> seg ns p xs (first_of ys q) \<and> seg ns (last_of p xs) ys q"
  by (induction xs arbitrary: p) auto

lemma seg_frame: "(\<And>x. x \<in> set xs \<Longrightarrow> ns' ! x = ns ! x) \<Longrightarrow> seg ns' p xs q = seg ns p xs q"
  by (induction xs arbitrary: p) auto

lemma seg_update [simp]: "i \<notin> set xs \<Longrightarrow> seg (ns[i := n]) p xs q = seg ns p xs q"
  by (rule seg_frame) (metis nth_list_update_neq)

lemma in_lru_set_links [simp]:
  "ln_in_lru (set_next k v ns ! j) = ln_in_lru (ns ! j)" "ln_in_lru (set_prev k v ns ! j) = ln_in_lru (ns ! j)"
  by (cases "k < length ns"; cases "k = j"; simp add: list_update_beyond not_less)+

lemma seg_set_next:
  assumes "seg ns p xs q" and "xs \<noteq> []" and "distinct xs" and "last xs < length ns"
  shows "seg (set_next (last xs) q' ns) p xs q'"
proof -
  obtain ys y where xs: "xs = ys @ [y]" using assms(2) by (metis append_butlast_last_id)
  with assms show ?thesis by (simp add: seg_append)
qed

lemma seg_set_prev:
  assumes "seg ns p xs q" and "xs \<noteq> []" and "distinct xs" and "hd xs < length ns"
  shows "seg (set_prev (hd xs) p' ns) p' xs q"
proof -
  obtain y ys where xs: "xs = y # ys" using assms(2) by (cases xs) auto
  with assms show ?thesis by simp
qed

section \<open>Representation\<close>

definition lru_rep :: "lru_list \<Rightarrow> nat list \<Rightarrow> bool" where
  "lru_rep l xs = (length (lr_nodes l) \<le> INVALID_ID \<and> distinct xs
     \<and> (\<forall>i. i \<in> set xs \<longleftrightarrow> i < length (lr_nodes l) \<and> ln_in_lru (lr_nodes l ! i))
     \<and> seg (lr_nodes l) INVALID_ID xs INVALID_ID
     \<and> lr_head l = first_of xs INVALID_ID \<and> lr_tail l = last_of INVALID_ID xs \<and> lr_count l = length xs)"

lemma lru_rep_new: "N \<le> INVALID_ID \<Longrightarrow> lru_rep (lru_new N) []"
  by (auto simp: lru_rep_def lru_new_def ln_empty_def)

lemma lru_repD:
  assumes "lru_rep l xs"
  shows "length (lr_nodes l) \<le> INVALID_ID" "distinct xs"
    "\<And>i. i \<in> set xs \<longleftrightarrow> i < length (lr_nodes l) \<and> ln_in_lru (lr_nodes l ! i)"
    "seg (lr_nodes l) INVALID_ID xs INVALID_ID"
    "lr_head l = first_of xs INVALID_ID" "lr_tail l = last_of INVALID_ID xs" "lr_count l = length xs"
  using assms unfolding lru_rep_def by blast+

lemma lru_rep_lt: "lru_rep l xs \<Longrightarrow> x \<in> set xs \<Longrightarrow> x < length (lr_nodes l) \<and> x \<noteq> INVALID_ID"
  using lru_repD(1,3) by (metis less_irrefl order_less_le_trans)

lemma lru_rep_length: "lru_rep l xs \<Longrightarrow> length xs \<le> length (lr_nodes l)"
proof -
  assume r: "lru_rep l xs"
  have "set xs \<subseteq> {..<length (lr_nodes l)}" using lru_rep_lt [OF r] by auto
  then have "card (set xs) \<le> length (lr_nodes l)" using card_mono [of "{..<length (lr_nodes l)}"] by fastforce
  then show ?thesis using distinct_card [OF lru_repD(2) [OF r]] by simp
qed

lemma lru_rep_head: "lru_rep l xs \<Longrightarrow> lr_head l = INVALID_ID \<longleftrightarrow> xs = []"
  using lru_rep_lt by (cases xs) (auto simp: lru_repD(5))

lemma lru_rep_tail: "lru_rep l xs \<Longrightarrow> lr_tail l = INVALID_ID \<longleftrightarrow> xs = []"
  using lru_rep_lt [of l xs "last xs"] by (auto simp: lru_repD(6) last_of_def)

text \<open>Unlinking one node: the two neighbours are joined.\<close>

lemma lru_remove_rep:
  assumes r: "lru_rep l (xs @ i # ys)"
  shows "lru_rep (lru_remove i l) (xs @ ys)" and "length (lr_nodes (lru_remove i l)) = length (lr_nodes l)"
proof -
  let ?ns = "lr_nodes l"
  note D = lru_repD [OF r]
  have i: "i < length ?ns" "ln_in_lru (?ns ! i)" using D(3) [of i] by auto
  have d: "distinct xs" "distinct ys" "i \<notin> set xs" "i \<notin> set ys" "set xs \<inter> set ys = {}" using D(2) by auto
  have lt: "\<And>x. x \<in> set xs \<union> set ys \<Longrightarrow> x < length ?ns \<and> x \<noteq> INVALID_ID" using lru_rep_lt [OF r] by auto
  have s: "seg ?ns INVALID_ID xs i" "ln_prev (?ns ! i) = last_of INVALID_ID xs"
    "ln_next (?ns ! i) = first_of ys INVALID_ID" "seg ?ns i ys INVALID_ID"
    using D(4) by (auto simp: seg_append)
  let ?p = "last_of INVALID_ID xs" and ?n = "first_of ys INVALID_ID"
  have pn: "?p = INVALID_ID \<longleftrightarrow> xs = []" "?n = INVALID_ID \<longleftrightarrow> ys = []"
    using lt [of "last xs"] lt [of "hd ys"] by (auto simp: last_of_def first_of_def split: list.split)
  have pny: "xs \<noteq> [] \<Longrightarrow> ?p \<notin> set ys" "ys \<noteq> [] \<Longrightarrow> ?n \<notin> set xs"
    using d(5) last_in_set [of xs] by (auto simp: last_of_def first_of_def disjoint_iff split: list.split)
  let ?n1 = "if xs \<noteq> [] then set_next ?p ?n ?ns else ?ns"
  let ?n2 = "if ys \<noteq> [] then set_prev ?n ?p ?n1 else ?n1"
  let ?n3 = "?n2[i := ln_empty]"
  have rem: "lru_remove i l = l\<lparr>lr_nodes := ?n3, lr_head := (if xs \<noteq> [] then lr_head l else ?n),
      lr_tail := (if ys \<noteq> [] then lr_tail l else ?p), lr_count := lr_count l - 1\<rparr>"
    using i s pn by (auto simp: lru_remove_def Let_def)
  show len: "length (lr_nodes (lru_remove i l)) = length ?ns" by (simp add: rem)
  have n1x: "seg ?n1 INVALID_ID xs ?n"
    using seg_set_next [OF s(1) _ d(1)] lt [of "last xs"] by (auto simp: last_of_def)
  have n1y: "seg ?n1 i ys INVALID_ID"
    using s(4) pny(1) by (cases "xs = []") simp_all
  have n2x: "seg ?n2 INVALID_ID xs ?n"
    using n1x pny(2) by (cases "ys = []") simp_all
  have n2y: "seg ?n2 ?p ys INVALID_ID"
    using seg_set_prev [OF n1y _ d(2)] lt [of "hd ys"] by (cases ys) auto
  have "seg ?n3 INVALID_ID xs ?n" "seg ?n3 ?p ys INVALID_ID"
    using n2x n2y d(3,4) by (simp_all del: seg.simps)
  then have seg: "seg ?n3 INVALID_ID (xs @ ys) INVALID_ID" by (simp add: seg_append)
  have in3: "ln_in_lru (?n3 ! j) = (j \<noteq> i \<and> ln_in_lru (?ns ! j))" if "j < length ?ns" for j
    using that i by (auto simp: nth_list_update ln_empty_def)
  have mem: "j \<in> set (xs @ ys) \<longleftrightarrow> j < length ?n3 \<and> ln_in_lru (?n3 ! j)" for j
    using D(3) [of j] in3 [of j] d by auto
  show "lru_rep (lru_remove i l) (xs @ ys)"
    using D seg mem d unfolding lru_rep_def rem by (cases xs; cases ys) (auto simp: last_of_def)
qed

lemma lru_remove_removeAll:
  assumes "lru_rep l xs"
  shows "lru_rep (lru_remove i l) (removeAll i xs)" and "length (lr_nodes (lru_remove i l)) = length (lr_nodes l)"
proof -
  consider (mem) as bs where "xs = as @ i # bs" | (out) "i \<notin> set xs" by (meson split_list)
  then have "lru_rep (lru_remove i l) (removeAll i xs) \<and> length (lr_nodes (lru_remove i l)) = length (lr_nodes l)"
  proof cases
    case mem
    have "removeAll i xs = as @ bs" using mem lru_repD(2) [OF assms] by simp
    with lru_remove_rep [of l as i bs] assms mem show ?thesis by simp
  next
    case out
    then have "lru_remove i l = l" using lru_repD(3) [OF assms, of i] by (auto simp: lru_remove_def)
    with assms out show ?thesis by simp
  qed
  then show "lru_rep (lru_remove i l) (removeAll i xs)" "length (lr_nodes (lru_remove i l)) = length (lr_nodes l)"
    by blast+
qed

text \<open>Linking a node that is in no list at the front.\<close>

lemma lru_link_front:
  assumes r: "lru_rep l xs" and i: "i < length (lr_nodes l)" "i \<notin> set xs"
  defines "ns1 \<equiv> (lr_nodes l)[i := \<lparr>ln_prev = INVALID_ID, ln_next = lr_head l, ln_in_lru = True\<rparr>]"
  shows "lru_rep (l\<lparr>lr_nodes := (if lr_head l \<noteq> INVALID_ID then set_prev (lr_head l) i ns1 else ns1), lr_head := i,
      lr_tail := (if lr_tail l = INVALID_ID then i else lr_tail l), lr_count := min (lr_count l + 1) 65535\<rparr>) (i # xs)"
proof -
  note D = lru_repD [OF r]
  let ?ns2 = "if lr_head l \<noteq> INVALID_ID then set_prev (lr_head l) i ns1 else ns1"
  have hd: "lr_head l = INVALID_ID \<longleftrightarrow> xs = []" "lr_tail l = INVALID_ID \<longleftrightarrow> xs = []"
    using lru_rep_head [OF r] lru_rep_tail [OF r] by auto
  have s1: "seg ns1 INVALID_ID xs INVALID_ID" using D(4) i(2) by (simp add: ns1_def)
  have s2: "seg ?ns2 i xs INVALID_ID"
  proof (cases xs)
    case (Cons y ys)
    then have "lr_head l = y" "y < length ns1" using D(5) lru_rep_lt [OF r, of y] by (auto simp: ns1_def)
    with seg_set_prev [OF s1 _ D(2)] Cons hd(1) show ?thesis by simp
  qed simp
  have "?ns2 ! i = \<lparr>ln_prev = INVALID_ID, ln_next = lr_head l, ln_in_lru = True\<rparr>"
    using i D(5) by (cases xs) (auto simp: ns1_def)
  with s2 D(5) have seg: "seg ?ns2 INVALID_ID (i # xs) INVALID_ID" by simp
  have "ln_in_lru (?ns2 ! j) = ln_in_lru (ns1 ! j)" for j by simp
  then have mem: "j \<in> set (i # xs) \<longleftrightarrow> j < length ?ns2 \<and> ln_in_lru (?ns2 ! j)" for j
    using D(3) [of j] i(1) by (cases "j = i") (auto simp: ns1_def)
  have len: "length (i # xs) \<le> 65535"
  proof -
    have "set (i # xs) \<subseteq> {..<length (lr_nodes l)}" using i(1) lru_rep_lt [OF r] by auto
    then have "card (set (i # xs)) \<le> length (lr_nodes l)" using card_mono [of "{..<length (lr_nodes l)}"] by fastforce
    then show ?thesis using distinct_card [of "i # xs"] D(1,2) i(2) by (simp add: INVALID_ID_def)
  qed
  have "length ?ns2 = length (lr_nodes l)" by (simp add: ns1_def)
  then show ?thesis
    using seg mem D(1,2,6,7) i(2) len hd(2) unfolding lru_rep_def by (cases xs) auto
qed

lemma lru_push_front_rep:
  assumes r: "lru_rep l xs" and i: "i < length (lr_nodes l)"
  shows "lru_rep (lru_push_front i l) (i # removeAll i xs)"
    and "length (lr_nodes (lru_push_front i l)) = length (lr_nodes l)"
proof -
  define l0 where "l0 = (if ln_in_lru (lr_nodes l ! i) then lru_remove i l else l)"
  have l0: "lru_rep l0 (removeAll i xs)" "length (lr_nodes l0) = length (lr_nodes l)"
    using lru_remove_removeAll [OF r, of i] r lru_repD(3) [OF r, of i] i
    by (auto simp: l0_def removeAll_id)
  define ns1 where "ns1 = (lr_nodes l0)[i := \<lparr>ln_prev = INVALID_ID, ln_next = lr_head l0, ln_in_lru = True\<rparr>]"
  have p: "lru_push_front i l = l0\<lparr>lr_nodes := (if lr_head l0 \<noteq> INVALID_ID then set_prev (lr_head l0) i ns1 else ns1),
      lr_head := i, lr_tail := (if lr_tail l0 = INVALID_ID then i else lr_tail l0),
      lr_count := min (lr_count l0 + 1) 65535\<rparr>"
    using i by (simp add: lru_push_front_def Let_def ns1_def flip: l0_def)
  show "lru_rep (lru_push_front i l) (i # removeAll i xs)"
    using lru_link_front [OF l0(1)] i l0(2) unfolding p ns1_def by simp
  show "length (lr_nodes (lru_push_front i l)) = length (lr_nodes l)"
    using l0(2) by (simp add: p ns1_def)
qed

lemma lru_walk_seg:
  assumes "seg ns p xs INVALID_ID" and "INVALID_ID \<notin> set xs"
  shows "lru_walk ns (first_of xs INVALID_ID) = Some xs"
  using assms
proof (induction xs arbitrary: p)
  case Nil
  then show ?case by (simp add: lru_walk.simps)
next
  case (Cons x xs)
  then show ?case by (auto simp: lru_walk.simps [of ns x])
qed

lemma lru_iter_rep: "lru_rep l xs \<Longrightarrow> lru_iter l = Some xs"
  using lru_walk_seg lru_repD(4,5) lru_rep_lt unfolding lru_iter_def by metis

lemma lru_pop_rep:
  assumes "lru_rep l xs"
  shows "fst (lru_pop l) = (if xs = [] then None else Some (last xs))"
    and "lru_rep (snd (lru_pop l)) (butlast xs)"
proof -
  have t: "lr_tail l = last_of INVALID_ID xs" using lru_repD(6) [OF assms] .
  note tl = lru_rep_tail [OF assms]
  show "fst (lru_pop l) = (if xs = [] then None else Some (last xs))"
    using t tl by (auto simp: lru_pop_def last_of_def)
  show "lru_rep (snd (lru_pop l)) (butlast xs)"
  proof (cases xs rule: rev_cases)
    case Nil
    with assms t tl show ?thesis by (simp add: lru_pop_def)
  next
    case (snoc ys y)
    then have "lr_tail l = y" "lr_tail l \<noteq> INVALID_ID" using t tl by simp_all
    with lru_remove_rep [of l ys y "[]"] assms snoc show ?thesis by (simp add: lru_pop_def)
  qed
qed

section \<open>The recency interface\<close>

text \<open>
  What a cache relies on: the list abstracts the structure, touching an element moves it to
  the front, removing takes it out. From this alone, the order after any sequence of
  touches is the order of last use.
\<close>

locale recency =
  fixes rep :: "'l \<Rightarrow> 'i list \<Rightarrow> bool"
    and cap :: "'l \<Rightarrow> 'i set"
    and touch :: "'i \<Rightarrow> 'l \<Rightarrow> 'l"
    and remove :: "'i \<Rightarrow> 'l \<Rightarrow> 'l"
  assumes rep_distinct: "rep l xs \<Longrightarrow> distinct xs"
    and rep_touch: "rep l xs \<Longrightarrow> i \<in> cap l \<Longrightarrow> rep (touch i l) (i # removeAll i xs) \<and> cap (touch i l) = cap l"
    and rep_remove: "rep l xs \<Longrightarrow> rep (remove i l) (removeAll i xs) \<and> cap (remove i l) = cap l"
begin

lemma fold_move_front:
  "fold (\<lambda>i xs. i # removeAll i xs) is xs = rev (remdups is) @ filter (\<lambda>x. x \<notin> set is) xs"
proof (induction "is" arbitrary: xs rule: rev_induct)
  case (snoc i "is")
  have "remdups (is @ [i]) = filter (\<lambda>x. x \<noteq> i) (remdups is) @ [i]" by (induction "is") auto
  moreover have "removeAll i ys = filter (\<lambda>x. x \<noteq> i) ys" for ys by (induction ys) auto
  moreover have "filter (\<lambda>x. x \<noteq> i) (filter (\<lambda>x. x \<notin> set is) xs) = filter (\<lambda>x. x \<notin> set (is @ [i])) xs"
    by (induction xs) auto
  ultimately show ?case by (simp only: fold_append o_apply fold_simps snoc.IH) (simp add: rev_filter)
qed simp

lemma rep_touches:
  "rep l xs \<Longrightarrow> set is \<subseteq> cap l \<Longrightarrow>
   rep (fold touch is l) (fold (\<lambda>i xs. i # removeAll i xs) is xs) \<and> cap (fold touch is l) = cap l"
proof (induction "is" arbitrary: l xs)
  case (Cons i "is")
  then have t: "rep (touch i l) (i # removeAll i xs)" "cap (touch i l) = cap l"
    using rep_touch [OF Cons.prems(1), of i] by auto
  with Cons.IH [OF t(1)] Cons.prems(2) show ?case by simp
qed simp

lemma order_of_last_use:
  assumes "rep l []" and "set is \<subseteq> cap l"
  shows "rep (fold touch is l) (rev (remdups is))"
  using rep_touches [OF assms] by (simp add: fold_move_front)

end

interpretation lru: recency lru_rep "\<lambda>l. {..<length (lr_nodes l)}" lru_touch lru_remove
  by unfold_locales
    (auto simp: lru_repD(2) lru_touch_def lru_push_front_rep lru_remove_removeAll)

section \<open>Properties\<close>

text \<open>C20: The linked list keeps the order of last use: after any sequence of touches of a
  new list the iterator visits the touched indices from the most to the least recently
  used, each once, and \<open>pop_lru\<close> takes the one whose last touch is the oldest.\<close>

theorem lru_order:
  assumes "N \<le> INVALID_ID" and "\<forall>i\<in>set is. i < N"
  shows "lru_iter (fold lru_touch is (lru_new N)) = Some (rev (remdups is))
    \<and> fst (lru_pop (fold lru_touch is (lru_new N))) = (if is = [] then None else Some (hd (remdups is)))
    \<and> lr_count (fold lru_touch is (lru_new N)) = card (set is)"
proof -
  have "set is \<subseteq> {..<length (lr_nodes (lru_new N))}" using assms(2) by (auto simp: lru_new_def)
  from lru.order_of_last_use [OF lru_rep_new [OF assms(1)] this]
  have r: "lru_rep (fold lru_touch is (lru_new N)) (rev (remdups is))" .
  moreover have "lr_count (fold lru_touch is (lru_new N)) = card (set is)"
    using lru_repD(7) [OF r] by (simp add: length_remdups_card_conv)
  ultimately show ?thesis using lru_iter_rep [OF r] lru_pop_rep(1) [OF r] by (simp add: last_rev)
qed

theorem lru_order_witness:
  "lru_iter (fold lru_touch [2, 0, 2, 1] (lru_new 4)) = Some [1, 2, 0]
   \<and> fst (lru_pop (fold lru_touch [2, 0, 2, 1] (lru_new 4))) = Some 0"
proof -
  have "rev (remdups [2, 0, 2, 1 :: nat]) = [1, 2, 0]" "hd (remdups [2, 0, 2, 1 :: nat]) = 0" by simp_all
  then show ?thesis using lru_order [of 4 "[2, 0, 2, 1]"] by (simp add: INVALID_ID_def)
qed

end
