(* ===== verification/Pages.thy ===== *)
theory Pages
  imports Slab Lru
begin

text \<open>
  The page cache of \<open>kernel/fs/vfs/pages.rs\<close>: cached pages indexed by the slab, with the LRU
  list over the indices in use. A full cache evicts the least recently used clean page; the
  search follows the \<open>prev\<close> links from the tail, so it is a partial function whose value
  \<open>None\<close> would be an endless loop, and the properties prove that it returns.
\<close>

definition MAX_DATA_PAGES :: nat where
  "MAX_DATA_PAGES = 1024"

definition PAGE_SIZE :: nat where
  "PAGE_SIZE = 512"

record cached_page =
  cp_data :: "u8 list"
  cp_inode_id :: nat
  cp_page_index :: u32
  cp_dirty :: bool
  cp_valid :: bool

definition cp_empty :: cached_page where
  "cp_empty = \<lparr>cp_data = replicate PAGE_SIZE 0, cp_inode_id = INVALID_ID, cp_page_index = 0,
               cp_dirty = False, cp_valid = False\<rparr>"

record page_cache =
  pc_pages :: "cached_page list"
  pc_slab :: slab
  pc_lru :: lru_list
  pc_total_writes :: u64
  pc_total_reads :: u64
  pc_evictions :: u64

definition pc_new :: page_cache where
  "pc_new = \<lparr>pc_pages = replicate MAX_DATA_PAGES cp_empty, pc_slab = slab_new MAX_DATA_PAGES,
     pc_lru = lru_new MAX_DATA_PAGES, pc_total_writes = 0, pc_total_reads = 0, pc_evictions = 0\<rparr>"

section \<open>Operations\<close>

partial_function (option) find_clean :: "cached_page list \<Rightarrow> lru_node list \<Rightarrow> nat \<Rightarrow> nat option option" where
  "find_clean pages ns current =
     (if current = INVALID_ID then Some None
      else if current < MAX_DATA_PAGES \<and> \<not> cp_dirty (pages ! current) then Some (Some current)
      else find_clean pages ns (ln_prev (ns ! current)))"

definition evict_and_alloc :: "page_cache \<Rightarrow> (nat vfs_result \<times> page_cache) option" where
  "evict_and_alloc pc =
     (case find_clean (pc_pages pc) (lr_nodes (pc_lru pc)) (lr_tail (pc_lru pc)) of
        None \<Rightarrow> None
      | Some None \<Rightarrow> Some (Inl NoSpace, pc)
      | Some (Some evict_id) \<Rightarrow>
          (let pc1 = pc\<lparr>pc_lru := lru_remove evict_id (pc_lru pc),
                        pc_pages := (pc_pages pc)[evict_id := cp_empty],
                        pc_slab := slab_free evict_id (pc_slab pc),
                        pc_evictions := pc_evictions pc + 1\<rparr>
           in case slab_alloc (pc_slab pc1) of
                (Inl e, sl) \<Rightarrow> Some (Inl e, pc1\<lparr>pc_slab := sl\<rparr>)
              | (Inr new_idx, sl) \<Rightarrow>
                  Some (Inr new_idx,
                    pc1\<lparr>pc_slab := sl,
                        pc_pages := (pc_pages pc1)[new_idx := (pc_pages pc1 ! new_idx)\<lparr>cp_valid := True\<rparr>],
                        pc_lru := lru_push_front new_idx (pc_lru pc1)\<rparr>)))"

definition alloc_page :: "page_cache \<Rightarrow> (nat vfs_result \<times> page_cache) option" where
  "alloc_page pc =
     (case slab_alloc (pc_slab pc) of
        (Inr idx, sl) \<Rightarrow>
          Some (Inr idx,
            pc\<lparr>pc_slab := sl, pc_pages := (pc_pages pc)[idx := cp_empty\<lparr>cp_valid := True\<rparr>],
               pc_lru := lru_push_front idx (pc_lru pc)\<rparr>)
      | (Inl _, sl) \<Rightarrow> evict_and_alloc (pc\<lparr>pc_slab := sl\<rparr>))"

definition free_page :: "nat \<Rightarrow> page_cache \<Rightarrow> page_cache" where
  "free_page page_id pc =
     (if page_id < MAX_DATA_PAGES \<and> slab_is_active (pc_slab pc) page_id
      then pc\<lparr>pc_lru := lru_remove page_id (pc_lru pc), pc_pages := (pc_pages pc)[page_id := cp_empty],
              pc_slab := slab_free page_id (pc_slab pc)\<rparr>
      else pc)"

definition get_page_data :: "nat \<Rightarrow> page_cache \<Rightarrow> u8 list option \<times> page_cache" where
  "get_page_data page_id pc =
     (if page_id < MAX_DATA_PAGES \<and> slab_is_active (pc_slab pc) page_id
      then (Some (cp_data (pc_pages pc ! page_id)),
            pc\<lparr>pc_total_reads := pc_total_reads pc + 1, pc_lru := lru_touch page_id (pc_lru pc)\<rparr>)
      else (None, pc))"

text \<open>\<open>get_page_data_mut\<close>: the caller's writes through the reference are the function \<open>f\<close>.\<close>

definition get_page_data_mut :: "nat \<Rightarrow> (u8 list \<Rightarrow> u8 list) \<Rightarrow> page_cache \<Rightarrow> bool \<times> page_cache" where
  "get_page_data_mut page_id f pc =
     (if page_id < MAX_DATA_PAGES \<and> slab_is_active (pc_slab pc) page_id
      then (True,
            pc\<lparr>pc_total_writes := pc_total_writes pc + 1, pc_lru := lru_touch page_id (pc_lru pc),
               pc_pages := (pc_pages pc)[page_id := (pc_pages pc ! page_id)\<lparr>cp_data := f (cp_data (pc_pages pc ! page_id))\<rparr>]\<rparr>)
      else (False, pc))"

definition set_dirty :: "nat \<Rightarrow> bool \<Rightarrow> page_cache \<Rightarrow> page_cache" where
  "set_dirty page_id d pc =
     (if page_id < MAX_DATA_PAGES \<and> slab_is_active (pc_slab pc) page_id
      then pc\<lparr>pc_pages := (pc_pages pc)[page_id := (pc_pages pc ! page_id)\<lparr>cp_dirty := d\<rparr>]\<rparr> else pc)"

definition mark_dirty :: "nat \<Rightarrow> page_cache \<Rightarrow> page_cache" where
  "mark_dirty page_id pc = set_dirty page_id True pc"

definition mark_clean :: "nat \<Rightarrow> page_cache \<Rightarrow> page_cache" where
  "mark_clean page_id pc = set_dirty page_id False pc"

definition dirty_count :: "page_cache \<Rightarrow> nat" where
  "dirty_count pc =
     length (filter (\<lambda>i. slab_is_active (pc_slab pc) i \<and> cp_dirty (pc_pages pc ! i)) [0..<MAX_DATA_PAGES])"

definition flush_all :: "page_cache \<Rightarrow> page_cache" where
  "flush_all pc =
     fold (\<lambda>i pc. if slab_is_active (pc_slab pc) i
                  then pc\<lparr>pc_pages := (pc_pages pc)[i := (pc_pages pc ! i)\<lparr>cp_dirty := False\<rparr>]\<rparr> else pc)
       [0..<MAX_DATA_PAGES] pc"

section \<open>Invariant\<close>

text \<open>The slab and the LRU list agree on the pages in use; \<open>xs\<close> is their order.\<close>

definition pc_inv :: "page_cache \<Rightarrow> nat list \<Rightarrow> bool" where
  "pc_inv pc xs = (slab_inv (pc_slab pc) \<and> slab_capacity (pc_slab pc) = MAX_DATA_PAGES
     \<and> length (pc_pages pc) = MAX_DATA_PAGES \<and> length (lr_nodes (pc_lru pc)) = MAX_DATA_PAGES
     \<and> lru_rep (pc_lru pc) xs \<and> set xs = slab_used (pc_slab pc))"

lemma pc_invD:
  assumes "pc_inv pc xs"
  shows "slab_inv (pc_slab pc)" "slab_capacity (pc_slab pc) = MAX_DATA_PAGES"
    "length (pc_pages pc) = MAX_DATA_PAGES" "length (lr_nodes (pc_lru pc)) = MAX_DATA_PAGES"
    "lru_rep (pc_lru pc) xs" "set xs = slab_used (pc_slab pc)"
  using assms unfolding pc_inv_def by blast+

lemma pc_inv_new: "pc_inv pc_new []"
proof -
  have "slab_inv (slab_new MAX_DATA_PAGES)" by (rule slab_inv_new) (simp add: MAX_DATA_PAGES_def)
  moreover have "slab_capacity (slab_new MAX_DATA_PAGES) = MAX_DATA_PAGES"
    by (simp add: slab_capacity_def slab_new_def)
  moreover from this have "slab_used (slab_new MAX_DATA_PAGES) = {}"
    by (auto simp: slab_used_def slab_is_active_def) (simp add: slab_new_def)
  moreover have "lru_rep (lru_new MAX_DATA_PAGES) []"
    by (rule lru_rep_new) (simp add: MAX_DATA_PAGES_def INVALID_ID_def)
  ultimately show ?thesis by (simp add: pc_inv_def pc_new_def) (simp add: lru_new_def)
qed

lemma pc_page_lt: "pc_inv pc xs \<Longrightarrow> i \<in> set xs \<Longrightarrow> i < MAX_DATA_PAGES"
  using pc_invD(2,6) [of pc xs] slab_used_sub [of "pc_slab pc"] by auto

text \<open>The search from the tail looks at the pages in use in the order of last use.\<close>

lemma find_clean_seg:
  "seg ns INVALID_ID xs q \<Longrightarrow> INVALID_ID \<notin> set xs \<Longrightarrow>
   find_clean pages ns (last_of INVALID_ID xs) = Some (find (\<lambda>i. i < MAX_DATA_PAGES \<and> \<not> cp_dirty (pages ! i)) (rev xs))"
proof (induction xs arbitrary: q rule: rev_induct)
  case Nil
  then show ?case by (simp add: find_clean.simps)
next
  case (snoc x xs)
  then have "ln_prev (ns ! x) = last_of INVALID_ID xs" "seg ns INVALID_ID xs x" by (simp_all add: seg_append)
  with snoc.IH [of x] snoc.prems(2) show ?case by (auto simp: find_clean.simps [of pages ns x])
qed

definition lru_clean :: "page_cache \<Rightarrow> nat list \<Rightarrow> nat option" where
  "lru_clean pc xs = find (\<lambda>i. \<not> cp_dirty (pc_pages pc ! i)) (rev xs)"

lemma find_clean_inv:
  assumes "pc_inv pc xs"
  shows "find_clean (pc_pages pc) (lr_nodes (pc_lru pc)) (lr_tail (pc_lru pc)) = Some (lru_clean pc xs)"
proof -
  note D = pc_invD [OF assms]
  have "INVALID_ID \<notin> set xs" using lru_rep_lt [OF D(5)] by blast
  from find_clean_seg [OF lru_repD(4) [OF D(5)] this, of "pc_pages pc"]
  have "find_clean (pc_pages pc) (lr_nodes (pc_lru pc)) (lr_tail (pc_lru pc)) =
      Some (find (\<lambda>i. i < MAX_DATA_PAGES \<and> \<not> cp_dirty (pc_pages pc ! i)) (rev xs))"
    using lru_repD(6) [OF D(5)] by simp
  also have "find (\<lambda>i. i < MAX_DATA_PAGES \<and> \<not> cp_dirty (pc_pages pc ! i)) (rev xs) = lru_clean pc xs"
    unfolding lru_clean_def by (rule find_cong) (use pc_page_lt [OF assms] in auto)
  finally show ?thesis .
qed

section \<open>Allocation\<close>

abbreviation fresh_page :: cached_page where
  "fresh_page \<equiv> cp_empty\<lparr>cp_valid := True\<rparr>"

lemma pc_inv_push:
  assumes "slab_inv sl" and "slab_capacity sl = MAX_DATA_PAGES" and "lru_rep l xs"
    and "length (lr_nodes l) = MAX_DATA_PAGES" and "length ps = MAX_DATA_PAGES"
    and "i < MAX_DATA_PAGES" and "i \<notin> set xs" and "slab_used sl = insert i (set xs)"
  shows "pc_inv (pc\<lparr>pc_slab := sl, pc_pages := ps, pc_lru := lru_push_front i l\<rparr>) (i # xs)"
proof -
  have "lru_rep (lru_push_front i l) (i # removeAll i xs)" "length (lr_nodes (lru_push_front i l)) = MAX_DATA_PAGES"
    using lru_push_front_rep [OF assms(3), of i] assms(4,6) by auto
  then show ?thesis using assms by (simp add: pc_inv_def)
qed

lemma alloc_page_free_slot:
  assumes inv: "pc_inv pc xs" and a: "slab_alloc (pc_slab pc) = (Inr i, sl)"
  shows "alloc_page pc = Some (Inr i, pc\<lparr>pc_slab := sl, pc_pages := (pc_pages pc)[i := fresh_page],
      pc_lru := lru_push_front i (pc_lru pc)\<rparr>)"
    and "i \<notin> set xs" and "i < MAX_DATA_PAGES"
    and "pc_inv (pc\<lparr>pc_slab := sl, pc_pages := (pc_pages pc)[i := fresh_page],
      pc_lru := lru_push_front i (pc_lru pc)\<rparr>) (i # xs)"
proof -
  note D = pc_invD [OF inv]
  note A = slab_alloc_Inr [OF D(1) a]
  show "alloc_page pc = Some (Inr i, pc\<lparr>pc_slab := sl, pc_pages := (pc_pages pc)[i := fresh_page],
      pc_lru := lru_push_front i (pc_lru pc)\<rparr>)"
    by (simp add: alloc_page_def a)
  show i: "i \<notin> set xs" "i < MAX_DATA_PAGES" using A D by auto
  show "pc_inv (pc\<lparr>pc_slab := sl, pc_pages := (pc_pages pc)[i := fresh_page],
      pc_lru := lru_push_front i (pc_lru pc)\<rparr>) (i # xs)"
    using A D i by (intro pc_inv_push) auto
qed

text \<open>Eviction: the freed index is on top of the free stack, so the allocation that follows
  takes it.\<close>

lemma slab_free_alloc:
  assumes "slab_inv s" and "i \<in> slab_used s"
  shows "fst (slab_alloc (slab_free i s)) = Inr i"
proof -
  note F = slab_free_used [OF assms]
  have fl: "take (sl_free_top (slab_free i s)) (sl_free_stack (slab_free i s)) = slab_free_list s @ [i]"
    using F(2) by (simp add: slab_free_list_def)
  have inv: "slab_inv (slab_free i s)" using F(1) by blast
  have top: "sl_free_top (slab_free i s) > 0" using fl by (cases "sl_free_top (slab_free i s) = 0") auto
  have "slab_free_list (slab_free i s) = slab_free_list s @ [i]" by (rule F(2))
  with slab_free_list_snoc [OF inv top]
  have "sl_free_stack (slab_free i s) ! (sl_free_top (slab_free i s) - 1) = i" by simp
  then show ?thesis using top by (simp add: slab_alloc_def Let_def)
qed

lemma evict_and_alloc_clean:
  assumes inv: "pc_inv pc xs" and c: "lru_clean pc xs = Some i"
  shows "\<exists>pc'. evict_and_alloc pc = Some (Inr i, pc') \<and> pc_inv pc' (i # removeAll i xs)
    \<and> pc_pages pc' = (pc_pages pc)[i := fresh_page] \<and> pc_evictions pc' = pc_evictions pc + 1"
proof -
  note D = pc_invD [OF inv]
  have i: "i \<in> set xs" using find_SomeD [OF c [unfolded lru_clean_def]] by simp
  then have iu: "i \<in> slab_used (pc_slab pc)" and lt: "i < MAX_DATA_PAGES" using D(6) pc_page_lt [OF inv] by auto
  note F = slab_free_used(1) [OF D(1) iu]
  obtain sl where a: "slab_alloc (slab_free i (pc_slab pc)) = (Inr i, sl)"
    using slab_free_alloc [OF D(1) iu] by (metis prod.collapse)
  note A = slab_alloc_Inr [OF _ a]
  note R = lru_remove_removeAll [OF D(5), of i]
  let ?ps = "(pc_pages pc)[i := fresh_page]"
  let ?pc = "(pc\<lparr>pc_evictions := pc_evictions pc + 1\<rparr>)\<lparr>pc_slab := sl, pc_pages := ?ps,
      pc_lru := lru_push_front i (lru_remove i (pc_lru pc))\<rparr>"
  have e: "evict_and_alloc pc = Some (Inr i, ?pc)"
    using lt D(3) by (simp add: evict_and_alloc_def find_clean_inv [OF inv] c a Let_def)
  have "slab_used sl = insert i (set (removeAll i xs))" using A F D(6) by auto
  then have "pc_inv ?pc (i # removeAll i xs)"
    using A F D R lt by (intro pc_inv_push) auto
  with e show ?thesis by (intro exI [of _ ?pc]) simp
qed

lemma evict_and_alloc_none:
  assumes "pc_inv pc xs" and "lru_clean pc xs = None"
  shows "evict_and_alloc pc = Some (Inl NoSpace, pc)"
  using assms by (simp add: evict_and_alloc_def find_clean_inv)

section \<open>The other operations\<close>

lemma pc_inv_free:
  assumes "pc_inv pc xs"
  shows "pc_inv (free_page i pc) (removeAll i xs)"
proof (cases "i \<in> set xs")
  case True
  note D = pc_invD [OF assms]
  have act: "i < MAX_DATA_PAGES" "slab_is_active (pc_slab pc) i" "i \<in> slab_used (pc_slab pc)"
    using True D(6) pc_page_lt [OF assms] by (auto simp: slab_used_def)
  with slab_free_used(1) [OF D(1) act(3)] lru_remove_removeAll [OF D(5), of i] D
  show ?thesis by (auto simp: free_page_def pc_inv_def)
next
  case False
  then have "\<not> slab_is_active (pc_slab pc) i" using pc_invD(6) [OF assms] by (auto simp: slab_used_def)
  with False assms show ?thesis by (simp add: free_page_def)
qed

lemma pc_inv_touch:
  assumes "pc_inv pc xs" and "i \<in> set xs" and "length ps = MAX_DATA_PAGES"
  shows "pc_inv (pc\<lparr>pc_lru := lru_touch i (pc_lru pc), pc_pages := ps\<rparr>) (i # removeAll i xs)"
proof -
  note D = pc_invD [OF assms(1)]
  have "i < MAX_DATA_PAGES" using pc_page_lt [OF assms(1,2)] .
  with lru_push_front_rep [OF D(5), of i] D assms(2,3) show ?thesis
    by (auto simp: pc_inv_def lru_touch_def)
qed

lemma pc_active_iff: "pc_inv pc xs \<Longrightarrow> i < MAX_DATA_PAGES \<and> slab_is_active (pc_slab pc) i \<longleftrightarrow> i \<in> set xs"
  using pc_invD(6) pc_page_lt by (fastforce simp: slab_used_def)

lemma pc_inv_counters:
  "pc_inv pc xs \<Longrightarrow> pc_inv (pc\<lparr>pc_total_reads := r\<rparr>) xs" "pc_inv pc xs \<Longrightarrow> pc_inv (pc\<lparr>pc_total_writes := w\<rparr>) xs"
  "pc_inv pc xs \<Longrightarrow> length ps = MAX_DATA_PAGES \<Longrightarrow> pc_inv (pc\<lparr>pc_pages := ps\<rparr>) xs"
  by (simp_all add: pc_inv_def)

lemma pc_inv_get:
  assumes "pc_inv pc xs"
  shows "pc_inv (snd (get_page_data i pc)) (if i \<in> set xs then i # removeAll i xs else xs)"
proof -
  have "pc_pages (pc\<lparr>pc_total_reads := pc_total_reads pc + 1, pc_lru := lru_touch i (pc_lru pc)\<rparr>) = pc_pages pc" by simp
  moreover have "pc_inv ((pc\<lparr>pc_total_reads := pc_total_reads pc + 1\<rparr>)\<lparr>pc_lru := lru_touch i (pc_lru pc), pc_pages := pc_pages pc\<rparr>)
      (i # removeAll i xs)" if "i \<in> set xs"
    using pc_inv_touch [OF pc_inv_counters(1) [OF assms] that, of "pc_pages pc"] pc_invD(3) [OF assms] by simp
  ultimately show ?thesis using assms pc_active_iff [OF assms, of i] by (auto simp: get_page_data_def)
qed

lemma pc_inv_get_mut:
  assumes "pc_inv pc xs"
  shows "pc_inv (snd (get_page_data_mut i f pc)) (if i \<in> set xs then i # removeAll i xs else xs)"
  using pc_inv_touch [OF pc_inv_counters(2) [OF assms], of i] pc_invD(3) [OF assms] assms pc_active_iff [OF assms, of i]
  by (auto simp: get_page_data_mut_def)

lemma pc_inv_set_dirty: "pc_inv pc xs \<Longrightarrow> pc_inv (set_dirty i d pc) xs"
  using pc_invD(3) pc_inv_counters(3) by (simp add: set_dirty_def)

lemma pc_inv_flush: "pc_inv pc xs \<Longrightarrow> pc_inv (flush_all pc) xs"
  unfolding flush_all_def
  by (rule fold_invariant [where Q = "\<lambda>_. True" and P = "\<lambda>pc. pc_inv pc xs"])
    (auto simp: pc_inv_counters(3) pc_invD(3))

text \<open>All states of the cache.\<close>

inductive pc_reach :: "page_cache \<Rightarrow> bool" where
  init: "pc_reach pc_new"
| alloc: "pc_reach pc \<Longrightarrow> alloc_page pc = Some (res, pc') \<Longrightarrow> pc_reach pc'"
| free: "pc_reach pc \<Longrightarrow> pc_reach (free_page i pc)"
| get: "pc_reach pc \<Longrightarrow> pc_reach (snd (get_page_data i pc))"
| get_mut: "pc_reach pc \<Longrightarrow> pc_reach (snd (get_page_data_mut i f pc))"
| dirty: "pc_reach pc \<Longrightarrow> pc_reach (set_dirty i d pc)"
| flush: "pc_reach pc \<Longrightarrow> pc_reach (flush_all pc)"

lemma alloc_page_cases:
  assumes "pc_inv pc xs"
  shows "\<exists>res pc'. alloc_page pc = Some (res, pc') \<and>
    (case res of
       Inl e \<Rightarrow> e = NoSpace \<and> pc' = pc \<and> set xs = {..<MAX_DATA_PAGES} \<and> lru_clean pc xs = None
     | Inr i \<Rightarrow> i < MAX_DATA_PAGES \<and> pc_inv pc' (i # removeAll i xs) \<and> pc_pages pc' = (pc_pages pc)[i := fresh_page]
         \<and> (i \<in> set xs \<longrightarrow> set xs = {..<MAX_DATA_PAGES} \<and> lru_clean pc xs = Some i \<and> \<not> cp_dirty (pc_pages pc ! i)))"
proof (cases "slab_alloc (pc_slab pc)")
  case (Pair r sl)
  note D = pc_invD [OF assms]
  show ?thesis
  proof (cases r)
    case (Inr i)
    note A = alloc_page_free_slot [OF assms Pair [unfolded Inr]]
    then have "removeAll i xs = xs" by simp
    with A show ?thesis by simp
  next
    case (Inl e)
    with slab_alloc_Inl [OF D(1) Pair [unfolded Inl]] Pair D
    have full: "set xs = {..<MAX_DATA_PAGES}" and a: "alloc_page pc = evict_and_alloc pc"
      by (auto simp: alloc_page_def)
    show ?thesis
    proof (cases "lru_clean pc xs")
      case None
      then show ?thesis using a full evict_and_alloc_none [OF assms] by auto
    next
      case (Some i)
      then have "\<not> cp_dirty (pc_pages pc ! i)" "i \<in> set xs"
        using find_SomeD [OF Some [unfolded lru_clean_def]] by auto
      with evict_and_alloc_clean [OF assms Some] a full Some show ?thesis by force
    qed
  qed
qed

lemma pc_reach_inv: "pc_reach pc \<Longrightarrow> \<exists>xs. pc_inv pc xs"
proof (induction rule: pc_reach.induct)
  case (alloc pc res pc')
  then obtain xs where "pc_inv pc xs" by blast
  from alloc_page_cases [OF this] alloc.hyps(2) \<open>pc_inv pc xs\<close> show ?case by (cases res) auto
qed (blast intro: pc_inv_new pc_inv_free pc_inv_get pc_inv_get_mut pc_inv_set_dirty pc_inv_flush)+

section \<open>Properties\<close>

text \<open>C32: Allocating a cache page always returns. It yields a zeroed valid page that is now
  the most recently used one and leaves every other page as it was; a page in use is taken
  only when the cache is full, and then it is the least recently used clean page, so dirty
  data is never dropped. It fails only when all pages are in use and dirty, and then changes
  nothing. The agreement of slab and list is kept.\<close>

theorem alloc_page_correct:
  assumes "pc_inv pc xs"
  shows "\<exists>res pc'. alloc_page pc = Some (res, pc') \<and>
    (case res of
       Inl e \<Rightarrow> e = NoSpace \<and> pc' = pc \<and> set xs = {..<MAX_DATA_PAGES} \<and> lru_clean pc xs = None
     | Inr i \<Rightarrow> i < MAX_DATA_PAGES \<and> pc_inv pc' (i # removeAll i xs) \<and> pc_pages pc' = (pc_pages pc)[i := fresh_page]
         \<and> (i \<in> set xs \<longrightarrow> set xs = {..<MAX_DATA_PAGES} \<and> lru_clean pc xs = Some i \<and> \<not> cp_dirty (pc_pages pc ! i)))"
  using alloc_page_cases [OF assms] .

theorem alloc_page_correct_witness:
  "\<exists>i pc'. alloc_page pc_new = Some (Inr i, pc') \<and> pc_inv pc' [i] \<and> pc_pages pc' ! i = fresh_page"
proof -
  obtain res pc' where "alloc_page pc_new = Some (res, pc')"
    "case res of
       Inl e \<Rightarrow> e = NoSpace \<and> pc' = pc_new \<and> set [] = {..<MAX_DATA_PAGES} \<and> lru_clean pc_new [] = None
     | Inr i \<Rightarrow> i < MAX_DATA_PAGES \<and> pc_inv pc' (i # removeAll i []) \<and> pc_pages pc' = (pc_pages pc_new)[i := fresh_page]
         \<and> (i \<in> set [] \<longrightarrow> set [] = {..<MAX_DATA_PAGES} \<and> lru_clean pc_new [] = Some i \<and> \<not> cp_dirty (pc_pages pc_new ! i))"
    using alloc_page_correct [OF pc_inv_new] by blast
  moreover have "0 \<in> {..<MAX_DATA_PAGES}" by (simp add: MAX_DATA_PAGES_def)
  then have "{} \<noteq> {..<MAX_DATA_PAGES}" by blast
  moreover have "length (pc_pages pc_new) = MAX_DATA_PAGES" by (simp add: pc_new_def)
  ultimately show ?thesis by (cases res) auto
qed



end
