(* ===== verification/AddrSpace.thy ===== *)
theory AddrSpace
  imports Pages
begin

text \<open>
  The table of cached pages of one file, \<open>kernel/fs/vfs/address_space.rs\<close>: a fixed array of
  page identifiers with \<open>INVALID_ID\<close> for a hole. The truncation iterator, which clears the
  entries it yields, is the pair of the identifiers it yields when drained and the table that
  is left.
\<close>

definition DIRECT_BLOCKS :: nat where
  "DIRECT_BLOCKS = 128"

record address_space =
  as_direct :: "nat list"
  as_indirect :: nat
  as_nr_pages :: nat

definition as_new :: address_space where
  "as_new = \<lparr>as_direct = replicate DIRECT_BLOCKS INVALID_ID, as_indirect = INVALID_ID, as_nr_pages = 0\<rparr>"

definition get_page :: "nat \<Rightarrow> address_space \<Rightarrow> nat option" where
  "get_page page_num a =
     (if page_num < DIRECT_BLOCKS
      then let pid = as_direct a ! page_num in if pid \<noteq> INVALID_ID then Some pid else None
      else None)"

definition set_page :: "nat \<Rightarrow> nat \<Rightarrow> address_space \<Rightarrow> unit vfs_result \<times> address_space" where
  "set_page page_num page_id a =
     (if page_num < DIRECT_BLOCKS
      then (Inr (), a\<lparr>as_nr_pages := (if as_direct a ! page_num = INVALID_ID then as_nr_pages a + 1 else as_nr_pages a),
                      as_direct := (as_direct a)[page_num := page_id]\<rparr>)
      else (Inl FileTooLarge, a))"

definition clear_page :: "nat \<Rightarrow> address_space \<Rightarrow> address_space" where
  "clear_page page_num a =
     (if page_num < DIRECT_BLOCKS \<and> as_direct a ! page_num \<noteq> INVALID_ID
      then a\<lparr>as_direct := (as_direct a)[page_num := INVALID_ID],
             as_nr_pages := (if as_nr_pages a > 0 then as_nr_pages a - 1 else as_nr_pages a)\<rparr>
      else a)"

definition as_truncate_to :: "nat \<Rightarrow> address_space \<Rightarrow> nat list \<times> address_space" where
  "as_truncate_to new_page_count a =
     fold (\<lambda>idx (ids, a). case get_page idx a of None \<Rightarrow> (ids, a) | Some pid \<Rightarrow> (ids @ [pid], clear_page idx a))
       [new_page_count..<DIRECT_BLOCKS] ([], a)"

definition max_pages :: nat where
  "max_pages = DIRECT_BLOCKS"

definition max_size :: nat where
  "max_size = max_pages * PAGE_SIZE"

definition pages_for_size :: "u64 \<Rightarrow> nat" where
  "pages_for_size sz = (if sz = 0 then 0 else unat (sz + of_nat PAGE_SIZE - 1) div PAGE_SIZE)"

definition iter_pages :: "address_space \<Rightarrow> (nat \<times> nat) list" where
  "iter_pages a = filter (\<lambda>(i, pid). pid \<noteq> INVALID_ID) (map (\<lambda>i. (i, as_direct a ! i)) [0..<DIRECT_BLOCKS])"

definition used_bytes :: "address_space \<Rightarrow> nat" where
  "used_bytes a = as_nr_pages a * PAGE_SIZE"

section \<open>Lemmas\<close>

definition as_wf :: "address_space \<Rightarrow> bool" where
  "as_wf a = (length (as_direct a) = DIRECT_BLOCKS)"

lemma as_wf_new [simp]: "as_wf as_new"
  by (simp add: as_wf_def as_new_def)

lemma get_page_new [simp]: "get_page pn as_new = None"
  by (simp add: get_page_def as_new_def)

lemma get_page_bound: "get_page pn a = Some pid \<Longrightarrow> pn < DIRECT_BLOCKS \<and> pid \<noteq> INVALID_ID"
  by (auto simp: get_page_def Let_def split: if_splits)

lemma as_wf_set_page [simp]: "as_wf a \<Longrightarrow> as_wf (snd (set_page pn pid a))"
  by (simp add: as_wf_def set_page_def)

lemma as_wf_clear_page [simp]: "as_wf a \<Longrightarrow> as_wf (clear_page pn a)"
  by (simp add: as_wf_def clear_page_def)

lemma get_page_set_page:
  "as_wf a \<Longrightarrow> pn < DIRECT_BLOCKS \<Longrightarrow> pid \<noteq> INVALID_ID \<Longrightarrow>
   get_page q (snd (set_page pn pid a)) = (if q = pn then Some pid else get_page q a)"
  by (auto simp: get_page_def set_page_def as_wf_def Let_def)

lemma get_page_clear_page:
  "as_wf a \<Longrightarrow> get_page q (clear_page pn a) = (if q = pn then None else get_page q a)"
  by (cases "q = pn"; cases "pn < DIRECT_BLOCKS") (simp_all add: get_page_def clear_page_def as_wf_def Let_def)

lemma iter_pages_iff: "(pn, pid) \<in> set (iter_pages a) \<longleftrightarrow> get_page pn a = Some pid"
  by (auto simp: iter_pages_def get_page_def Let_def)

lemma as_truncate_to_spec:
  assumes "as_wf a"
  shows "as_wf (snd (as_truncate_to n a))"
    "get_page q (snd (as_truncate_to n a)) = (if n \<le> q then None else get_page q a)"
    "set (fst (as_truncate_to n a)) = {pid. \<exists>q\<ge>n. get_page q a = Some pid}"
proof -
  let ?f = "\<lambda>idx (ids, a). case get_page idx a of None \<Rightarrow> (ids, a) | Some pid \<Rightarrow> (ids @ [pid], clear_page idx a)"
  have "as_wf (snd (fold ?f xs (ids, a))) \<and>
      (\<forall>q. get_page q (snd (fold ?f xs (ids, a))) = (if q \<in> set xs then None else get_page q a)) \<and>
      set (fst (fold ?f xs (ids, a))) = set ids \<union> {pid. \<exists>q\<in>set xs. get_page q a = Some pid}"
    if "distinct xs" "as_wf a" for xs ids a
    using that
  proof (induction xs arbitrary: ids a)
    case (Cons x xs)
    show ?case
    proof (cases "get_page x a")
      case None
      with Cons.IH [of a ids] Cons.prems show ?thesis by (auto split: if_splits)
    next
      case (Some pid)
      with Cons.IH [of "clear_page x a" "ids @ [pid]"] Cons.prems show ?thesis
        by (auto simp: get_page_clear_page split: if_splits)
    qed
  qed simp
  from this [of "[n..<DIRECT_BLOCKS]" a "[]"] assms
  show "as_wf (snd (as_truncate_to n a))"
    "get_page q (snd (as_truncate_to n a)) = (if n \<le> q then None else get_page q a)"
    "set (fst (as_truncate_to n a)) = {pid. \<exists>q\<ge>n. get_page q a = Some pid}"
    using get_page_bound [of q a] get_page_bound by (auto simp: as_truncate_to_def not_less) fastforce+
qed

end
