(* ===== verification/Vnode.thy ===== *)
theory Vnode
  imports Children AddrSpace
begin

text \<open>
  The in-memory node of \<open>kernel/fs/vfs/vnode.rs\<close> and the device types of
  \<open>kernel/fs/devfs.rs\<close>. A node of a file embedded in the kernel image carries its bytes in
  \<open>vn_static_data\<close>.
\<close>

abbreviation INVALID_U8 :: u8 where "INVALID_U8 \<equiv> 0xFF"

record vnode_flags =
  vf_dirty :: bool
  vf_immutable :: bool
  vf_append_only :: bool
  vf_no_atime :: bool
  vf_encrypted :: bool
  vf_compressed :: bool
  vf_versioned :: bool
  vf_locked :: bool

definition vf_empty :: vnode_flags where
  "vf_empty = \<lparr>vf_dirty = False, vf_immutable = False, vf_append_only = False, vf_no_atime = False,
     vf_encrypted = False, vf_compressed = False, vf_versioned = False, vf_locked = False\<rparr>"

record vnode =
  vn_id :: nat
  vn_parent :: nat
  vn_name :: name_buf
  vn_kind :: VNodeKind
  vn_fs_type :: FsType
  vn_active :: bool
  vn_mode :: file_mode
  vn_uid :: u16
  vn_gid :: u16
  vn_size :: u64
  vn_nlinks :: u16
  vn_refcount :: u16
  vn_atime :: u64
  vn_mtime :: u64
  vn_ctime :: u64
  vn_btime :: u64
  vn_children :: children
  vn_addr_space :: address_space
  vn_symlink_target :: name_buf
  vn_dev_major :: u8
  vn_dev_minor :: u8
  vn_mount_id :: u8
  vn_flags :: vnode_flags
  vn_ext2_ino :: u32
  vn_children_loaded :: bool
  vn_static_data :: "u8 list option"
  vn_pipe_read_pos :: u64

definition vn_empty :: vnode where
  "vn_empty = \<lparr>vn_id = INVALID_ID, vn_parent = INVALID_ID, vn_name = nb_empty, vn_kind = Regular,
     vn_fs_type = TmpFS, vn_active = False, vn_mode = 0x1A4, vn_uid = 0, vn_gid = 0, vn_size = 0,
     vn_nlinks = 0, vn_refcount = 0, vn_atime = 0, vn_mtime = 0, vn_ctime = 0, vn_btime = 0,
     vn_children = ch_new, vn_addr_space = as_new, vn_symlink_target = nb_empty, vn_dev_major = 0,
     vn_dev_minor = 0, vn_mount_id = INVALID_U8, vn_flags = vf_empty, vn_ext2_ino = 0,
     vn_children_loaded = False, vn_static_data = None, vn_pipe_read_pos = 0\<rparr>"

definition vn_init :: "nat \<Rightarrow> nat \<Rightarrow> u8 list \<Rightarrow> VNodeKind \<Rightarrow> FsType \<Rightarrow> file_mode \<Rightarrow> u16 \<Rightarrow> u16 \<Rightarrow> u64 \<Rightarrow> vnode" where
  "vn_init nid parent name kind fs_type mode uid gid now =
     vn_empty\<lparr>vn_id := nid, vn_parent := parent, vn_name := nb_from_str name, vn_kind := kind,
       vn_fs_type := fs_type, vn_mode := mode, vn_uid := uid, vn_gid := gid,
       vn_nlinks := (if kind = Directory then 2 else 1),
       vn_atime := now, vn_mtime := now, vn_ctime := now, vn_btime := now, vn_active := True\<rparr>"

definition is_dir :: "vnode \<Rightarrow> bool" where "is_dir n = (vn_kind n = Directory)"
definition is_regular :: "vnode \<Rightarrow> bool" where "is_regular n = (vn_kind n = Regular)"
definition is_symlink :: "vnode \<Rightarrow> bool" where "is_symlink n = (vn_kind n = Symlink)"
definition is_pipe :: "vnode \<Rightarrow> bool" where "is_pipe n = (vn_kind n = Pipe \<or> vn_kind n = Fifo)"
definition is_device :: "vnode \<Rightarrow> bool" where "is_device n = (vn_kind n = CharDevice \<or> vn_kind n = BlockDevice)"
definition is_mountpoint :: "vnode \<Rightarrow> bool" where "is_mountpoint n = (vn_mount_id n \<noteq> INVALID_U8)"

definition get_name :: "vnode \<Rightarrow> u8 list" where
  "get_name n = nb_as_str (vn_name n)"

definition name_eq :: "vnode \<Rightarrow> u8 list \<Rightarrow> bool" where
  "name_eq n name = nb_eq_str (vn_name n) name"

definition is_ext_backed :: "vnode \<Rightarrow> bool" where
  "is_ext_backed n = (is_ext_family (vn_fs_type n) \<and> vn_ext2_ino n \<noteq> 0)"

record vnode_stat =
  st_id :: nat
  st_kind :: VNodeKind
  st_mode :: file_mode
  st_size :: u64
  st_blocks :: nat
  st_nlinks :: u16
  st_uid :: u16
  st_gid :: u16
  st_fs_type :: FsType
  st_dev_major :: u8
  st_dev_minor :: u8
  st_atime :: u64
  st_mtime :: u64
  st_ctime :: u64
  st_btime :: u64

definition vn_stat :: "vnode \<Rightarrow> vnode_stat" where
  "vn_stat n = \<lparr>st_id = vn_id n, st_kind = vn_kind n, st_mode = vn_mode n, st_size = vn_size n,
     st_blocks = (if vn_static_data n \<noteq> None then (unat (vn_size n) + 511) div 512 mod 2 ^ 32
                  else as_nr_pages (vn_addr_space n)),
     st_nlinks = vn_nlinks n, st_uid = vn_uid n, st_gid = vn_gid n, st_fs_type = vn_fs_type n,
     st_dev_major = vn_dev_major n, st_dev_minor = vn_dev_minor n, st_atime = vn_atime n,
     st_mtime = vn_mtime n, st_ctime = vn_ctime n, st_btime = vn_btime n\<rparr>"

definition touch_atime :: "u64 \<Rightarrow> vnode \<Rightarrow> vnode" where
  "touch_atime now n = (if \<not> vf_no_atime (vn_flags n) then n\<lparr>vn_atime := now\<rparr> else n)"

definition touch_mtime :: "u64 \<Rightarrow> vnode \<Rightarrow> vnode" where
  "touch_mtime now n = n\<lparr>vn_mtime := now, vn_ctime := now, vn_flags := (vn_flags n)\<lparr>vf_dirty := True\<rparr>\<rparr>"

definition touch_ctime :: "u64 \<Rightarrow> vnode \<Rightarrow> vnode" where
  "touch_ctime now n = n\<lparr>vn_ctime := now\<rparr>"

definition inc_ref :: "vnode \<Rightarrow> vnode" where
  "inc_ref n = n\<lparr>vn_refcount := saturating_add (vn_refcount n) 1\<rparr>"

definition dec_ref :: "vnode \<Rightarrow> vnode" where
  "dec_ref n = n\<lparr>vn_refcount := saturating_sub (vn_refcount n) 1\<rparr>"

section \<open>Devices\<close>

datatype dev_type = Null | Zero | Random | Console | Block u8 u8

definition dev_type_from_node :: "u8 \<Rightarrow> u8 \<Rightarrow> dev_type option" where
  "dev_type_from_node major minor =
     (if (major, minor) = (1, 3) then Some Null
      else if (major, minor) = (1, 5) then Some Zero
      else if (major, minor) = (1, 8) then Some Random
      else if (major, minor) = (5, 1) then Some Console
      else if major = 8 then Some (Block (minor div 16) (minor mod 16))
      else None)"

definition dev_major :: "dev_type \<Rightarrow> u8" where
  "dev_major d = (case d of Null \<Rightarrow> 1 | Zero \<Rightarrow> 1 | Random \<Rightarrow> 1 | Console \<Rightarrow> 5 | Block _ _ \<Rightarrow> 8)"

definition dev_minor :: "dev_type \<Rightarrow> u8" where
  "dev_minor d = (case d of Null \<Rightarrow> 3 | Zero \<Rightarrow> 5 | Random \<Rightarrow> 8 | Console \<Rightarrow> 1 | Block dev part \<Rightarrow> dev * 16 + part)"

lemma vn_init_fields [simp]:
  "vn_id (vn_init i p nm k f m u g t) = i" "vn_parent (vn_init i p nm k f m u g t) = p"
  "vn_kind (vn_init i p nm k f m u g t) = k" "vn_fs_type (vn_init i p nm k f m u g t) = f"
  "vn_active (vn_init i p nm k f m u g t)" "vn_mode (vn_init i p nm k f m u g t) = m"
  "vn_uid (vn_init i p nm k f m u g t) = u" "vn_gid (vn_init i p nm k f m u g t) = g"
  "vn_size (vn_init i p nm k f m u g t) = 0" "vn_refcount (vn_init i p nm k f m u g t) = 0"
  "vn_children (vn_init i p nm k f m u g t) = ch_new" "vn_addr_space (vn_init i p nm k f m u g t) = as_new"
  "vn_ext2_ino (vn_init i p nm k f m u g t) = 0" "vn_static_data (vn_init i p nm k f m u g t) = None"
  "vn_flags (vn_init i p nm k f m u g t) = vf_empty" "vn_name (vn_init i p nm k f m u g t) = nb_from_str nm"
  by (simp_all add: vn_init_def vn_empty_def)

end
