(* ===== verification/Mount.thy ===== *)
theory Mount
  imports SlotTable
begin

text \<open>
  The mount table of \<open>kernel/fs/vfs/mount.rs\<close>: a fixed array of mounts whose index is the
  mount's identifier, with a count of the active ones. The table is an instance of the
  allocator interface.
\<close>

abbreviation MAX_MOUNTS :: nat where "MAX_MOUNTS \<equiv> 8"

abbreviation MNT_RDONLY :: u32 where "MNT_RDONLY \<equiv> 0x01"

record mount_entry =
  me_id :: nat
  me_fs_type :: FsType
  me_root_vnode :: nat
  me_parent_vnode :: nat
  me_flags :: u32
  me_active :: bool
  me_read_only :: bool

definition me_empty :: mount_entry where
  "me_empty = \<lparr>me_id = 0xFF, me_fs_type = TmpFS, me_root_vnode = INVALID_ID, me_parent_vnode = INVALID_ID,
     me_flags = 0, me_active = False, me_read_only = False\<rparr>"

record mount_table =
  mt_mounts :: "mount_entry list"
  mt_count :: nat

definition mt_new :: mount_table where
  "mt_new = \<lparr>mt_mounts = replicate MAX_MOUNTS me_empty, mt_count = 0\<rparr>"

definition mt_add :: "FsType \<Rightarrow> nat \<Rightarrow> nat \<Rightarrow> mount_table \<Rightarrow> nat vfs_result \<times> mount_table" where
  "mt_add fs_type root parent t =
     (case find_from (\<lambda>i. \<not> me_active (mt_mounts t ! i)) 0 MAX_MOUNTS of
        Some i \<Rightarrow>
          (Inr i, t\<lparr>mt_mounts := (mt_mounts t)[i := \<lparr>me_id = i, me_fs_type = fs_type, me_root_vnode = root,
             me_parent_vnode = parent, me_flags = 0, me_active = True, me_read_only = (fs_type = ProcFS)\<rparr>],
             mt_count := mt_count t + 1\<rparr>)
      | None \<Rightarrow> (Inl NoSpace, t))"

definition mt_remove :: "nat \<Rightarrow> mount_table \<Rightarrow> unit vfs_result \<times> mount_table" where
  "mt_remove i t =
     (if i < MAX_MOUNTS \<and> me_active (mt_mounts t ! i)
      then (Inr (), t\<lparr>mt_mounts := (mt_mounts t)[i := me_empty],
             mt_count := (if mt_count t > 0 then mt_count t - 1 else mt_count t)\<rparr>)
      else (Inl NotMounted, t))"

definition mt_get :: "nat \<Rightarrow> mount_table \<Rightarrow> mount_entry option" where
  "mt_get i t = (if i < MAX_MOUNTS \<and> me_active (mt_mounts t ! i) then Some (mt_mounts t ! i) else None)"

definition find_by_mountpoint :: "nat \<Rightarrow> mount_table \<Rightarrow> mount_entry option" where
  "find_by_mountpoint vnode_id t =
     map_option (\<lambda>i. mt_mounts t ! i)
       (find_from (\<lambda>i. me_active (mt_mounts t ! i) \<and> me_parent_vnode (mt_mounts t ! i) = vnode_id) 0 MAX_MOUNTS)"

definition find_by_root :: "nat \<Rightarrow> mount_table \<Rightarrow> mount_entry option" where
  "find_by_root vnode_id t =
     map_option (\<lambda>i. mt_mounts t ! i)
       (find_from (\<lambda>i. me_active (mt_mounts t ! i) \<and> me_root_vnode (mt_mounts t ! i) = vnode_id) 0 MAX_MOUNTS)"

definition mt_is_readonly :: "nat \<Rightarrow> mount_table \<Rightarrow> bool" where
  "mt_is_readonly mount_id t =
     (case mt_get mount_id t of Some m \<Rightarrow> me_read_only m \<or> me_flags m AND MNT_RDONLY \<noteq> 0 | None \<Rightarrow> False)"

definition mt_iter :: "mount_table \<Rightarrow> mount_entry list" where
  "mt_iter t = filter me_active (mt_mounts t)"

section \<open>Invariant\<close>

definition mounted :: "mount_table \<Rightarrow> nat set" where
  "mounted t = {i. i < MAX_MOUNTS \<and> me_active (mt_mounts t ! i)}"

definition mt_inv :: "mount_table \<Rightarrow> bool" where
  "mt_inv t = (length (mt_mounts t) = MAX_MOUNTS \<and> mt_count t = card (mounted t)
     \<and> (\<forall>i\<in>mounted t. me_id (mt_mounts t ! i) = i))"

lemma finite_mounted [simp]: "finite (mounted t)"
  by (simp add: mounted_def)

lemma mt_inv_new: "mt_inv mt_new"
proof -
  have "mounted mt_new = {}" by (auto simp: mounted_def mt_new_def me_empty_def)
  then show ?thesis by (simp add: mt_inv_def) (simp add: mt_new_def)
qed

lemma mt_add_Inr:
  assumes "mt_inv t" and "mt_add f r p t = (Inr i, t')"
  shows "i < MAX_MOUNTS" "i \<notin> mounted t" "mounted t' = insert i (mounted t)" "mt_inv t'"
    "mt_get i t' = Some \<lparr>me_id = i, me_fs_type = f, me_root_vnode = r, me_parent_vnode = p, me_flags = 0,
       me_active = True, me_read_only = (f = ProcFS)\<rparr>"
    "j \<noteq> i \<Longrightarrow> mt_get j t' = mt_get j t"
proof -
  have i: "i < MAX_MOUNTS" "\<not> me_active (mt_mounts t ! i)"
    and t': "t' = t\<lparr>mt_mounts := (mt_mounts t)[i := \<lparr>me_id = i, me_fs_type = f, me_root_vnode = r,
      me_parent_vnode = p, me_flags = 0, me_active = True, me_read_only = (f = ProcFS)\<rparr>], mt_count := mt_count t + 1\<rparr>"
    using assms(2) by (auto simp: mt_add_def find_from_Some split: option.splits)
  have len: "length (mt_mounts t) = MAX_MOUNTS" using assms(1) by (simp add: mt_inv_def)
  show "i < MAX_MOUNTS" "i \<notin> mounted t" using i by (simp_all add: mounted_def)
  show m: "mounted t' = insert i (mounted t)"
    using i len by (auto simp: mounted_def t' nth_list_update split: if_splits)
  show "mt_inv t'"
    using assms(1) i len m by (auto simp: mt_inv_def t' mounted_def nth_list_update split: if_splits)
  show "mt_get i t' = Some \<lparr>me_id = i, me_fs_type = f, me_root_vnode = r, me_parent_vnode = p, me_flags = 0,
       me_active = True, me_read_only = (f = ProcFS)\<rparr>" "j \<noteq> i \<Longrightarrow> mt_get j t' = mt_get j t"
    using i len by (simp_all add: mt_get_def t')
qed

definition mt_try_add :: "FsType \<Rightarrow> nat \<Rightarrow> nat \<Rightarrow> mount_table \<Rightarrow> nat option \<times> mount_table" where
  "mt_try_add f r p t = (case mt_add f r p t of (Inl _, t') \<Rightarrow> (None, t') | (Inr i, t') \<Rightarrow> (Some i, t'))"

interpretation mounts: allocator mt_inv mounted "\<lambda>_. {..<MAX_MOUNTS}" "mt_try_add f r p"
  "\<lambda>i t. snd (mt_remove i t)" for f r p
proof unfold_locales
  fix t t' and i :: nat
  assume "mt_inv t" "mt_try_add f r p t = (Some i, t')"
  then show "i \<in> {..<MAX_MOUNTS} \<and> i \<notin> mounted t \<and> mounted t' = insert i (mounted t)
      \<and> {..<MAX_MOUNTS} = {..<MAX_MOUNTS} \<and> mt_inv t'"
    using mt_add_Inr [of t f r p i t'] by (auto simp: mt_try_add_def split: prod.splits sum.splits)
next
  fix t t'
  assume "mt_try_add f r p t = (None, t')"
  then show "t' = t \<and> {..<MAX_MOUNTS} \<subseteq> mounted t"
    by (auto simp: mt_try_add_def mt_add_def mounted_def find_from_None split: prod.splits sum.splits option.splits)
next
  fix t and i :: nat
  assume inv: "mt_inv t" and i: "i \<in> mounted t"
  have len: "length (mt_mounts t) = MAX_MOUNTS" and id: "\<forall>j\<in>mounted t. me_id (mt_mounts t ! j) = j"
    using inv by (auto simp: mt_inv_def)
  have m: "mounted (snd (mt_remove i t)) = mounted t - {i}"
    using i len by (auto simp: mt_remove_def mounted_def nth_list_update me_empty_def split: if_splits)
  have "mt_count t > 0" using inv i by (auto simp: mt_inv_def card_gt_0_iff)
  then have "mt_inv (snd (mt_remove i t))"
    using inv i m id by (auto simp: mt_inv_def mt_remove_def mounted_def card_Diff_singleton)
  with m show "mounted (snd (mt_remove i t)) = mounted t - {i} \<and> {..<MAX_MOUNTS} = {..<MAX_MOUNTS}
      \<and> mt_inv (snd (mt_remove i t))" by simp
qed

end
