(* ===== verification/Fd.thy ===== *)
theory Fd
  imports SlotTable
begin

text \<open>
  The per-process file descriptor table of \<open>kernel/fs/vfs/fd.rs\<close>. A table is the list of its
  \<open>MAX_OPEN_FILES\<close> entries; a mutable reference obtained by \<open>get_mut\<close> is the update
  \<open>fd_modify\<close>. The table is an instance of the allocator interface over the descriptors
  above the standard streams.
\<close>

definition MAX_OPEN_FILES :: nat where
  "MAX_OPEN_FILES = 128"

definition RESERVED_STDIO_FDS :: nat where
  "RESERVED_STDIO_FDS = 3"

record open_file =
  of_vnode_id :: nat
  of_flags :: open_flags
  of_offset :: u64
  of_active :: bool

type_synonym fd_table = "open_file list"

definition of_empty :: open_file where
  "of_empty = \<lparr>of_vnode_id = INVALID_ID, of_flags = 0, of_offset = 0, of_active = False\<rparr>"

definition fd_new :: fd_table where
  "fd_new = replicate MAX_OPEN_FILES of_empty"

definition fd_place :: "nat \<Rightarrow> open_flags \<Rightarrow> u64 \<Rightarrow> fd_table \<Rightarrow> nat vfs_result \<times> fd_table" where
  "fd_place vnode_id flags offset t =
     (case find_from (\<lambda>i. \<not> of_active (t ! i)) RESERVED_STDIO_FDS MAX_OPEN_FILES of
        Some i \<Rightarrow> (Inr i, t[i := \<lparr>of_vnode_id = vnode_id, of_flags = flags, of_offset = offset, of_active = True\<rparr>])
      | None \<Rightarrow> (Inl TooManyOpenFiles, t))"

definition fd_alloc :: "nat \<Rightarrow> open_flags \<Rightarrow> fd_table \<Rightarrow> nat vfs_result \<times> fd_table" where
  "fd_alloc vnode_id flags t = fd_place vnode_id flags 0 t"

definition fd_alloc_at :: "nat \<Rightarrow> nat \<Rightarrow> open_flags \<Rightarrow> fd_table \<Rightarrow> nat vfs_result \<times> fd_table" where
  "fd_alloc_at fd vnode_id flags t =
     (if fd \<ge> MAX_OPEN_FILES then (Inl BadFd, t)
      else if of_active (t ! fd) then (Inl Busy, t)
      else (Inr fd, t[fd := \<lparr>of_vnode_id = vnode_id, of_flags = flags, of_offset = 0, of_active = True\<rparr>]))"

definition fd_get :: "nat \<Rightarrow> fd_table \<Rightarrow> open_file vfs_result" where
  "fd_get fd t = (if fd < MAX_OPEN_FILES \<and> of_active (t ! fd) then Inr (t ! fd) else Inl BadFd)"

definition fd_modify :: "nat \<Rightarrow> (open_file \<Rightarrow> open_file) \<Rightarrow> fd_table \<Rightarrow> unit vfs_result \<times> fd_table" where
  "fd_modify fd f t =
     (if fd < MAX_OPEN_FILES \<and> of_active (t ! fd) then (Inr (), t[fd := f (t ! fd)]) else (Inl BadFd, t))"

definition fd_dup :: "nat \<Rightarrow> fd_table \<Rightarrow> nat vfs_result \<times> fd_table" where
  "fd_dup old_fd t =
     (case fd_get old_fd t of
        Inl e \<Rightarrow> (Inl e, t)
      | Inr file \<Rightarrow> fd_place (of_vnode_id file) (of_flags file) (of_offset file) t)"

definition any_writer_on :: "nat \<Rightarrow> fd_table \<Rightarrow> bool" where
  "any_writer_on vnode_id t = list_ex (\<lambda>f. of_active f \<and> of_vnode_id f = vnode_id \<and> flags_has (of_flags f) O_WRITE) t"

definition fd_close :: "nat \<Rightarrow> fd_table \<Rightarrow> nat vfs_result \<times> fd_table" where
  "fd_close fd t =
     (if fd < MAX_OPEN_FILES \<and> of_active (t ! fd) then (Inr (of_vnode_id (t ! fd)), t[fd := of_empty])
      else (Inl BadFd, t))"

definition open_count :: "fd_table \<Rightarrow> nat" where
  "open_count t = length (filter of_active t)"

definition close_all :: "fd_table \<Rightarrow> nat \<times> fd_table" where
  "close_all t = (length (filter of_active t), update_all of_active (\<lambda>_. of_empty) t)"

section \<open>Invariant\<close>

text \<open>The table keeps its length, and an inactive entry is the empty one.\<close>

definition fd_inv :: "fd_table \<Rightarrow> bool" where
  "fd_inv t = (length t = MAX_OPEN_FILES \<and> (\<forall>f\<in>set t. \<not> of_active f \<longrightarrow> f = of_empty))"

definition open_fds :: "fd_table \<Rightarrow> nat set" where
  "open_fds t = {fd. fd < length t \<and> of_active (t ! fd)}"

lemma of_empty_inactive [simp]: "\<not> of_active of_empty"
  by (simp add: of_empty_def)

lemma fd_inv_new: "fd_inv fd_new"
  by (simp add: fd_inv_def fd_new_def)

lemma fd_invD: "fd_inv t \<Longrightarrow> length t = MAX_OPEN_FILES"
  "fd_inv t \<Longrightarrow> fd < MAX_OPEN_FILES \<Longrightarrow> \<not> of_active (t ! fd) \<Longrightarrow> t ! fd = of_empty"
  by (auto simp: fd_inv_def)

lemma fd_inv_update: "fd_inv t \<Longrightarrow> of_active f \<or> f = of_empty \<Longrightarrow> fd_inv (t[i := f])"
  by (auto simp: fd_inv_def dest!: set_update_subset_insert [THEN subsetD])

lemma fd_place_Inr:
  assumes "fd_inv t" and "fd_place v fl off t = (Inr fd, t')"
  shows "RESERVED_STDIO_FDS \<le> fd" "fd < MAX_OPEN_FILES" "\<not> of_active (t ! fd)"
    "t' = t[fd := \<lparr>of_vnode_id = v, of_flags = fl, of_offset = off, of_active = True\<rparr>]" "fd_inv t'"
  using assms by (auto simp: fd_place_def find_from_Some fd_inv_update split: option.splits)

lemma fd_place_Inl:
  assumes "fd_place v fl off t = (Inl e, t')"
  shows "t' = t" "e = TooManyOpenFiles" "RESERVED_STDIO_FDS \<le> fd \<Longrightarrow> fd < MAX_OPEN_FILES \<Longrightarrow> of_active (t ! fd)"
  using assms by (auto simp: fd_place_def find_from_None split: option.splits)

lemma fd_inv_close: "fd_inv t \<Longrightarrow> fd_inv (snd (fd_close fd t))"
  by (simp add: fd_close_def fd_inv_update)

lemma fd_inv_modify: "fd_inv t \<Longrightarrow> (\<And>f. of_active f \<Longrightarrow> of_active (g f)) \<Longrightarrow> fd_inv (snd (fd_modify fd g t))"
  by (simp add: fd_modify_def fd_inv_update)

lemma fd_inv_alloc_at: "fd_inv t \<Longrightarrow> fd_inv (snd (fd_alloc_at fd v fl t))"
  by (simp add: fd_alloc_at_def fd_inv_update)

lemma close_all_new: "fd_inv t \<Longrightarrow> snd (close_all t) = fd_new"
  by (rule nth_equalityI) (auto simp: close_all_def fd_inv_def fd_new_def nth_update_all)

text \<open>The table as an allocator of descriptors, for a client that opens one node.\<close>

definition fd_try_alloc :: "nat \<Rightarrow> open_flags \<Rightarrow> fd_table \<Rightarrow> nat option \<times> fd_table" where
  "fd_try_alloc v fl t = (case fd_alloc v fl t of (Inl _, t') \<Rightarrow> (None, t') | (Inr i, t') \<Rightarrow> (Some i, t'))"

interpretation fds: allocator fd_inv open_fds "\<lambda>_. {RESERVED_STDIO_FDS..<MAX_OPEN_FILES}"
  "fd_try_alloc v fl" "\<lambda>fd t. snd (fd_close fd t)" for v fl
proof unfold_locales
  fix t t' and fd :: nat
  assume inv: "fd_inv t" and "fd_try_alloc v fl t = (Some fd, t')"
  then have p: "fd_place v fl 0 t = (Inr fd, t')"
    by (auto simp: fd_try_alloc_def fd_alloc_def split: prod.splits sum.splits)
  note r = fd_place_Inr [OF inv p]
  have "open_fds t' = insert fd (open_fds t)"
    using r(2) fd_invD(1) [OF inv] by (auto simp: open_fds_def r(4) nth_list_update split: if_splits)
  with r show "fd \<in> {RESERVED_STDIO_FDS..<MAX_OPEN_FILES} \<and> fd \<notin> open_fds t \<and> open_fds t' = insert fd (open_fds t)
      \<and> {RESERVED_STDIO_FDS..<MAX_OPEN_FILES} = {RESERVED_STDIO_FDS..<MAX_OPEN_FILES} \<and> fd_inv t'"
    by (simp add: open_fds_def)
next
  fix t t'
  assume inv: "fd_inv t" and "fd_try_alloc v fl t = (None, t')"
  then obtain e where p: "fd_place v fl 0 t = (Inl e, t')"
    by (auto simp: fd_try_alloc_def fd_alloc_def split: prod.splits sum.splits)
  from fd_place_Inl [OF p] fd_invD(1) [OF inv]
  show "t' = t \<and> {RESERVED_STDIO_FDS..<MAX_OPEN_FILES} \<subseteq> open_fds t" by (auto simp: open_fds_def)
next
  fix t and fd :: nat
  assume inv: "fd_inv t" and fd: "fd \<in> open_fds t"
  then show "open_fds (snd (fd_close fd t)) = open_fds t - {fd}
      \<and> {RESERVED_STDIO_FDS..<MAX_OPEN_FILES} = {RESERVED_STDIO_FDS..<MAX_OPEN_FILES} \<and> fd_inv (snd (fd_close fd t))"
    using fd_inv_close [OF inv, of fd] fd_invD(1) [OF inv]
    by (auto simp: fd_close_def open_fds_def nth_list_update split: if_splits)
qed

section \<open>Properties\<close>

text \<open>C22: Descriptors are exclusive. A process that opens and closes files in any order on a
  consistent table holds pairwise different descriptors; none of them is a standard stream,
  none was open before, and the table's open descriptors are the ones open before together
  with the ones it holds.\<close>

theorem fds_exclusive:
  assumes "fd_inv t" and "serve (fd_try_alloc v fl) (\<lambda>fd t. snd (fd_close fd t)) rs ([], t) = (held, t')"
  shows "distinct held \<and> set held \<subseteq> {RESERVED_STDIO_FDS..<MAX_OPEN_FILES} \<and> set held \<inter> open_fds t = {}
    \<and> open_fds t' = open_fds t \<union> set held"
  using fds.serve_exclusive [OF assms] by blast

theorem fds_exclusive_witness:
  "set (fst (serve (fd_try_alloc 7 O_READ) (\<lambda>fd t. snd (fd_close fd t)) [Acquire, Release 0] ([], fd_new)))
    \<subseteq> {RESERVED_STDIO_FDS..<MAX_OPEN_FILES}"
proof -
  obtain held t' where "serve (fd_try_alloc 7 O_READ) (\<lambda>fd t. snd (fd_close fd t)) [Acquire, Release 0] ([], fd_new) = (held, t')"
    by fastforce
  with fds_exclusive [OF fd_inv_new this] show ?thesis by simp
qed

text \<open>C33: Duplicating a descriptor. When \<open>dup\<close> succeeds, the new descriptor is another one
  outside the reserved range, it names the same node with the same flags and offset, no other
  descriptor of the table changes, and closing it restores the table exactly as it was before
  the duplication.\<close>

theorem dup_close_roundtrip:
  assumes "fd_inv t" and "fd_dup old_fd t = (Inr fd, t')"
  shows "RESERVED_STDIO_FDS \<le> fd \<and> fd \<noteq> old_fd \<and> fd_get fd t' = fd_get old_fd t \<and> fd_get old_fd t \<noteq> Inl BadFd
    \<and> (\<forall>other. other \<noteq> fd \<longrightarrow> fd_get other t' = fd_get other t)
    \<and> fd_close fd t' = (Inr (of_vnode_id (t ! old_fd)), t)"
proof -
  have old: "old_fd < MAX_OPEN_FILES" "of_active (t ! old_fd)"
    and p: "fd_place (of_vnode_id (t ! old_fd)) (of_flags (t ! old_fd)) (of_offset (t ! old_fd)) t = (Inr fd, t')"
    using assms(2) by (auto simp: fd_dup_def fd_get_def split: if_splits)
  note r = fd_place_Inr [OF assms(1) p]
  have t': "t' = t[fd := t ! old_fd]" using old(2) unfolding r(4) by (cases "t ! old_fd") simp
  have len: "length t = MAX_OPEN_FILES" by (rule fd_invD(1) [OF assms(1)])
  have "t[fd := of_empty] = t" using fd_invD(2) [OF assms(1) r(2,3)] by (metis list_update_id)
  with old r(1-3) len show ?thesis by (auto simp: t' fd_get_def fd_close_def)
qed

theorem dup_close_roundtrip_witness:
  "fd_close 4 (snd (fd_dup 3 (snd (fd_alloc 9 O_RDWR fd_new)))) = (Inr 9, snd (fd_alloc 9 O_RDWR fd_new))"
proof -
  define t where "t = snd (fd_alloc 9 O_RDWR fd_new)"
  have t: "t = fd_new[3 := \<lparr>of_vnode_id = 9, of_flags = O_RDWR, of_offset = 0, of_active = True\<rparr>]"
    unfolding t_def fd_alloc_def fd_place_def
    by (simp add: find_from_rec [of _ 3] RESERVED_STDIO_FDS_def MAX_OPEN_FILES_def fd_new_def)
  have inv: "fd_inv t" unfolding t by (rule fd_inv_update) (simp_all add: fd_inv_new)
  have d: "fd_dup 3 t = (Inr 4, snd (fd_dup 3 t))"
    by (simp add: t fd_dup_def fd_get_def fd_place_def find_from_rec [of _ 3] find_from_rec [of _ 4]
      RESERVED_STDIO_FDS_def MAX_OPEN_FILES_def fd_new_def)
  have "of_vnode_id (t ! 3) = 9" by (simp add: t fd_new_def MAX_OPEN_FILES_def)
  with dup_close_roundtrip [OF inv d] show ?thesis by (simp add: t_def [symmetric])
qed

end
