(* ===== verification/VfsOp.thy ===== *)
theory VfsOp
  imports VfsTypes
begin

text \<open>
  The shape of an operation of the virtual file system: a Rust method on \<open>&mut self\<close> that
  returns a \<open>VfsResult\<close>. It is a function from the state before to the result and the state
  after; \<open>None\<close> is a panic (an array index out of range) or a loop that does not end. An
  error returned with \<open>?\<close> keeps the changes made so far. \<open>wp\<close> is the weakest precondition of
  an operation, with one postcondition for normal returns and one for errors; it demands that
  the operation returns.
\<close>

named_theorems wp_simps \<open>weakest preconditions of the combinators\<close>

type_synonym ('s, 'a) vop = "'s \<Rightarrow> ('a vfs_result \<times> 's) option"

definition vret :: "'a \<Rightarrow> ('s, 'a) vop" where
  "vret x = (\<lambda>s. Some (Inr x, s))"

definition vfail :: "VfsError \<Rightarrow> ('s, 'a) vop" where
  "vfail e = (\<lambda>s. Some (Inl e, s))"

definition vpanic :: "('s, 'a) vop" where
  "vpanic = (\<lambda>s. None)"

definition vbind :: "('s, 'a) vop \<Rightarrow> ('a \<Rightarrow> ('s, 'b) vop) \<Rightarrow> ('s, 'b) vop" where
  "vbind m k = (\<lambda>s. case m s of None \<Rightarrow> None | Some (Inl e, s') \<Rightarrow> Some (Inl e, s') | Some (Inr x, s') \<Rightarrow> k x s')"

definition vseq :: "('s, unit) vop \<Rightarrow> ('s, 'b) vop \<Rightarrow> ('s, 'b) vop" where
  "vseq m k = vbind m (\<lambda>_. k)"

definition vget :: "('s \<Rightarrow> 'a) \<Rightarrow> ('s, 'a) vop" where
  "vget f = (\<lambda>s. Some (Inr (f s), s))"

definition vmod :: "('s \<Rightarrow> 's) \<Rightarrow> ('s, unit) vop" where
  "vmod f = (\<lambda>s. Some (Inr (), f s))"

text \<open>\<open>if !b { return Err(e) }\<close>\<close>

definition vcheck :: "bool \<Rightarrow> VfsError \<Rightarrow> ('s, unit) vop" where
  "vcheck b e = (if b then vret () else vfail e)"

text \<open>An operation whose result is inspected by a \<open>match\<close> instead of being passed on.\<close>

definition vtry :: "('s, 'a) vop \<Rightarrow> ('s, 'a vfs_result) vop" where
  "vtry m = (\<lambda>s. case m s of None \<Rightarrow> None | Some (r, s') \<Rightarrow> Some (Inr r, s'))"

text \<open>A call into a component of the state, which always returns.\<close>

definition vcall :: "('s \<Rightarrow> 'a vfs_result \<times> 's) \<Rightarrow> ('s, 'a) vop" where
  "vcall f = (\<lambda>s. Some (f s))"

section \<open>Weakest preconditions\<close>

definition wp :: "('s, 'a) vop \<Rightarrow> ('a \<Rightarrow> 's \<Rightarrow> bool) \<Rightarrow> (VfsError \<Rightarrow> 's \<Rightarrow> bool) \<Rightarrow> 's \<Rightarrow> bool" where
  "wp m Q E s = (case m s of None \<Rightarrow> False | Some (Inr x, s') \<Rightarrow> Q x s' | Some (Inl e, s') \<Rightarrow> E e s')"

text \<open>The rules are equations of predicates, so that they rewrite below the binders of a longer
  operation too.\<close>

lemma wp_vret [wp_simps]: "wp (vret x) Q E = Q x"
  by (simp add: fun_eq_iff wp_def vret_def)

lemma wp_vfail [wp_simps]: "wp (vfail e) Q E = E e"
  by (simp add: fun_eq_iff wp_def vfail_def)

lemma wp_vpanic [wp_simps]: "wp vpanic Q E = (\<lambda>_. False)"
  by (simp add: fun_eq_iff wp_def vpanic_def)

lemma wp_vbind [wp_simps]: "wp (vbind m k) Q E = wp m (\<lambda>x. wp (k x) Q E) E"
  by (simp add: fun_eq_iff wp_def vbind_def split: option.split prod.split sum.split)

lemma wp_vseq [wp_simps]: "wp (vseq m k) Q E = wp m (\<lambda>_. wp k Q E) E"
  by (simp add: vseq_def wp_vbind)

lemma wp_vget [wp_simps]: "wp (vget f) Q E = (\<lambda>s. Q (f s) s)"
  by (simp add: fun_eq_iff wp_def vget_def)

lemma wp_vmod [wp_simps]: "wp (vmod f) Q E = (\<lambda>s. Q () (f s))"
  by (simp add: fun_eq_iff wp_def vmod_def)

lemma wp_vcheck [wp_simps]: "wp (vcheck b e) Q E = (if b then Q () else E e)"
  by (simp add: vcheck_def wp_vret wp_vfail)

lemma wp_vtry [wp_simps]: "wp (vtry m) Q E = wp m (\<lambda>x. Q (Inr x)) (\<lambda>e. Q (Inl e))"
  by (simp add: fun_eq_iff wp_def vtry_def split: option.split prod.split sum.split)

lemma wp_vcall [wp_simps]:
  "wp (vcall f) Q E = (\<lambda>s. case f s of (Inr x, s') \<Rightarrow> Q x s' | (Inl e, s') \<Rightarrow> E e s')"
  by (simp add: fun_eq_iff wp_def vcall_def)

lemma wp_if [wp_simps]: "wp (if b then m else m') Q E = (if b then wp m Q E else wp m' Q E)"
  by simp

lemma wp_mono:
  "wp m Q E s \<Longrightarrow> (\<And>x s'. Q x s' \<Longrightarrow> Q' x s') \<Longrightarrow> (\<And>e s'. E e s' \<Longrightarrow> E' e s') \<Longrightarrow> wp m Q' E' s"
  by (auto simp: wp_def split: option.splits sum.splits)

lemma wp_conj: "wp m Q E s \<Longrightarrow> wp m Q' E' s \<Longrightarrow> wp m (\<lambda>x s. Q x s \<and> Q' x s) (\<lambda>e s. E e s \<and> E' e s) s"
  by (auto simp: wp_def split: option.splits sum.splits)

lemma wpD: "wp m Q E s \<Longrightarrow> m s = Some (Inr x, s') \<Longrightarrow> Q x s'"
  "wp m Q E s \<Longrightarrow> m s = Some (Inl e, s') \<Longrightarrow> E e s'"
  by (simp_all add: wp_def)

lemma wp_returns: "wp m Q E s \<Longrightarrow> \<exists>r s'. m s = Some (r, s')"
  by (auto simp: wp_def split: option.splits)

text \<open>An invariant kept by normal and by error returns.\<close>

definition keeps :: "('s \<Rightarrow> bool) \<Rightarrow> ('s, 'a) vop \<Rightarrow> bool" where
  "keeps I m = (\<forall>s. I s \<longrightarrow> wp m (\<lambda>_. I) (\<lambda>_. I) s)"

named_theorems keeps_intro \<open>operations that keep an invariant\<close>

lemma keeps_wp: "keeps I m \<Longrightarrow> I s \<Longrightarrow> wp m (\<lambda>_. I) (\<lambda>_. I) s"
  by (simp add: keeps_def)

lemma keeps_vret [keeps_intro]: "keeps I (vret x)"
  by (simp add: keeps_def wp_simps)

lemma keeps_vfail [keeps_intro]: "keeps I (vfail e)"
  by (simp add: keeps_def wp_simps)

lemma keeps_vget [keeps_intro]: "keeps I (vget f)"
  by (simp add: keeps_def wp_simps)

lemma keeps_vcheck [keeps_intro]: "keeps I (vcheck b e)"
  by (simp add: keeps_def wp_simps)

lemma keeps_vmod: "(\<And>s. I s \<Longrightarrow> I (f s)) \<Longrightarrow> keeps I (vmod f)"
  by (simp add: keeps_def wp_simps)

lemma keeps_vbind [keeps_intro]:
  assumes "keeps I m" and "\<And>x. keeps I (k x)"
  shows "keeps I (vbind m k)"
  unfolding keeps_def wp_vbind
proof (intro allI impI)
  fix s
  assume "I s"
  from keeps_wp [OF assms(1) this] show "wp m (\<lambda>x. wp (k x) (\<lambda>_. I) (\<lambda>_. I)) (\<lambda>_. I) s"
    by (rule wp_mono) (simp_all add: keeps_wp [OF assms(2)])
qed

lemma keeps_vseq [keeps_intro]: "keeps I m \<Longrightarrow> keeps I k \<Longrightarrow> keeps I (vseq m k)"
  by (simp add: vseq_def keeps_vbind)

lemma keeps_vtry [keeps_intro]: "keeps I m \<Longrightarrow> keeps I (vtry m)"
  by (simp add: keeps_def wp_simps)

lemma keeps_if [keeps_intro]: "keeps I m \<Longrightarrow> keeps I m' \<Longrightarrow> keeps I (if b then m else m')"
  by simp

end
