(* ===== verification/VfsState.thy ===== *)
theory VfsState
  imports Vnode Mount Fd VfsOp BTree
begin

text \<open>
  The state of the virtual file system, \<open>MikuVFS\<close> of \<open>kernel/fs/vfs/core/mod.rs\<close>, with node
  allocation and name checks (\<open>core/vnode_mgmt.rs\<close>), access checks (\<open>core/access.rs\<close>) and the
  per-process descriptor tables. What lies below it, the ext driver reached through
  \<open>with_ext2_pub\<close>, devices and procfs, is the field \<open>v_world\<close> of an arbitrary type and the
  functions of the environment \<open>env\<close>; the clock and the calling process are there too. The
  theorems hold for every environment. Every operation runs under the file system's lock, so
  it is one step.
\<close>

definition MAX_VNODES :: nat where
  "MAX_VNODES = 256"

abbreviation MAX_SYMLINK_DEPTH :: nat where "MAX_SYMLINK_DEPTH \<equiv> 8"

abbreviation MAX_PATH_DEPTH :: nat where "MAX_PATH_DEPTH \<equiv> 32"

abbreviation O_APPEND :: u32 where "O_APPEND \<equiv> 0x0004"
abbreviation O_CREATE :: u32 where "O_CREATE \<equiv> 0x0008"
abbreviation O_EXCLUSIVE :: u32 where "O_EXCLUSIVE \<equiv> 0x0010"
abbreviation O_TRUNCATE :: u32 where "O_TRUNCATE \<equiv> 0x0020"
abbreviation O_DIRECTORY :: u32 where "O_DIRECTORY \<equiv> 0x0040"
abbreviation O_NOFOLLOW :: u32 where "O_NOFOLLOW \<equiv> 0x0080"
abbreviation O_SYNC :: u32 where "O_SYNC \<equiv> 0x0200"
abbreviation O_CLOEXEC :: u32 where "O_CLOEXEC \<equiv> 0x0800"

section \<open>The environment\<close>

text \<open>\<open>Option<Result<T, _>>\<close>, what a closure run by \<open>with_ext2_pub\<close> gives: no mounted file
  system, an error, or a value.\<close>

datatype 'a ext_result = ExtNone | ExtErr VfsError | ExtOk 'a

record ext_child =
  xc_ino :: u32
  xc_kind :: VNodeKind
  xc_perm :: u16
  xc_size :: u64
  xc_uid :: u16
  xc_gid :: u16
  xc_nlinks :: u16
  xc_symlink :: "u8 list"

record ext_info =
  xi_block_size :: u32
  xi_total_blocks :: u64
  xi_free_blocks :: u64
  xi_total_inodes :: u64
  xi_free_inodes :: u64

record 'w env =
  e_now :: u64
  e_pid :: nat
  e_ext_ready :: "'w \<Rightarrow> bool"
  e_ext_fs_type :: "'w \<Rightarrow> FsType"
  e_ext_lookup :: "u32 \<Rightarrow> u8 list \<Rightarrow> 'w \<Rightarrow> ext_child ext_result \<times> 'w"
  e_ext_exists :: "u32 \<Rightarrow> u8 list \<Rightarrow> 'w \<Rightarrow> bool option \<times> 'w"
  e_ext_read_dir :: "u32 \<Rightarrow> 'w \<Rightarrow> (u8 list \<times> ext_child) list ext_result \<times> 'w"
  e_ext_create_file :: "u32 \<Rightarrow> u8 list \<Rightarrow> u16 \<Rightarrow> 'w \<Rightarrow> u32 ext_result \<times> 'w"
  e_ext_create_dir :: "u32 \<Rightarrow> u8 list \<Rightarrow> u16 \<Rightarrow> 'w \<Rightarrow> u32 ext_result \<times> 'w"
  e_ext_create_symlink :: "u32 \<Rightarrow> u8 list \<Rightarrow> u8 list \<Rightarrow> 'w \<Rightarrow> u32 ext_result \<times> 'w"
  e_ext_delete_file :: "u32 \<Rightarrow> u8 list \<Rightarrow> 'w \<Rightarrow> unit ext_result \<times> 'w"
  e_ext_delete_dir :: "u32 \<Rightarrow> u8 list \<Rightarrow> 'w \<Rightarrow> unit ext_result \<times> 'w"
  e_ext_rename :: "u32 \<Rightarrow> u8 list \<Rightarrow> u8 list \<Rightarrow> 'w \<Rightarrow> unit ext_result \<times> 'w"
  e_ext_hardlink :: "u32 \<Rightarrow> u8 list \<Rightarrow> u32 \<Rightarrow> 'w \<Rightarrow> unit ext_result \<times> 'w"
  e_ext_truncate :: "u32 \<Rightarrow> 'w \<Rightarrow> unit ext_result \<times> 'w"
  e_ext_chmod :: "u32 \<Rightarrow> u16 \<Rightarrow> 'w \<Rightarrow> unit ext_result \<times> 'w"
  e_ext_chown :: "u32 \<Rightarrow> u16 \<Rightarrow> u16 \<Rightarrow> 'w \<Rightarrow> unit ext_result \<times> 'w"
  e_ext_inode :: "u32 \<Rightarrow> 'w \<Rightarrow> (u64 \<times> nat) ext_result \<times> 'w"
  e_ext_read :: "u32 \<Rightarrow> u64 \<Rightarrow> nat \<Rightarrow> 'w \<Rightarrow> (u8 list \<times> u64) ext_result \<times> 'w"
  e_ext_read_at :: "u32 \<Rightarrow> u64 \<Rightarrow> nat \<Rightarrow> 'w \<Rightarrow> (u8 list \<times> u64) ext_result \<times> 'w"
  e_ext_read_all :: "u32 \<Rightarrow> 'w \<Rightarrow> u8 list ext_result \<times> 'w"
  e_can_reserve :: "nat \<Rightarrow> bool"
  e_ext2_write_file :: "u32 \<Rightarrow> u8 list \<Rightarrow> u64 \<Rightarrow> 'w \<Rightarrow> nat ext_result \<times> 'w"
  e_ext3_write_file :: "u32 \<Rightarrow> u8 list \<Rightarrow> u64 \<Rightarrow> 'w \<Rightarrow> nat ext_result \<times> 'w"
  e_ext_info :: "'w \<Rightarrow> ext_info option"
  e_ext_sync :: "'w \<Rightarrow> unit ext_result \<times> 'w"
  e_dev_read :: "dev_type \<Rightarrow> nat \<Rightarrow> u64 \<Rightarrow> 'w \<Rightarrow> u8 list vfs_result \<times> 'w"
  e_dev_write :: "dev_type \<Rightarrow> u8 list \<Rightarrow> u64 \<Rightarrow> 'w \<Rightarrow> nat vfs_result \<times> 'w"
  e_dev_flush :: "u8 \<Rightarrow> 'w \<Rightarrow> unit vfs_result \<times> 'w"
  e_proc_read :: "u8 list \<Rightarrow> nat \<Rightarrow> 'w \<Rightarrow> u8 list vfs_result \<times> 'w"

section \<open>The state\<close>

record 'w vfs =
  v_nodes :: "vnode list"
  v_page_cache :: page_cache
  v_mounts :: mount_table
  v_fd_tables :: "(nat \<times> fd_table) list"
  v_ctx :: process_context
  v_ext2_mount_active :: bool
  v_vnode_free_hint :: nat
  v_world :: 'w

text \<open>\<open>self.nodes[i]\<close>, read and written; an index out of range panics.\<close>

definition node_at :: "nat \<Rightarrow> ('w vfs, vnode) vop" where
  "node_at i = (\<lambda>s. if i < MAX_VNODES then Some (Inr (v_nodes s ! i), s) else None)"

definition upd_node :: "nat \<Rightarrow> (vnode \<Rightarrow> vnode) \<Rightarrow> ('w vfs, unit) vop" where
  "upd_node i f =
     (\<lambda>s. if i < MAX_VNODES then Some (Inr (), s\<lparr>v_nodes := (v_nodes s)[i := f (v_nodes s ! i)]\<rparr>) else None)"

definition on_world :: "('w \<Rightarrow> 'a \<times> 'w) \<Rightarrow> ('w vfs, 'a) vop" where
  "on_world f = (\<lambda>s. case f (v_world s) of (x, w) \<Rightarrow> Some (Inr x, s\<lparr>v_world := w\<rparr>))"

text \<open>\<open>match result { Some(Ok(v)) => v, Some(Err(_)) | None => return Err(e) }\<close>\<close>

definition ext_expect :: "VfsError \<Rightarrow> 'a ext_result \<Rightarrow> ('w vfs, 'a) vop" where
  "ext_expect e r = (case r of ExtOk x \<Rightarrow> vret x | _ \<Rightarrow> vfail e)"

section \<open>Node management\<close>

definition alloc_vnode :: "('w vfs, nat) vop" where
  "alloc_vnode =
     vbind (vget (\<lambda>s. let free = (\<lambda>i. \<not> vn_active (v_nodes s ! i)); hint = v_vnode_free_hint s
                      in case find_from free hint MAX_VNODES of Some i \<Rightarrow> Some i | None \<Rightarrow> find_from free 1 hint))
       (\<lambda>r. case r of
          Some i \<Rightarrow> vseq (vmod (v_vnode_free_hint_update (\<lambda>_. i + 1))) (vret i)
        | None \<Rightarrow> vfail NoSpace)"

definition valid_vnode :: "nat \<Rightarrow> 'w vfs \<Rightarrow> bool" where
  "valid_vnode i s = (i < MAX_VNODES \<and> vn_active (v_nodes s ! i))"

definition is_readonly_fs :: "vnode \<Rightarrow> bool" where
  "is_readonly_fs n = (vn_fs_type n = DevFS \<or> vn_fs_type n = ProcFS)"

definition get_dev_type :: "vnode \<Rightarrow> dev_type option" where
  "get_dev_type n = (if is_device n then dev_type_from_node (vn_dev_major n) (vn_dev_minor n) else None)"

definition validate_name :: "u8 list \<Rightarrow> ('w vfs, unit) vop" where
  "validate_name name =
     vseq (vcheck (\<not> (name = [] \<or> length name > NAME_LEN)) NameTooLong)
    (vseq (vcheck (\<not> (0x2F \<in> set name \<or> 0 \<in> set name)) InvalidArgument)
          (vcheck (\<not> (name = [0x2E] \<or> name = [0x2E, 0x2E])) InvalidArgument))"

text \<open>The child of that name, if the table has one and its node is in use.\<close>

definition live_child :: "vnode \<Rightarrow> u8 list \<Rightarrow> 'w vfs \<Rightarrow> nat option" where
  "live_child p name s =
     (case find_by_name name (vn_children p) of
        Some c \<Rightarrow> if valid_vnode c s then Some c else None
      | None \<Rightarrow> None)"

definition ensure_no_duplicate :: "'w env \<Rightarrow> nat \<Rightarrow> u8 list \<Rightarrow> ('w vfs, unit) vop" where
  "ensure_no_duplicate env parent name =
     vbind (node_at parent) (\<lambda>p.
     vbind (vget (live_child p name)) (\<lambda>c.
     vseq (vcheck (c = None) AlreadyExists)
       (if is_ext_backed p
        then vbind (on_world (e_ext_exists env (vn_ext2_ino p) name)) (\<lambda>exists.
               vcheck (exists \<noteq> Some True) AlreadyExists)
        else vret ())))"

definition is_dir_empty :: "vnode \<Rightarrow> bool" where
  "is_dir_empty n = ch_is_empty (vn_children n)"

section \<open>Access checks\<close>

definition access_ok :: "credentials \<Rightarrow> vnode \<Rightarrow> open_flags \<Rightarrow> bool" where
  "access_ok cred node flags =
     (if is_root cred then True
      else
        let who = (if cr_euid cred = vn_uid node then Owner else if in_group cred (vn_gid node) then Group else Other);
            bits = perm_bits_for (vn_mode node) who
        in if readable flags \<and> bits AND 4 = 0 then False
           else if writable flags \<and> bits AND 2 = 0 then False
           else True)"

definition check_access :: "nat \<Rightarrow> open_flags \<Rightarrow> ('w vfs, unit) vop" where
  "check_access i flags =
     vbind (node_at i) (\<lambda>node.
     vbind (vget (\<lambda>s. pc_cred (v_ctx s))) (\<lambda>cred.
     vcheck (access_ok cred node flags) PermissionDenied))"

definition check_dir_write :: "nat \<Rightarrow> ('w vfs, unit) vop" where
  "check_dir_write dir_id = check_access dir_id O_WRITE"

section \<open>Descriptor tables\<close>

definition fds_for :: "nat \<Rightarrow> ('w vfs, fd_table) vop" where
  "fds_for pid =
     (\<lambda>s. case map_of (v_fd_tables s) pid of
        Some t \<Rightarrow> Some (Inr t, s)
      | None \<Rightarrow> Some (Inr fd_new, s\<lparr>v_fd_tables := bt_insert pid fd_new (v_fd_tables s)\<rparr>))"

definition fds :: "'w env \<Rightarrow> ('w vfs, fd_table) vop" where
  "fds env = fds_for (e_pid env)"

text \<open>A method of the descriptor table, called through \<open>self.fds()\<close>.\<close>

definition on_fds :: "'w env \<Rightarrow> (fd_table \<Rightarrow> 'a vfs_result \<times> fd_table) \<Rightarrow> ('w vfs, 'a) vop" where
  "on_fds env f =
     vbind (fds env) (\<lambda>t. \<lambda>s. case f t of (r, t') \<Rightarrow> Some (r, s\<lparr>v_fd_tables := bt_insert (e_pid env) t' (v_fd_tables s)\<rparr>))"

definition fork_fds :: "nat \<Rightarrow> nat \<Rightarrow> 'w vfs \<Rightarrow> 'w vfs" where
  "fork_fds parent_pid child_pid s =
     (let parent = (case map_of (v_fd_tables s) parent_pid of Some t \<Rightarrow> t | None \<Rightarrow> fd_new);
          bumps = map of_vnode_id (filter of_active parent);
          s1 = fold (\<lambda>vid s. if valid_vnode vid s then s\<lparr>v_nodes := (v_nodes s)[vid := inc_ref (v_nodes s ! vid)]\<rparr> else s)
                 bumps s
      in s1\<lparr>v_fd_tables := bt_insert child_pid parent (v_fd_tables s1)\<rparr>)"

definition drop_fds :: "nat \<Rightarrow> 'w vfs \<Rightarrow> nat list \<times> 'w vfs" where
  "drop_fds pid s =
     (case map_of (v_fd_tables s) pid of
        Some t \<Rightarrow> (map of_vnode_id (filter of_active t), s\<lparr>v_fd_tables := bt_remove pid (v_fd_tables s)\<rparr>)
      | None \<Rightarrow> ([], s))"

definition close_cloexec_fds :: "'w env \<Rightarrow> 'w vfs \<Rightarrow> nat list \<times> 'w vfs" where
  "close_cloexec_fds env s =
     (case map_of (v_fd_tables s) (e_pid env) of
        Some t \<Rightarrow>
          (let cloexec = (\<lambda>f. of_active f \<and> flags_has (of_flags f) O_CLOEXEC)
           in (map of_vnode_id (filter cloexec t),
               s\<lparr>v_fd_tables := bt_insert (e_pid env) (update_all cloexec (\<lambda>_. of_empty) t) (v_fd_tables s)\<rparr>))
      | None \<Rightarrow> ([], s))"

definition release_fds_on_exit :: "nat \<Rightarrow> 'w vfs \<Rightarrow> 'w vfs" where
  "release_fds_on_exit pid s =
     (case drop_fds pid s of (victims, s1) \<Rightarrow>
        fold (\<lambda>vid s. if valid_vnode vid s then s\<lparr>v_nodes := (v_nodes s)[vid := dec_ref (v_nodes s ! vid)]\<rparr> else s)
          victims s1)"

definition pipe_writer_pids :: "nat \<Rightarrow> 'w vfs \<Rightarrow> nat list" where
  "pipe_writer_pids vnode_id s = map fst (filter (\<lambda>(pid, t). any_writer_on vnode_id t) (v_fd_tables s))"

definition is_vnode_open :: "nat \<Rightarrow> 'w vfs \<Rightarrow> bool" where
  "is_vnode_open vid s = list_ex (\<lambda>(pid, t). list_ex (\<lambda>f. of_active f \<and> of_vnode_id f = vid) t) (v_fd_tables s)"

definition total_vnodes :: "'w vfs \<Rightarrow> nat" where
  "total_vnodes s = length (filter vn_active (v_nodes s))"

section \<open>Weakest preconditions of the primitives\<close>

lemma wp_node_at [wp_simps]: "wp (node_at i) Q E = (\<lambda>s. i < MAX_VNODES \<and> Q (v_nodes s ! i) s)"
  by (simp add: fun_eq_iff wp_def node_at_def)

lemma wp_upd_node [wp_simps]:
  "wp (upd_node i f) Q E = (\<lambda>s. i < MAX_VNODES \<and> Q () (s\<lparr>v_nodes := (v_nodes s)[i := f (v_nodes s ! i)]\<rparr>))"
  by (simp add: fun_eq_iff wp_def upd_node_def)

lemma wp_on_world: "(\<And>x w. Q x (s\<lparr>v_world := w\<rparr>)) \<Longrightarrow> wp (on_world f) Q E s"
  by (simp add: wp_def on_world_def split: prod.split)

end
