(* ===== verification/PathRes.thy ===== *)
theory PathRes
  imports VfsState
begin

text \<open>
  Path resolution, \<open>kernel/fs/vfs/core/path_resolve.rs\<close>, with the lazy lookup of
  \<open>core/ext2_bridge.rs\<close>. A path is the list of its bytes. The recursion of
  \<open>follow_symlink\<close> is on the number of links it may still follow,
  \<open>MAX_SYMLINK_DEPTH - depth\<close>, so every resolution ends.
\<close>

section \<open>Strings\<close>

definition slash :: u8 where "slash = 0x2F"

text \<open>\<open>str::split('/')\<close>\<close>

fun split_slash :: "u8 list \<Rightarrow> u8 list list" where
  "split_slash [] = [[]]"
| "split_slash (b # bs) =
     (if b = slash then [] # split_slash bs
      else case split_slash bs of c # cs \<Rightarrow> (b # c) # cs | [] \<Rightarrow> [[b]])"

text \<open>\<open>str::trim\<close>: the encodings of the characters with the property \<open>White_Space\<close>.\<close>

definition white_space :: "u8 list list" where
  "white_space = [[0x09], [0x0A], [0x0B], [0x0C], [0x0D], [0x20], [0xC2, 0x85], [0xC2, 0xA0], [0xE1, 0x9A, 0x80]]
     @ map (\<lambda>b. [0xE2, 0x80, b]) [0x80, 0x81, 0x82, 0x83, 0x84, 0x85, 0x86, 0x87, 0x88, 0x89, 0x8A, 0xA8, 0xA9, 0xAF]
     @ [[0xE2, 0x81, 0x9F], [0xE3, 0x80, 0x80]]"

definition strip_one :: "u8 list list \<Rightarrow> u8 list \<Rightarrow> u8 list option" where
  "strip_one ws s = map_option (\<lambda>w. drop (length w) s) (List.find (\<lambda>w. take (length w) s = w) ws)"

lemma strip_one_shorter: "strip_one ws s = Some t \<Longrightarrow> [] \<notin> set ws \<Longrightarrow> length t < length s"
proof -
  assume "strip_one ws s = Some t" "[] \<notin> set ws"
  then obtain w where w: "List.find (\<lambda>w. take (length w) s = w) ws = Some w" "t = drop (length w) s"
    by (auto simp: strip_one_def)
  then have "w \<noteq> []" "take (length w) s = w" using find_SomeD [OF w(1)] \<open>[] \<notin> set ws\<close> by auto
  then show ?thesis by (cases s) (auto simp: w(2))
qed

function trim_start_with :: "u8 list list \<Rightarrow> u8 list \<Rightarrow> u8 list" where
  "trim_start_with ws s =
     (if [] \<in> set ws then s else case strip_one ws s of Some t \<Rightarrow> trim_start_with ws t | None \<Rightarrow> s)"
  by pat_completeness auto
termination
  by (relation "measure (\<lambda>(ws, s). length s)") (auto dest: strip_one_shorter)

declare trim_start_with.simps [simp del]

definition trim :: "u8 list \<Rightarrow> u8 list" where
  "trim s = rev (trim_start_with (map rev white_space) (rev (trim_start_with white_space s)))"

definition starts_with_slash :: "u8 list \<Rightarrow> bool" where
  "starts_with_slash s = (s \<noteq> [] \<and> hd s = slash)"

text \<open>\<open>str::rfind('/')\<close>\<close>

definition rfind_slash :: "u8 list \<Rightarrow> nat option" where
  "rfind_slash s = List.find (\<lambda>i. s ! i = slash) (rev [0..<length s])"

definition dot :: "u8 list" where "dot = [0x2E]"
definition dotdot :: "u8 list" where "dotdot = [0x2E, 0x2E]"

definition id_to_idx :: "nat \<Rightarrow> nat option" where
  "id_to_idx i = (if i = INVALID_ID then None else if i \<ge> MAX_VNODES then None else Some i)"

section \<open>Lookup of one component\<close>

text \<open>A child found on disk gets a node of its own, entered into the parent's table.\<close>

definition add_ext_child :: "'w env \<Rightarrow> nat \<Rightarrow> u8 list \<Rightarrow> ext_child \<Rightarrow> nat \<Rightarrow> ('w vfs, bool) vop" where
  "add_ext_child env parent_vnode name info nid =
     vbind (vget (\<lambda>s. e_ext_fs_type env (v_world s))) (\<lambda>fs.
     vseq (upd_node nid (\<lambda>_.
       let n = (vn_init nid parent_vnode name (xc_kind info) fs (mode_new (xc_perm info)) (xc_uid info) (xc_gid info)
                  (e_now env))\<lparr>vn_ext2_ino := xc_ino info, vn_size := xc_size info, vn_nlinks := xc_nlinks info,
                  vn_children_loaded := False\<rparr>
       in let target = take NAME_LEN (xc_symlink info)
       in if xc_kind info = Symlink \<and> target \<noteq> []
          then n\<lparr>vn_symlink_target := \<lparr>nb_data = copy_at 0 target (nb_data (vn_symlink_target n)),
                 nb_len = length target\<rparr>\<rparr>
          else n))
    (vbind (node_at parent_vnode) (\<lambda>p.
     case ch_insert name nid (vn_children p) of (ok, ch) \<Rightarrow>
       vseq (upd_node parent_vnode (\<lambda>p. p\<lparr>vn_children := ch\<rparr>))
         (if ok then vret True else vseq (upd_node nid (\<lambda>n. n\<lparr>vn_active := False\<rparr>)) (vret False)))))"

definition ext2_lazy_lookup :: "'w env \<Rightarrow> nat \<Rightarrow> u8 list \<Rightarrow> ('w vfs, nat) vop" where
  "ext2_lazy_lookup env parent_vnode name =
     vbind (vget (\<lambda>s. v_ext2_mount_active s \<and> e_ext_ready env (v_world s))) (\<lambda>ready.
     vseq (vcheck ready NotFound)
    (vbind (node_at parent_vnode) (\<lambda>p.
     vseq (vcheck (vn_ext2_ino p \<noteq> 0) NotFound)
    (vbind (on_world (e_ext_lookup env (vn_ext2_ino p) name)) (\<lambda>r.
     vbind (case r of ExtOk info \<Rightarrow> vret info | ExtErr e \<Rightarrow> vfail e | ExtNone \<Rightarrow> vfail NotFound) (\<lambda>info.
     vbind alloc_vnode (\<lambda>nid.
     vbind (add_ext_child env parent_vnode name info nid) (\<lambda>ok.
     vseq (vcheck ok NoSpace) (vret nid)))))))))"

definition lookup_child_or_load :: "'w env \<Rightarrow> nat \<Rightarrow> u8 list \<Rightarrow> ('w vfs, nat) vop" where
  "lookup_child_or_load env parent name =
     vbind (node_at parent) (\<lambda>p.
     vbind (vget (live_child p name)) (\<lambda>c.
       case c of
         Some cid \<Rightarrow> vret cid
       | None \<Rightarrow> if is_ext_backed p then ext2_lazy_lookup env parent name else vfail NotFound))"

section \<open>Symbolic links\<close>

definition parent_idx :: "vnode \<Rightarrow> nat \<Rightarrow> nat" where
  "parent_idx n current = (case id_to_idx (vn_parent n) of Some i \<Rightarrow> i | None \<Rightarrow> current)"

fun link_loop :: "'w env \<Rightarrow> (nat \<Rightarrow> ('w vfs, nat) vop) \<Rightarrow> u8 list list \<Rightarrow> nat \<Rightarrow> ('w vfs, nat) vop" where
  "link_loop env follow [] current = vret current"
| "link_loop env follow (c # cs) current =
     (if c = [] \<or> c = dot then link_loop env follow cs current
      else if c = dotdot then vbind (node_at current) (\<lambda>n. link_loop env follow cs (parent_idx n current))
      else
        vbind (node_at current) (\<lambda>n.
        vseq (vcheck (is_dir n) NotDirectory)
       (vbind (lookup_child_or_load env current c) (\<lambda>next.
        vseq (vcheck (next < MAX_VNODES) NotFound)
       (vbind (node_at next) (\<lambda>m.
          if is_symlink m
          then vbind (follow next) (\<lambda>i. vseq (vcheck (i < MAX_VNODES) NotFound) (link_loop env follow cs i))
          else link_loop env follow cs next))))))"

definition link_target :: "vnode \<Rightarrow> u8 list" where
  "link_target n = take (min (nb_len (vn_symlink_target n)) NAME_LEN) (nb_data (vn_symlink_target n))"

primrec follow_links :: "'w env \<Rightarrow> nat \<Rightarrow> nat \<Rightarrow> ('w vfs, nat) vop" where
  "follow_links env 0 link_id = vfail TooManySymlinks"
| "follow_links env (Suc d) link_id =
     (if link_id \<ge> MAX_VNODES then vfail InvalidPath
      else
        vbind (node_at link_id) (\<lambda>n.
          if \<not> is_symlink n then vret link_id
          else
            let target = link_target n;
                start = (if starts_with_slash target then 0 else parent_idx n 0)
            in if \<not> utf8_ok target then vfail InvalidPath
               else if target = [] then vfail InvalidPath
               else link_loop env (follow_links env d) (split_slash target) start))"

definition follow_symlink :: "'w env \<Rightarrow> nat \<Rightarrow> nat \<Rightarrow> ('w vfs, nat) vop" where
  "follow_symlink env link_id depth = follow_links env (MAX_SYMLINK_DEPTH - depth) link_id"

section \<open>Whole paths\<close>

text \<open>\<open>last\<close> says whether a component that no further name follows keeps its link: the number
  of names left is \<open>left\<close> for \<open>resolve_path_lstat\<close>, and \<open>None\<close> for \<open>resolve_path\<close>.\<close>

fun resolve_loop :: "'w env \<Rightarrow> nat option \<Rightarrow> u8 list list \<Rightarrow> nat \<Rightarrow> nat \<Rightarrow> ('w vfs, nat) vop" where
  "resolve_loop env left [] depth current = vret current"
| "resolve_loop env left (c # cs) depth current =
     (if c = [] \<or> c = dot then resolve_loop env left cs depth current
      else if c = dotdot then vbind (node_at current) (\<lambda>n. resolve_loop env left cs depth (parent_idx n current))
      else if depth + 1 > MAX_PATH_DEPTH then vfail InvalidPath
      else
        let left' = map_option (\<lambda>k. k - 1) left
        in
        vbind (node_at current) (\<lambda>n.
        vseq (vcheck (is_dir n) NotDirectory)
       (vbind (lookup_child_or_load env current c) (\<lambda>next.
        vseq (vcheck (next < MAX_VNODES) NotFound)
       (vbind (node_at next) (\<lambda>m.
          if left' \<noteq> Some 0 \<and> is_symlink m
          then vbind (follow_symlink env next 0) (\<lambda>i.
                 vseq (vcheck (i < MAX_VNODES) NotFound) (resolve_loop env left' cs (depth + 1) i))
          else resolve_loop env left' cs (depth + 1) next))))))"

definition resolve_path :: "'w env \<Rightarrow> nat \<Rightarrow> u8 list \<Rightarrow> ('w vfs, nat) vop" where
  "resolve_path env cwd path0 =
     (let path = trim path0
      in if path = [] then vret cwd
         else
           let current = (if starts_with_slash path then 0 else cwd)
           in if current \<ge> MAX_VNODES then vfail InvalidPath
              else resolve_loop env None (split_slash path) 0 current)"

definition resolve_path_lstat :: "'w env \<Rightarrow> nat \<Rightarrow> u8 list \<Rightarrow> ('w vfs, nat) vop" where
  "resolve_path_lstat env cwd path0 =
     (let path = trim path0
      in if path = [] then vret cwd
         else
           let total_names = length (filter (\<lambda>c. c \<noteq> [] \<and> c \<noteq> dot \<and> c \<noteq> dotdot) (split_slash path));
               current = (if starts_with_slash path then 0 else cwd)
           in if current \<ge> MAX_VNODES then vfail InvalidPath
              else resolve_loop env (Some total_names) (split_slash path) 0 current)"

primrec follow_final :: "'w env \<Rightarrow> nat \<Rightarrow> nat \<Rightarrow> ('w vfs, nat) vop" where
  "follow_final env 0 i = vbind (node_at i) (\<lambda>n. vseq (vcheck (\<not> is_symlink n) TooManySymlinks) (vret i))"
| "follow_final env (Suc d) i =
     vbind (node_at i) (\<lambda>n.
       if \<not> is_symlink n then vret i
       else
         let target = link_target n
         in if \<not> utf8_ok target then vfail InvalidPath
            else if target = [] then vfail InvalidPath
            else
              vbind (resolve_path env (parent_idx n 0) target) (\<lambda>j.
              vseq (vcheck (j < MAX_VNODES) InvalidPath) (follow_final env d j)))"

definition resolve_path_follow :: "'w env \<Rightarrow> nat \<Rightarrow> u8 list \<Rightarrow> ('w vfs, nat) vop" where
  "resolve_path_follow env cwd path =
     vbind (resolve_path env cwd path) (\<lambda>i.
     vseq (vcheck (i < MAX_VNODES) InvalidPath) (follow_final env MAX_SYMLINK_DEPTH i))"

definition split_path :: "'w env \<Rightarrow> nat \<Rightarrow> u8 list \<Rightarrow> ('w vfs, nat \<times> u8 list) vop" where
  "split_path env cwd path =
     (case rfind_slash path of
        Some pos \<Rightarrow>
          (let name = drop (pos + 1) path; dir_part = take pos path
           in if name = [] then vfail InvalidPath
              else vbind (resolve_path env cwd (if dir_part = [] then [slash] else dir_part)) (\<lambda>parent.
                     vret (parent, name)))
      | None \<Rightarrow> vret (cwd, path))"

section \<open>What resolution keeps\<close>

text \<open>Resolution changes the state only through the lazy lookup of an ext directory. The
  contract: an invariant \<open>inv\<close> that this lookup keeps, and a property \<open>good\<close> of nodes that
  every node but a symbolic link has and that parents and the root have. Then every
  resolution returns, within the node array, keeps \<open>inv\<close> and ends at a good node unless it
  was asked to keep the last link.\<close>

locale path_walk =
  fixes env :: "'w env"
    and inv :: "'w vfs \<Rightarrow> bool"
    and good :: "'w vfs \<Rightarrow> nat \<Rightarrow> bool"
  assumes lazy: "inv s \<Longrightarrow> p < MAX_VNODES \<Longrightarrow>
      wp (ext2_lazy_lookup env p name) (\<lambda>i s'. i < MAX_VNODES \<and> inv s') (\<lambda>_. inv) s"
    and good_node: "inv s \<Longrightarrow> i < MAX_VNODES \<Longrightarrow> \<not> is_symlink (v_nodes s ! i) \<Longrightarrow> good s i"
    and good_parent: "inv s \<Longrightarrow> i < MAX_VNODES \<Longrightarrow> id_to_idx (vn_parent (v_nodes s ! i)) = Some j \<Longrightarrow> good s j"
    and good_root: "inv s \<Longrightarrow> good s 0"
begin

abbreviation walks :: "bool \<Rightarrow> ('w vfs, nat) vop \<Rightarrow> 'w vfs \<Rightarrow> bool" where
  "walks g m s \<equiv> wp m (\<lambda>i s'. i < MAX_VNODES \<and> inv s' \<and> (g \<longrightarrow> good s' i)) (\<lambda>_. inv) s"

lemma walks_lookup:
  "inv s \<Longrightarrow> p < MAX_VNODES \<Longrightarrow> wp (lookup_child_or_load env p name) (\<lambda>i s'. i < MAX_VNODES \<and> inv s') (\<lambda>_. inv) s"
  using lazy [of s p name]
  by (auto simp: lookup_child_or_load_def wp_simps live_child_def valid_vnode_def split: option.split)

lemma parent_bound: "current < MAX_VNODES \<Longrightarrow> parent_idx n current < MAX_VNODES"
  by (auto simp: parent_idx_def id_to_idx_def split: option.split)

lemma parent_good:
  "inv s \<Longrightarrow> i < MAX_VNODES \<Longrightarrow> (g \<longrightarrow> good s current) \<Longrightarrow> (g \<longrightarrow> good s (parent_idx (v_nodes s ! i) current))"
  using good_parent [of s i] by (auto simp: parent_idx_def split: option.split)

lemma walks_step:
  assumes "inv s" and "current < MAX_VNODES"
    and link: "\<And>i s. inv s \<Longrightarrow> i < MAX_VNODES \<Longrightarrow> is_symlink (v_nodes s ! i) \<Longrightarrow> wp (onlink i) Q (\<lambda>_. inv) s"
    and node: "\<And>i s. inv s \<Longrightarrow> i < MAX_VNODES \<Longrightarrow> \<not> (b \<and> is_symlink (v_nodes s ! i)) \<Longrightarrow> wp (onnode i) Q (\<lambda>_. inv) s"
  shows "wp (vbind (node_at current) (\<lambda>n. vseq (vcheck (is_dir n) NotDirectory)
     (vbind (lookup_child_or_load env current c) (\<lambda>next. vseq (vcheck (next < MAX_VNODES) NotFound)
     (vbind (node_at next) (\<lambda>m. if b \<and> is_symlink m then onlink next else onnode next)))))) Q (\<lambda>_. inv) s"
proof -
  have "wp (lookup_child_or_load env current c)
      (\<lambda>i s'. wp (vseq (vcheck (i < MAX_VNODES) NotFound)
        (vbind (node_at i) (\<lambda>m. if b \<and> is_symlink m then onlink i else onnode i))) Q (\<lambda>_. inv) s') (\<lambda>_. inv) s"
    by (rule wp_mono [OF walks_lookup [OF assms(1,2)]]) (auto simp: wp_simps link node)
  then show ?thesis using assms(1,2) by (simp add: wp_simps)
qed

lemma walks_link_loop:
  assumes follow: "\<And>i s. inv s \<Longrightarrow> i < MAX_VNODES \<Longrightarrow> walks True (follow i) s"
  shows "inv s \<Longrightarrow> current < MAX_VNODES \<Longrightarrow> good s current \<Longrightarrow> walks True (link_loop env follow cs current) s"
proof (induction cs arbitrary: current s)
  case Nil
  then show ?case by (simp add: wp_simps)
next
  case (Cons c cs)
  let ?link = "\<lambda>i. vbind (follow i) (\<lambda>i. vseq (vcheck (i < MAX_VNODES) NotFound) (link_loop env follow cs i))"
  have "walks True (?link i) s'" if "inv s'" "i < MAX_VNODES" for i s'
    unfolding wp_vbind by (rule wp_mono [OF follow [OF that]]) (auto simp: wp_simps Cons.IH [simplified])
  moreover have "walks True (link_loop env follow cs i) s'" if "inv s'" "i < MAX_VNODES" "\<not> (True \<and> is_symlink (v_nodes s' ! i))" for i s'
    using that by (intro Cons.IH) (auto intro: good_node)
  ultimately show ?case
    using Cons parent_good [OF Cons.prems(1,2), of True current] walks_step [OF Cons.prems(1,2), where b = True and onlink = ?link]
    by (auto simp: wp_simps parent_bound)
qed

lemma walks_follow_links: "inv s \<Longrightarrow> i < MAX_VNODES \<Longrightarrow> walks True (follow_links env d i) s"
proof (induction d arbitrary: i s)
  case 0
  then show ?case by (simp add: wp_simps)
next
  case (Suc d)
  have "parent_idx (v_nodes s ! i) 0 < MAX_VNODES" by (rule parent_bound) (simp add: MAX_VNODES_def)
  moreover have "good s (parent_idx (v_nodes s ! i) 0)" using parent_good [of s i True 0] Suc.prems good_root by blast
  ultimately show ?case
    using Suc.prems walks_link_loop [of "follow_links env d", OF Suc.IH] good_root good_node
    by (auto simp: wp_simps Let_def MAX_VNODES_def)
qed

lemma walks_resolve_loop:
  "inv s \<Longrightarrow> current < MAX_VNODES \<Longrightarrow> (left = None \<longrightarrow> good s current) \<Longrightarrow>
   walks (left = None) (resolve_loop env left cs depth current) s"
proof (induction cs arbitrary: current s depth left)
  case Nil
  then show ?case by (simp add: wp_simps)
next
  case (Cons c cs)
  define left' where "left' = map_option (\<lambda>k. k - 1) left"
  let ?link = "\<lambda>i. vbind (follow_symlink env i 0) (\<lambda>i. vseq (vcheck (i < MAX_VNODES) NotFound) (resolve_loop env left' cs (depth + 1) i))"
  have ln: "left' = None \<longleftrightarrow> left = None" by (simp add: left'_def)
  have "walks (left = None) (?link i) s'" if "inv s'" "i < MAX_VNODES" for i s'
    unfolding wp_vbind follow_symlink_def
    by (rule wp_mono [OF walks_follow_links [OF that]]) (auto simp: wp_simps Cons.IH [of _ _ left', unfolded ln])
  moreover have "walks (left = None) (resolve_loop env left' cs (depth + 1) i) s'"
    if "inv s'" "i < MAX_VNODES" "\<not> (left' \<noteq> Some 0 \<and> is_symlink (v_nodes s' ! i))" for i s'
    using that ln good_node [of s' i] by (intro Cons.IH [of _ _ left', unfolded ln]) auto
  ultimately have names: "walks (left = None) (vbind (node_at current) (\<lambda>n. vseq (vcheck (is_dir n) NotDirectory)
     (vbind (lookup_child_or_load env current c) (\<lambda>next. vseq (vcheck (next < MAX_VNODES) NotFound)
     (vbind (node_at next) (\<lambda>m. if left' \<noteq> Some 0 \<and> is_symlink m then ?link next
        else resolve_loop env left' cs (depth + 1) next)))))) s"
    by (intro walks_step [OF Cons.prems(1,2)])
  consider (skip) "c = [] \<or> c = dot" | (up) "c \<noteq> []" "c \<noteq> dot" "c = dotdot"
    | (name) "c \<noteq> []" "c \<noteq> dot" "c \<noteq> dotdot" by blast
  then show ?case
  proof cases
    case skip
    then show ?thesis using Cons.IH [OF Cons.prems] by simp
  next
    case up
    then show ?thesis
      using Cons.IH [OF Cons.prems(1) parent_bound [OF Cons.prems(2)] parent_good [OF Cons.prems]] Cons.prems(2)
      by (simp add: wp_simps)
  next
    case name
    then show ?thesis
      using names Cons.prems(1) unfolding left'_def by (cases "depth + 1 > MAX_PATH_DEPTH") (simp_all only: resolve_loop.simps Let_def if_False if_True wp_simps simp_thms)
  qed
qed

lemma walks_resolve_path:
  assumes "inv s" and "cwd < MAX_VNODES"
  shows "good s cwd \<Longrightarrow> walks True (resolve_path env cwd path) s"
    and "walks False (resolve_path_lstat env cwd path) s"
proof -
  show "good s cwd \<Longrightarrow> walks True (resolve_path env cwd path) s"
    using assms walks_resolve_loop [of s _ None] good_root [of s]
    by (auto simp: resolve_path_def Let_def wp_simps)
  show "walks False (resolve_path_lstat env cwd path) s"
    using assms walks_resolve_loop [of s _ "Some n" for n]
    by (auto simp: resolve_path_lstat_def Let_def wp_simps)
qed

lemma walks_follow_final: "inv s \<Longrightarrow> i < MAX_VNODES \<Longrightarrow> walks True (follow_final env d i) s"
proof (induction d arbitrary: i s)
  case 0
  then show ?case by (auto simp: wp_simps intro: good_node)
next
  case (Suc d)
  let ?p = "parent_idx (v_nodes s ! i) 0"
  have p: "?p < MAX_VNODES" by (rule parent_bound) (simp add: MAX_VNODES_def)
  have g: "good s ?p" using parent_good [of s i True 0] Suc.prems good_root by blast
  have "wp (resolve_path env ?p t) (\<lambda>j s. wp (vseq (vcheck (j < MAX_VNODES) InvalidPath) (follow_final env d j))
      (\<lambda>i s'. i < MAX_VNODES \<and> inv s' \<and> (True \<longrightarrow> good s' i)) (\<lambda>_. inv) s) (\<lambda>_. inv) s" for t
    by (rule wp_mono [OF walks_resolve_path(1) [OF Suc.prems(1) p g]]) (simp_all add: wp_simps Suc.IH [simplified])
  then show ?case using Suc.prems good_node by (simp add: wp_simps Let_def)
qed

lemma walks_resolve_path_follow:
  assumes "inv s" and "cwd < MAX_VNODES" and "good s cwd"
  shows "walks True (resolve_path_follow env cwd path) s"
  unfolding resolve_path_follow_def wp_vbind
  by (rule wp_mono [OF walks_resolve_path(1) [OF assms]]) (simp_all add: wp_simps walks_follow_final [simplified])

lemma walks_split_path:
  assumes "inv s" and "cwd < MAX_VNODES" and "good s cwd"
  shows "wp (split_path env cwd path) (\<lambda>(i, name) s'. i < MAX_VNODES \<and> inv s' \<and> good s' i) (\<lambda>_. inv) s"
proof -
  have "wp (resolve_path env cwd p) (\<lambda>i s'. (\<lambda>(i, name) s'. i < MAX_VNODES \<and> inv s' \<and> good s' i) (i, n) s') (\<lambda>_. inv) s"
    for p n :: "u8 list"
    by (rule wp_mono [OF walks_resolve_path(1) [OF assms]]) simp_all
  then show ?thesis using assms by (simp add: split_path_def Let_def wp_simps split: option.split)
qed

end

section \<open>Without an ext file system\<close>

text \<open>When no ext file system is mounted, resolution does not change the state at all.\<close>

definition no_ext :: "'w vfs \<Rightarrow> bool" where
  "no_ext s = (\<not> v_ext2_mount_active s)"

text \<open>No node's parent, and not the root, is a symbolic link.\<close>

definition dir_parents :: "'w vfs \<Rightarrow> bool" where
  "dir_parents s = (\<not> is_symlink (v_nodes s ! 0)
     \<and> (\<forall>i<MAX_VNODES. \<forall>j. id_to_idx (vn_parent (v_nodes s ! i)) = Some j \<longrightarrow> \<not> is_symlink (v_nodes s ! j)))"

interpretation pure_walk: path_walk env "\<lambda>s. s = s0 \<and> no_ext s0" "\<lambda>_ _. True" for env s0
  by unfold_locales (auto simp: ext2_lazy_lookup_def wp_simps no_ext_def)

interpretation link_walk: path_walk env "\<lambda>s. s = s0 \<and> no_ext s0 \<and> dir_parents s0" "\<lambda>s i. \<not> is_symlink (v_nodes s ! i)" for env s0
  by unfold_locales (auto simp: ext2_lazy_lookup_def wp_simps no_ext_def dir_parents_def)

section \<open>Properties\<close>


text \<open>A file system whose root, at node 0, has one entry: the symbolic link \<open>a\<close> at node 5, which
  points to itself.\<close>

definition link_fs :: "unit vfs" where
  "link_fs = \<lparr>v_nodes = (replicate MAX_VNODES vn_empty)
       [0 := (vn_init 0 INVALID_ID [0x2F] Directory TmpFS 0x1ED 0 0 0)\<lparr>vn_children := snd (ch_insert [0x61] 5 ch_new)\<rparr>,
        5 := (vn_init 5 0 [0x61] Symlink TmpFS 0x1FF 0 0 0)\<lparr>vn_symlink_target := nb_from_str [0x61]\<rparr>],
     v_page_cache = pc_new, v_mounts = mt_new, v_fd_tables = [],
     v_ctx = \<lparr>pc_pid = 0, pc_cred = cred_root, pc_umask = 0x12, pc_cwd = 0, pc_root = 0\<rparr>,
     v_ext2_mount_active = False, v_vnode_free_hint = 1, v_world = ()\<rparr>"

lemma link_fs_hyps: "no_ext link_fs" "dir_parents link_fs" "\<not> is_symlink (v_nodes link_fs ! 0)"
proof -
  have n: "v_nodes link_fs ! i = (if i = 5 then (vn_init 5 0 [0x61] Symlink TmpFS 0x1FF 0 0 0)\<lparr>vn_symlink_target := nb_from_str [0x61]\<rparr>
    else if i = 0 then (vn_init 0 INVALID_ID [0x2F] Directory TmpFS 0x1ED 0 0 0)\<lparr>vn_children := snd (ch_insert [0x61] 5 ch_new)\<rparr>
    else vn_empty)" if "i < MAX_VNODES" for i
    using that by (simp add: link_fs_def nth_list_update)
  show "no_ext link_fs" by (simp add: no_ext_def link_fs_def)
  show s: "\<not> is_symlink (v_nodes link_fs ! 0)" by (simp add: n is_symlink_def MAX_VNODES_def)
  have "id_to_idx (vn_parent (v_nodes link_fs ! i)) = Some j \<Longrightarrow> j = 0" if "i < MAX_VNODES" for i j
    using n [OF that] by (auto simp: id_to_idx_def vn_init_def vn_empty_def split: if_splits)
  with s show "dir_parents link_fs" by (auto simp: dir_parents_def)
qed


end
