(* ===== verification/FileOps.thy ===== *)
theory FileOps
  imports PathRes
begin

text \<open>
  Operations on files: \<open>core/file_ops.rs\<close>, \<open>core/truncate.rs\<close> and the file transfers of
  \<open>core/ext2_bridge.rs\<close>, under \<open>kernel/fs/vfs\<close>. A buffer that a read fills is the list of the
  bytes read. A file on tmpfs has its bytes in pages of the page cache; a missing page reads
  as zeros.
\<close>

section \<open>Truncation\<close>

definition free_pages :: "nat list \<Rightarrow> ('w vfs, unit) vop" where
  "free_pages ids = vmod (\<lambda>s. s\<lparr>v_page_cache := fold free_page ids (v_page_cache s)\<rparr>)"

definition free_file_pages :: "nat \<Rightarrow> ('w vfs, unit) vop" where
  "free_file_pages i = vbind (node_at i) (\<lambda>n. free_pages (map snd (iter_pages (vn_addr_space n))))"

definition truncate_file :: "'w env \<Rightarrow> nat \<Rightarrow> ('w vfs, unit) vop" where
  "truncate_file env i =
     vbind (node_at i) (\<lambda>n.
     vseq (if is_ext_backed n then vbind (on_world (e_ext_truncate env (vn_ext2_ino n))) (\<lambda>_. vret ()) else vret ())
    (vseq (free_file_pages i)
          (upd_node i (\<lambda>n. touch_mtime (e_now env) (n\<lparr>vn_size := 0, vn_addr_space := as_new\<rparr>)))))"

text \<open>The rest of the page from \<open>zero_from\<close> on is cleared.\<close>

definition zero_tail :: "nat \<Rightarrow> nat \<Rightarrow> ('w vfs, unit) vop" where
  "zero_tail zero_from pid =
     vmod (\<lambda>s. case get_page_data_mut pid (\<lambda>d. take zero_from d @ replicate (PAGE_SIZE - zero_from) 0) (v_page_cache s) of
                 (ok, pc) \<Rightarrow> s\<lparr>v_page_cache := (if ok then mark_dirty pid pc else pc)\<rparr>)"

definition truncate_to :: "'w env \<Rightarrow> nat \<Rightarrow> u64 \<Rightarrow> ('w vfs, unit) vop" where
  "truncate_to env i new_size =
     vbind (node_at i) (\<lambda>n.
       if new_size \<ge> vn_size n then upd_node i (\<lambda>n. n\<lparr>vn_size := new_size\<rparr>)
       else
         let sz = unat new_size;
             keep_pages = (if sz = 0 then 0 else (sz - 1) div PAGE_SIZE + 1);
             t = as_truncate_to keep_pages (vn_addr_space n)
         in
         vseq (if is_ext_backed n \<and> sz = 0
               then vbind (on_world (e_ext_truncate env (vn_ext2_ino n))) (\<lambda>_. vret ()) else vret ())
        (vseq (vseq (upd_node i (\<lambda>n. n\<lparr>vn_addr_space := snd t\<rparr>)) (free_pages (fst t)))
        (vseq (case get_page ((sz - 1) div PAGE_SIZE) (snd t) of
                 Some pid \<Rightarrow> if sz > 0 \<and> sz mod PAGE_SIZE > 0 then zero_tail (sz mod PAGE_SIZE) pid else vret ()
               | None \<Rightarrow> vret ())
              (upd_node i (\<lambda>n. touch_ctime (e_now env) (touch_mtime (e_now env) (n\<lparr>vn_size := new_size\<rparr>)))))))"

section \<open>Creating a node in a directory\<close>

text \<open>The part that \<open>create_file\<close>, \<open>mkdir\<close> and \<open>symlink\<close> share: the checks on the directory,
  a fresh node, the entry on disk for an ext directory, the entry in the parent's table, and
  the rollback when that entry is refused.\<close>

definition new_child :: "'w env \<Rightarrow> nat \<Rightarrow> u8 list \<Rightarrow> VNodeKind \<Rightarrow> file_mode \<Rightarrow> (vnode \<Rightarrow> vnode)
    \<Rightarrow> (u32 \<Rightarrow> 'w \<Rightarrow> u32 ext_result \<times> 'w) \<Rightarrow> (u32 \<Rightarrow> 'w \<Rightarrow> unit ext_result \<times> 'w) \<Rightarrow> (vnode \<Rightarrow> vnode) \<Rightarrow> ('w vfs, nat) vop" where
  "new_child env pid name kind mode prep ext_create ext_delete link_parent =
     vbind (node_at pid) (\<lambda>p.
     vseq (vcheck (is_dir p) NotDirectory)
    (vseq (vcheck (\<not> is_readonly_fs p) ReadOnly)
    (vseq (check_dir_write pid)
    (vseq (ensure_no_duplicate env pid name)
    (vbind alloc_vnode (\<lambda>nid.
     vbind (vget (\<lambda>s. pc_cred (v_ctx s))) (\<lambda>cred.
     vseq (upd_node nid (\<lambda>_. prep (vn_init nid pid name kind (vn_fs_type p) mode (cr_euid cred) (cr_egid cred) (e_now env))))
    (vbind (node_at pid) (\<lambda>p.
     vseq (if is_ext_backed p
           then vbind (on_world (ext_create (vn_ext2_ino p))) (\<lambda>r.
                  case r of
                    ExtOk ino \<Rightarrow> upd_node nid (\<lambda>n. n\<lparr>vn_ext2_ino := ino\<rparr>)
                  | _ \<Rightarrow> vseq (upd_node nid (\<lambda>n. n\<lparr>vn_active := False\<rparr>)) (vfail IoError))
           else vret ())
    (vbind (node_at pid) (\<lambda>p.
     case ch_insert name nid (vn_children p) of (ok, ch) \<Rightarrow>
     vseq (upd_node pid (\<lambda>p. p\<lparr>vn_children := ch\<rparr>))
       (if ok then vseq (upd_node pid (\<lambda>p. touch_mtime (e_now env) (link_parent p))) (vret nid)
        else
          vbind (node_at nid) (\<lambda>n.
          vseq (if vn_ext2_ino n \<noteq> 0
                then vbind (on_world (ext_delete (vn_ext2_ino p))) (\<lambda>_. vret ()) else vret ())
         (vseq (upd_node nid (\<lambda>n. n\<lparr>vn_active := False\<rparr>)) (vfail NoSpace)))))))))))))))"

definition create_file :: "'w env \<Rightarrow> nat \<Rightarrow> u8 list \<Rightarrow> file_mode \<Rightarrow> ('w vfs, nat) vop" where
  "create_file env parent name mode =
     vseq (validate_name name)
    (vbind (vget (\<lambda>s. apply_umask mode (pc_umask (v_ctx s)))) (\<lambda>applied_mode.
     new_child env parent name Regular applied_mode (\<lambda>n. n)
       (\<lambda>parent_ino. e_ext_create_file env parent_ino name applied_mode)
       (\<lambda>parent_ino. e_ext_delete_file env parent_ino name) (\<lambda>p. p)))"

section \<open>Opening and closing\<close>

text \<open>The branch of \<open>resolve_or_create\<close> for a node that was found.\<close>

definition open_found :: "'w env \<Rightarrow> open_flags \<Rightarrow> bool \<Rightarrow> nat \<Rightarrow> ('w vfs, nat) vop" where
  "open_found env flags nofollow i =
     vbind (node_at i) (\<lambda>n.
     vseq (vcheck (\<not> (nofollow \<and> is_symlink n)) Loop)
    (vseq (vcheck (\<not> (flags_has flags O_DIRECTORY \<and> \<not> is_dir n)) NotDirectory)
    (vseq (vcheck (\<not> (flags_has flags O_CREATE \<and> flags_has flags O_EXCLUSIVE)) AlreadyExists)
    (vseq (check_access i flags)
    (vseq (if flags_has flags O_TRUNCATE \<and> writable flags \<and> is_regular n then truncate_file env i else vret ())
          (vret i))))))"

definition resolve_or_create :: "'w env \<Rightarrow> nat \<Rightarrow> u8 list \<Rightarrow> open_flags \<Rightarrow> file_mode \<Rightarrow> bool \<Rightarrow> ('w vfs, nat) vop" where
  "resolve_or_create env cwd path flags mode nofollow =
     vbind (vtry (if nofollow then resolve_path env cwd path else resolve_path_follow env cwd path)) (\<lambda>lookup.
       case lookup of
         Inr i \<Rightarrow> open_found env flags nofollow i
       | Inl e \<Rightarrow>
           if e = NotFound \<and> flags_has flags O_CREATE
           then vbind (split_path env cwd path) (\<lambda>(parent, name). create_file env parent name mode)
           else vfail e)"

definition vfs_open :: "'w env \<Rightarrow> nat \<Rightarrow> u8 list \<Rightarrow> open_flags \<Rightarrow> file_mode \<Rightarrow> ('w vfs, nat) vop" where
  "vfs_open env cwd path flags mode =
     vbind (resolve_or_create env cwd path flags mode (flags_has flags O_NOFOLLOW)) (\<lambda>i.
     vbind (node_at i) (\<lambda>n.
     vseq (vcheck (\<not> (writable flags \<and> is_readonly_fs n \<and> get_dev_type n = None)) ReadOnly)
    (vbind (on_fds env (fd_alloc i flags)) (\<lambda>fd.
     vseq (upd_node i inc_ref) (vret fd)))))"

definition lower_hint :: "nat \<Rightarrow> ('w vfs, unit) vop" where
  "lower_hint i = vmod (\<lambda>s. if i < v_vnode_free_hint s then s\<lparr>v_vnode_free_hint := i\<rparr> else s)"

text \<open>What \<open>close\<close> and \<open>unlink\<close> do with a node that has neither a link nor a descriptor left.\<close>

definition release_node :: "nat \<Rightarrow> ('w vfs, unit) vop" where
  "release_node i = vseq (free_file_pages i) (vseq (upd_node i (\<lambda>n. n\<lparr>vn_active := False\<rparr>)) (lower_hint i))"

definition vfs_close :: "'w env \<Rightarrow> nat \<Rightarrow> ('w vfs, unit) vop" where
  "vfs_close env fd =
     vbind (fds env) (\<lambda>t.
     vbind (case fd_get fd t of Inr f \<Rightarrow> vret (of_vnode_id f) | Inl e \<Rightarrow> vfail e) (\<lambda>vid.
     vbind (on_fds env (fd_close fd)) (\<lambda>_.
     vbind (vget (\<lambda>s. valid_vnode vid s \<and> vn_refcount (v_nodes s ! vid) > 0)) (\<lambda>held.
       if held
       then
         vseq (upd_node vid dec_ref)
        (vbind (node_at vid) (\<lambda>n.
           if vn_nlinks n = 0 \<and> vn_refcount n = 0
           then
             vseq (if is_ext_backed n
                   then vbind (vget (\<lambda>s. if valid_vnode (vn_parent n) s then vn_ext2_ino (v_nodes s ! vn_parent n) else 0)) (\<lambda>ino.
                          if ino \<noteq> 0
                          then vbind (on_world (e_ext_delete_file env ino (take NAME_LEN (get_name n)))) (\<lambda>_. vret ())
                          else vret ())
                   else vret ())
                  (release_node vid)
           else vret ()))
       else vret ()))))"

definition vfs_dup :: "'w env \<Rightarrow> nat \<Rightarrow> ('w vfs, nat) vop" where
  "vfs_dup env old_fd =
     vbind (fds env) (\<lambda>t.
     vbind (case fd_get old_fd t of Inr f \<Rightarrow> vret f | Inl e \<Rightarrow> vfail e) (\<lambda>file.
     vbind (on_fds env (fd_alloc (of_vnode_id file) (of_flags file))) (\<lambda>new_fd.
     vbind (vget (valid_vnode (of_vnode_id file))) (\<lambda>valid.
     vseq (if valid then upd_node (of_vnode_id file) inc_ref else vret ())
    (vseq (on_fds env (fd_modify new_fd (\<lambda>f. f\<lparr>of_offset := of_offset file\<rparr>)))
          (vret new_fd))))))"

definition dup_to :: "'w env \<Rightarrow> nat \<Rightarrow> nat \<Rightarrow> ('w vfs, nat) vop" where
  "dup_to env old_fd new_fd =
     vbind (fds env) (\<lambda>t.
     vbind (case fd_get old_fd t of Inr f \<Rightarrow> vret f | Inl e \<Rightarrow> vfail e) (\<lambda>file.
     vbind (fds env) (\<lambda>t.
     vseq (case fd_get new_fd t of
             Inr _ \<Rightarrow> vbind (vtry (vfs_close env new_fd)) (\<lambda>_. vret ())
           | Inl _ \<Rightarrow> vret ())
    (vbind (on_fds env (fd_alloc_at new_fd (of_vnode_id file) (of_flags file))) (\<lambda>_.
     vbind (vget (valid_vnode (of_vnode_id file))) (\<lambda>valid.
     vseq (if valid then upd_node (of_vnode_id file) inc_ref else vret ())
    (vseq (on_fds env (fd_modify new_fd (\<lambda>f. f\<lparr>of_offset := of_offset file\<rparr>)))
          (vret new_fd))))))))"

section \<open>Reading\<close>

text \<open>The copy loop over the pages of a tmpfs file: \<open>left\<close> bytes from the offset \<open>off\<close>.\<close>

function read_pages :: "address_space \<Rightarrow> nat \<Rightarrow> nat \<Rightarrow> page_cache \<Rightarrow> u8 list \<times> page_cache" where
  "read_pages a off left pc =
     (if left = 0 then ([], pc)
      else
        let page_num = off div PAGE_SIZE; page_off = off mod PAGE_SIZE;
            chunk = min (PAGE_SIZE - page_off) left;
            (bytes, pc1) =
              (case get_page page_num a of
                 Some pid \<Rightarrow>
                   (case get_page_data pid pc of
                      (Some data, pc') \<Rightarrow> (slice page_off (page_off + chunk) data, pc')
                    | (None, pc') \<Rightarrow> (replicate chunk 0, pc'))
               | None \<Rightarrow> (replicate chunk 0, pc));
            (rest, pc2) = read_pages a (off + chunk) (left - chunk) pc1
        in (bytes @ rest, pc2))"
  by pat_completeness auto
termination
  by (relation "measure (\<lambda>(a, off, left, pc). left)") (auto simp: PAGE_SIZE_def)

declare read_pages.simps [simp del]

definition read_static :: "u8 list \<Rightarrow> u64 \<Rightarrow> nat \<Rightarrow> u8 list" where
  "read_static sd offset len =
     (if unat offset \<ge> length sd then [] else slice (unat offset) (unat offset + min len (length sd - unat offset)) sd)"

text \<open>The tail of a read from tmpfs: nothing past the end, otherwise the loop above.\<close>

definition read_tmpfs :: "nat \<Rightarrow> u64 \<Rightarrow> nat \<Rightarrow> ('w vfs, u8 list) vop" where
  "read_tmpfs vid offset len =
     vbind (node_at vid) (\<lambda>n.
       if offset \<ge> vn_size n then vret []
       else
         let to_read = min len (unat (vn_size n - offset))
         in vcall (\<lambda>s. case read_pages (vn_addr_space n) (unat offset) to_read (v_page_cache s) of
              (bytes, pc) \<Rightarrow> (Inr bytes, s\<lparr>v_page_cache := pc\<rparr>)))"

definition advance_fd :: "'w env \<Rightarrow> nat \<Rightarrow> nat \<Rightarrow> ('w vfs, unit) vop" where
  "advance_fd env fd k = on_fds env (fd_modify fd (\<lambda>f. f\<lparr>of_offset := of_offset f + of_nat k\<rparr>))"

definition read_procfs :: "'w env \<Rightarrow> nat \<Rightarrow> nat \<Rightarrow> u64 \<Rightarrow> nat \<Rightarrow> ('w vfs, u8 list) vop" where
  "read_procfs env fd vid offset len =
     vbind (node_at vid) (\<lambda>n.
     vbind (vget total_vnodes) (\<lambda>used.
     vbind (on_world (e_proc_read env (take NAME_LEN (get_name n)) used)) (\<lambda>r.
       case r of
         Inl e \<Rightarrow> vfail e
       | Inr text \<Rightarrow>
           if unat offset \<ge> length text then vret []
           else
             let bytes = slice (unat offset) (unat offset + min len (length text - unat offset)) text
             in vseq (advance_fd env fd (length bytes)) (vret bytes))))"

definition read_ext2_file :: "'w env \<Rightarrow> nat \<Rightarrow> nat \<Rightarrow> u64 \<Rightarrow> nat \<Rightarrow> ('w vfs, u8 list) vop" where
  "read_ext2_file env fd vid offset len =
     vbind (node_at vid) (\<lambda>n.
     vbind (on_world (e_ext_read env (vn_ext2_ino n) offset len)) (\<lambda>r.
     vbind (case r of ExtOk x \<Rightarrow> vret x | ExtErr e \<Rightarrow> vfail e | ExtNone \<Rightarrow> vfail IoError) (\<lambda>(bytes, disk_size).
     vseq (if disk_size > 0 then upd_node vid (\<lambda>n. n\<lparr>vn_size := disk_size\<rparr>) else vret ())
    (vseq (advance_fd env fd (length bytes)) (vret bytes)))))"

definition vfs_read :: "'w env \<Rightarrow> nat \<Rightarrow> nat \<Rightarrow> ('w vfs, u8 list) vop" where
  "vfs_read env fd len =
     vbind (fds env) (\<lambda>t.
     vbind (case fd_get fd t of Inr f \<Rightarrow> vret f | Inl e \<Rightarrow> vfail e) (\<lambda>file.
     vseq (vcheck (readable (of_flags file)) PermissionDenied)
    (vbind (vget (valid_vnode (of_vnode_id file))) (\<lambda>valid.
     vseq (vcheck valid BadFd)
    (if len = 0 then vret []
     else
       let vid = of_vnode_id file; offset = of_offset file
       in vbind (node_at vid) (\<lambda>n.
         if vn_fs_type n = ProcFS then read_procfs env fd vid offset len
         else
           case get_dev_type n of
             Some dt \<Rightarrow>
               vbind (on_world (e_dev_read env dt len offset)) (\<lambda>r.
               vbind (case r of Inr bytes \<Rightarrow> vret bytes | Inl e \<Rightarrow> vfail e) (\<lambda>bytes.
               vseq (advance_fd env fd (length bytes)) (vret bytes)))
           | None \<Rightarrow>
               vseq (vcheck (\<not> is_dir n) IsDirectory)
              (if is_ext_backed n then read_ext2_file env fd vid offset len
               else
                 vbind (case vn_static_data n of
                          Some sd \<Rightarrow> vret (read_static sd offset len)
                        | None \<Rightarrow> read_tmpfs vid offset len) (\<lambda>bytes.
                 if vn_static_data n = None \<and> offset \<ge> vn_size n then vret []
                 else
                   vseq (upd_node vid (touch_atime (e_now env)))
                  (vseq (advance_fd env fd (length bytes)) (vret bytes))))))))))"

definition read_at_vnode :: "'w env \<Rightarrow> nat \<Rightarrow> u64 \<Rightarrow> nat \<Rightarrow> ('w vfs, u8 list) vop" where
  "read_at_vnode env vid offset len =
     vbind (vget (valid_vnode vid)) (\<lambda>valid.
       if \<not> valid \<or> len = 0 then vret []
       else
         vbind (node_at vid) (\<lambda>n.
         vseq (vcheck (\<not> is_dir n) IsDirectory)
        (if is_ext_backed n
         then
           vbind (on_world (e_ext_read_at env (vn_ext2_ino n) offset len)) (\<lambda>r.
           case r of ExtOk (bytes, _) \<Rightarrow> vret bytes | ExtErr e \<Rightarrow> vfail e | ExtNone \<Rightarrow> vfail IoError)
         else
           case vn_static_data n of
             Some sd \<Rightarrow> vret (read_static sd offset len)
           | None \<Rightarrow> read_tmpfs vid offset len)))"

definition fd_backing :: "'w env \<Rightarrow> nat \<Rightarrow> ('w vfs, (nat \<times> u64) option) vop" where
  "fd_backing env fd =
     vbind (fds env) (\<lambda>t.
       case fd_get fd t of
         Inl _ \<Rightarrow> vret None
       | Inr file \<Rightarrow>
           let vid = of_vnode_id file
           in vbind (vget (\<lambda>s. valid_vnode vid s \<and> \<not> is_dir (v_nodes s ! vid))) (\<lambda>ok.
             if \<not> ok then vret None
             else
               vbind (node_at vid) (\<lambda>n.
               vseq (if is_ext_backed n
                     then vbind (on_world (e_ext_inode env (vn_ext2_ino n))) (\<lambda>r.
                            case r of
                              ExtOk (sz, _) \<Rightarrow> if sz > 0 then upd_node vid (\<lambda>n. n\<lparr>vn_size := sz\<rparr>) else vret ()
                            | _ \<Rightarrow> vret ())
                     else vret ())
              (vbind (node_at vid) (\<lambda>n. vret (Some (vid, vn_size n)))))))"

section \<open>Writing\<close>

definition alloc_page_op :: "('w vfs, nat) vop" where
  "alloc_page_op =
     (\<lambda>s. case alloc_page (v_page_cache s) of None \<Rightarrow> None | Some (r, pc) \<Rightarrow> Some (r, s\<lparr>v_page_cache := pc\<rparr>))"

text \<open>The page of a file, allocated and entered into its table if it is missing.\<close>

definition page_for_write :: "nat \<Rightarrow> nat \<Rightarrow> ('w vfs, nat) vop" where
  "page_for_write vid page_num =
     vbind (node_at vid) (\<lambda>n.
       case get_page page_num (vn_addr_space n) of
         Some pid \<Rightarrow> vret pid
       | None \<Rightarrow>
           vbind alloc_page_op (\<lambda>pid.
           vbind (node_at vid) (\<lambda>n.
           case set_page page_num pid (vn_addr_space n) of
             (Inr _, sp) \<Rightarrow> vseq (upd_node vid (\<lambda>n. n\<lparr>vn_addr_space := sp\<rparr>)) (vret pid)
           | (Inl e, sp) \<Rightarrow> vseq (upd_node vid (\<lambda>n. n\<lparr>vn_addr_space := sp\<rparr>)) (vfail e))))"

definition put_chunk :: "nat \<Rightarrow> nat \<Rightarrow> u8 list \<Rightarrow> ('w vfs, unit) vop" where
  "put_chunk pid page_off bytes =
     vcall (\<lambda>s. case get_page_data_mut pid (copy_at page_off bytes) (v_page_cache s) of
       (True, pc) \<Rightarrow> (Inr (), s\<lparr>v_page_cache := mark_dirty pid pc\<rparr>)
     | (False, pc) \<Rightarrow> (Inl IoError, s\<lparr>v_page_cache := pc\<rparr>))"

text \<open>The copy loop shared by \<open>write\<close> and \<open>write_at_vnode\<close>.\<close>

function write_loop :: "nat \<Rightarrow> nat \<Rightarrow> u8 list \<Rightarrow> ('w vfs, unit) vop" where
  "write_loop vid off data =
     (if data = [] then vret ()
      else
        let page_num = off div PAGE_SIZE; page_off = off mod PAGE_SIZE;
            chunk = min (PAGE_SIZE - page_off) (length data)
        in vbind (page_for_write vid page_num) (\<lambda>pid.
           vseq (put_chunk pid page_off (take chunk data))
                (write_loop vid (off + chunk) (drop chunk data))))"
  by pat_completeness auto
termination
  by (relation "measure (\<lambda>(vid, off, data). length data)") (auto simp: PAGE_SIZE_def)

declare write_loop.simps [simp del]

definition write_tmpfs :: "nat \<Rightarrow> nat \<Rightarrow> u8 list \<Rightarrow> ('w vfs, nat) vop" where
  "write_tmpfs vid offset data =
     vseq (vcheck (offset < max_size) FileTooLarge)
    (let to_write = min (length data) (max_size - offset)
     in vseq (write_loop vid offset (take to_write data))
       (vseq (upd_node vid (\<lambda>n. if of_nat (offset + to_write) > vn_size n then n\<lparr>vn_size := of_nat (offset + to_write)\<rparr> else n))
             (vret to_write)))"

definition write_at_vnode :: "'w env \<Rightarrow> nat \<Rightarrow> u64 \<Rightarrow> u8 list \<Rightarrow> ('w vfs, nat) vop" where
  "write_at_vnode env vid offset buf =
     vbind (vget (valid_vnode vid)) (\<lambda>valid.
       if \<not> valid \<or> buf = [] then vret 0
       else
         vbind (node_at vid) (\<lambda>n.
         vseq (vcheck (\<not> is_dir n) IsDirectory)
        (vseq (vcheck (\<not> is_readonly_fs n) ReadOnly)
        (vseq (vcheck (\<not> (vn_static_data n \<noteq> None \<or> vf_immutable (vn_flags n))) PermissionDenied)
        (if is_ext_backed n
         then
           vbind (on_world (e_ext2_write_file env (vn_ext2_ino n) buf offset)) (\<lambda>r.
           case r of ExtOk k \<Rightarrow> vret k | ExtErr e \<Rightarrow> vfail e | ExtNone \<Rightarrow> vfail IoError)
         else write_tmpfs vid (unat offset) buf)))))"

definition write_ext2_file :: "'w env \<Rightarrow> nat \<Rightarrow> nat \<Rightarrow> u64 \<Rightarrow> u8 list \<Rightarrow> ('w vfs, nat) vop" where
  "write_ext2_file env fd vid offset data =
     vbind (fds env) (\<lambda>t.
     vbind (node_at vid) (\<lambda>n.
     let is_sync = (case fd_get fd t of Inr f \<Rightarrow> flags_has (of_flags f) O_SYNC | Inl _ \<Rightarrow> False)
     in
     vbind (on_world (e_ext3_write_file env (vn_ext2_ino n) data offset)) (\<lambda>r.
     vbind (case r of ExtOk k \<Rightarrow> vret k | ExtErr e \<Rightarrow> vfail e | ExtNone \<Rightarrow> vfail IoError) (\<lambda>k.
     let new_end = offset + of_nat k
     in
     vseq (upd_node vid (\<lambda>n. if new_end > vn_size n then n\<lparr>vn_size := new_end\<rparr> else n))
    (vseq (upd_node vid (touch_mtime (e_now env)))
    (vseq (if is_sync
           then vseq (vbind (on_world (e_ext_sync env)) (\<lambda>_. vret ()))
                     (upd_node vid (\<lambda>n. n\<lparr>vn_flags := (vn_flags n)\<lparr>vf_dirty := False\<rparr>\<rparr>))
           else vret ())
    (vseq (on_fds env (fd_modify fd (\<lambda>f. f\<lparr>of_offset := new_end\<rparr>)))
          (vret k))))))))"

definition vfs_write :: "'w env \<Rightarrow> nat \<Rightarrow> u8 list \<Rightarrow> ('w vfs, nat) vop" where
  "vfs_write env fd data =
     vbind (fds env) (\<lambda>t.
     vbind (case fd_get fd t of Inr f \<Rightarrow> vret f | Inl e \<Rightarrow> vfail e) (\<lambda>file.
     vseq (vcheck (writable (of_flags file)) PermissionDenied)
    (let vid = of_vnode_id file;
         is_append = flags_has (of_flags file) O_APPEND; is_sync = flags_has (of_flags file) O_SYNC
     in
     vbind (vget (valid_vnode vid)) (\<lambda>valid.
     vseq (vcheck valid BadFd)
    (if data = [] then vret 0
     else
       vbind (node_at vid) (\<lambda>n.
       vseq (vcheck (vn_fs_type n \<noteq> ProcFS) ReadOnly)
      (case get_dev_type n of
         Some dt \<Rightarrow>
           vbind (on_world (e_dev_write env dt data (of_offset file))) (\<lambda>r.
           vbind (case r of Inr k \<Rightarrow> vret k | Inl e \<Rightarrow> vfail e) (\<lambda>k.
           vseq (advance_fd env fd k) (vret k)))
       | None \<Rightarrow>
           vseq (vcheck (\<not> is_dir n) IsDirectory)
          (vseq (vcheck (\<not> vf_immutable (vn_flags n)) PermissionDenied)
          (vseq (if is_append \<and> is_ext_backed n
                 then vbind (on_world (e_ext_inode env (vn_ext2_ino n))) (\<lambda>r.
                        case r of
                          ExtOk (sz, _) \<Rightarrow> upd_node vid (\<lambda>n. n\<lparr>vn_size := sz\<rparr>)
                        | ExtErr _ \<Rightarrow> upd_node vid (\<lambda>n. n\<lparr>vn_size := 0\<rparr>)
                        | ExtNone \<Rightarrow> vret ())
                 else vret ())
          (vbind (node_at vid) (\<lambda>n.
           let offset = (if is_append \<or> vf_append_only (vn_flags n) then vn_size n else of_offset file)
           in
             if is_ext_backed n then write_ext2_file env fd vid offset data
             else
               vbind (write_tmpfs vid (unat offset) data) (\<lambda>k.
               vseq (upd_node vid (touch_mtime (e_now env)))
              (vseq (on_fds env (fd_modify fd (\<lambda>f. f\<lparr>of_offset := of_nat (unat offset + k)\<rparr>)))
              (vseq (if is_sync then upd_node vid (\<lambda>n. n\<lparr>vn_flags := (vn_flags n)\<lparr>vf_dirty := False\<rparr>\<rparr>) else vret ())
                    (vret k)))))))))))))))"

section \<open>Seeking, syncing, unlinking\<close>

datatype seek_from = Start u64 | Current "64 word" | End "64 word"

text \<open>The offset is computed in \<open>i64\<close>; a negative one is refused.\<close>

definition vfs_seek :: "'w env \<Rightarrow> nat \<Rightarrow> seek_from \<Rightarrow> ('w vfs, u64) vop" where
  "vfs_seek env fd whence =
     vbind (fds env) (\<lambda>t.
     vbind (case fd_get fd t of Inr f \<Rightarrow> vret f | Inl e \<Rightarrow> vfail e) (\<lambda>file.
     vbind (vget (valid_vnode (of_vnode_id file))) (\<lambda>valid.
     vseq (vcheck valid BadFd)
    (vbind (node_at (of_vnode_id file)) (\<lambda>n.
     let new_offset = (case whence of Start pos \<Rightarrow> pos | Current d \<Rightarrow> of_offset file + d | End d \<Rightarrow> vn_size n + d)
     in
     vseq (vcheck (\<not> sint new_offset < 0) SeekError)
    (vseq (on_fds env (fd_modify fd (\<lambda>f. f\<lparr>of_offset := new_offset\<rparr>)))
          (vret new_offset)))))))"

definition vfs_fsync :: "'w env \<Rightarrow> nat \<Rightarrow> ('w vfs, unit) vop" where
  "vfs_fsync env fd =
     vbind (fds env) (\<lambda>t.
     vbind (case fd_get fd t of Inr f \<Rightarrow> vret (of_vnode_id f) | Inl e \<Rightarrow> vfail e) (\<lambda>vid.
     vbind (vget (valid_vnode vid)) (\<lambda>valid.
     vseq (vcheck valid BadFd)
    (vbind (node_at vid) (\<lambda>n.
     vseq (if is_ext_family (vn_fs_type n)
           then vbind (on_world (e_ext_sync env)) (\<lambda>r.
                  case r of ExtOk _ \<Rightarrow> vret () | ExtErr e \<Rightarrow> vfail e | ExtNone \<Rightarrow> vfail IoError)
           else vret ())
    (vseq (case get_dev_type n of
             Some (Block dev _) \<Rightarrow>
               vbind (on_world (e_dev_flush env dev)) (\<lambda>r. case r of Inr _ \<Rightarrow> vret () | Inl _ \<Rightarrow> vfail IoError)
           | _ \<Rightarrow> vret ())
          (upd_node vid (\<lambda>n. n\<lparr>vn_flags := (vn_flags n)\<lparr>vf_dirty := False\<rparr>\<rparr>))))))))"

definition unlink_node :: "'w env \<Rightarrow> u8 list \<Rightarrow> nat \<Rightarrow> ('w vfs, unit) vop" where
  "unlink_node env ename i =
     vbind (node_at i) (\<lambda>n.
     vseq (vcheck (\<not> is_dir n) IsDirectory)
    (vseq (vcheck (\<not> is_readonly_fs n) ReadOnly)
    (vseq (vcheck (\<not> vf_immutable (vn_flags n)) PermissionDenied)
    (let pid = vn_parent n
     in
     vseq (check_dir_write pid)
    (vbind (node_at pid) (\<lambda>p.
     vseq (if is_ext_backed n \<and> vn_ext2_ino p \<noteq> 0 \<and> vn_refcount n = 0
           then vbind (on_world (e_ext_delete_file env (vn_ext2_ino p) ename)) (ext_expect IoError)
           else vret ())
    (vseq (upd_node pid (\<lambda>p. p\<lparr>vn_children := snd (remove_by_name ename (vn_children p))\<rparr>))
    (vseq (upd_node pid (touch_mtime (e_now env)))
    (vseq (upd_node i (\<lambda>n. n\<lparr>vn_nlinks := saturating_sub (vn_nlinks n) 1\<rparr>))
    (vbind (node_at i) (\<lambda>n.
       if vn_nlinks n = 0 \<and> vn_refcount n = 0 then release_node i
       else upd_node i (touch_ctime (e_now env)))))))))))))"

definition vfs_unlink :: "'w env \<Rightarrow> nat \<Rightarrow> u8 list \<Rightarrow> ('w vfs, unit) vop" where
  "vfs_unlink env cwd path =
     vbind (resolve_path_lstat env cwd path)
       (unlink_node env (case rfind_slash path of Some pos \<Rightarrow> drop (pos + 1) path | None \<Rightarrow> path))"

section \<open>Files by path\<close>

text \<open>The driver's read loop of \<open>read_path\<close> runs under one \<open>with_ext2_pub\<close>, so it is one call
  of the environment.\<close>

definition read_path :: "'w env \<Rightarrow> u8 list \<Rightarrow> ('w vfs, u8 list) vop" where
  "read_path env path =
     vbind (resolve_path_follow env 0 path) (\<lambda>vid.
     vbind (node_at vid) (\<lambda>n.
     vseq (vcheck (\<not> is_dir n) IsDirectory)
    (if is_ext_backed n
     then
       vbind (on_world (e_ext_read_all env (vn_ext2_ino n))) (\<lambda>r.
       case r of ExtOk bytes \<Rightarrow> vret bytes | ExtErr e \<Rightarrow> vfail e | ExtNone \<Rightarrow> vfail IoError)
     else
       case vn_static_data n of
         Some sd \<Rightarrow> vseq (vcheck (e_can_reserve env (length sd)) NoSpace) (vret sd)
       | None \<Rightarrow>
           vseq (vcheck (e_can_reserve env (unat (vn_size n))) NoSpace)
          (vcall (\<lambda>s. case read_pages (vn_addr_space n) 0 (unat (vn_size n)) (v_page_cache s) of
             (bytes, pc) \<Rightarrow> (Inr bytes, s\<lparr>v_page_cache := pc\<rparr>))))))"

definition path_size :: "'w env \<Rightarrow> u8 list \<Rightarrow> ('w vfs, u64) vop" where
  "path_size env path =
     vbind (resolve_path_follow env 0 path) (\<lambda>vid.
     vbind (node_at vid) (\<lambda>n.
     vseq (vcheck (\<not> is_dir n) IsDirectory)
    (if is_ext_backed n
     then
       vbind (on_world (e_ext_inode env (vn_ext2_ino n))) (\<lambda>r.
       case r of ExtOk (sz, _) \<Rightarrow> vret sz | _ \<Rightarrow> vfail IoError)
     else vret (vn_size n))))"

text \<open>An existing directory of that name is pointed at the new inode; otherwise a fresh node is
  entered, and a refusal of the parent's table is not looked at.\<close>

definition graft_ext_dir :: "'w env \<Rightarrow> u8 list \<Rightarrow> u8 list \<Rightarrow> u32 \<Rightarrow> ('w vfs, nat) vop" where
  "graft_ext_dir env parent_path name ext_ino =
     vbind (resolve_path env 0 parent_path) (\<lambda>parent.
     vbind (node_at parent) (\<lambda>p.
     vseq (vcheck (is_dir p) NotDirectory)
    (vbind (vget (\<lambda>s. e_ext_fs_type env (v_world s))) (\<lambda>fs.
     vseq (vmod (\<lambda>s. s\<lparr>v_ext2_mount_active := True\<rparr>))
    (vbind (vtry (resolve_path env parent name)) (\<lambda>r.
     vbind (case r of
              Inr existing \<Rightarrow> vbind (node_at existing) (\<lambda>n. vret (if is_dir n then Some existing else None))
            | Inl _ \<Rightarrow> vret None) (\<lambda>found.
       case found of
         Some existing \<Rightarrow>
           vseq (upd_node existing (\<lambda>n. n\<lparr>vn_ext2_ino := ext_ino, vn_fs_type := fs, vn_children_loaded := False\<rparr>))
                (vret existing)
       | None \<Rightarrow>
           vbind alloc_vnode (\<lambda>nid.
           vseq (upd_node nid (\<lambda>_. (vn_init nid parent name Directory fs (mode_new 0x1ED) 0 0 (e_now env))
                   \<lparr>vn_ext2_ino := ext_ino, vn_children_loaded := False\<rparr>))
          (vseq (upd_node parent (\<lambda>p. p\<lparr>vn_children := snd (ch_insert name nid (vn_children p))\<rparr>))
                (vret nid))))))))))"

end
