(* ===== verification/DirOps.thy ===== *)
theory DirOps
  imports FileOps
begin

text \<open>
  Operations on directories and names: \<open>core/dir_ops.rs\<close>, \<open>core/links.rs\<close>, the bulk loading of
  \<open>core/ext2_bridge.rs\<close>, the eviction of \<open>core/vnode_mgmt.rs\<close> and the immutable walker of
  \<open>path.rs\<close>, under \<open>kernel/fs/vfs\<close>. The two loops that the tree structure alone would bound,
  eviction and the climb to the root in \<open>rename\<close>, are partial functions: \<open>None\<close> is a loop that
  does not end or an index out of range.
\<close>

section \<open>Loading the entries of an ext directory\<close>

abbreviation EXT_BATCH :: nat where "EXT_BATCH \<equiv> 256"

definition lost_found :: "u8 list" where
  "lost_found = [0x6C, 0x6F, 0x73, 0x74, 0x2B, 0x66, 0x6F, 0x75, 0x6E, 0x64]"

text \<open>The environment yields the directory's entries whose inodes could be read, in order.\<close>

definition child_infos :: "(u8 list \<times> ext_child) list \<Rightarrow> (u8 list \<times> ext_child) list" where
  "child_infos entries =
     map (\<lambda>(n, info). (take 255 n, info))
       (take EXT_BATCH (filter (\<lambda>(n, _). \<not> (n = dot \<or> n = dotdot \<or> n = lost_found)) entries))"

definition load_child :: "'w env \<Rightarrow> nat \<Rightarrow> u8 list \<times> ext_child \<Rightarrow> ('w vfs, unit) vop" where
  "load_child env dir_vnode ci =
     (case ci of (name, info) \<Rightarrow>
        if \<not> utf8_ok name then vret ()
        else
          vbind (node_at dir_vnode) (\<lambda>d.
          vbind (vget (live_child d name)) (\<lambda>already.
            if already \<noteq> None then vret ()
            else
              vbind (vtry alloc_vnode) (\<lambda>r.
                case r of
                  Inr nid \<Rightarrow> vbind (add_ext_child env dir_vnode name info nid) (\<lambda>_. vret ())
                | Inl _ \<Rightarrow> vret ()))))"

fun load_all :: "'w env \<Rightarrow> nat \<Rightarrow> (u8 list \<times> ext_child) list \<Rightarrow> ('w vfs, unit) vop" where
  "load_all env dir_vnode [] = vret ()"
| "load_all env dir_vnode (ci # cis) = vseq (load_child env dir_vnode ci) (load_all env dir_vnode cis)"

definition ext2_ensure_children_loaded :: "'w env \<Rightarrow> nat \<Rightarrow> ('w vfs, unit) vop" where
  "ext2_ensure_children_loaded env dir_vnode =
     vbind (node_at dir_vnode) (\<lambda>d.
     vseq (vcheck (is_dir d) NotDirectory)
    (if \<not> is_ext_family (vn_fs_type d) \<or> vn_children_loaded d \<or> vn_ext2_ino d = 0 then vret ()
     else
       vbind (on_world (e_ext_read_dir env (vn_ext2_ino d))) (\<lambda>r.
       vbind (case r of ExtOk es \<Rightarrow> vret (child_infos es) | ExtErr _ \<Rightarrow> vfail IoError | ExtNone \<Rightarrow> vfail NotFound) (\<lambda>cis.
       vseq (load_all env dir_vnode cis)
      (if length cis < EXT_BATCH then upd_node dir_vnode (\<lambda>d. d\<lparr>vn_children_loaded := True\<rparr>) else vret ())))))"

section \<open>Eviction\<close>

text \<open>The children that \<open>evict_ext2_children\<close> and \<open>evict_children_recursive\<close> collect first: the
  second takes nodes of every kind and frees their pages.\<close>

definition to_evict :: "bool \<Rightarrow> nat \<Rightarrow> 'w vfs \<Rightarrow> nat list" where
  "to_evict all dir_id s =
     filter (\<lambda>c. valid_vnode c s \<and> (all \<or> is_ext_family (vn_fs_type (v_nodes s ! c))) \<and> vn_refcount (v_nodes s ! c) = 0)
       (map snd (ch_iter (vn_children (v_nodes s ! dir_id))))"

definition evict_child :: "bool \<Rightarrow> nat \<Rightarrow> nat \<Rightarrow> 'w vfs \<Rightarrow> 'w vfs" where
  "evict_child all dir_id c s =
     (let n = v_nodes s ! c;
          s1 = (if all then s\<lparr>v_page_cache := fold free_page (map snd (iter_pages (vn_addr_space n))) (v_page_cache s)\<rparr> else s);
          d = v_nodes s1 ! dir_id;
          ns = (v_nodes s1)[dir_id := d\<lparr>vn_children := snd (ch_remove (name_hash (get_name n)) c (vn_children d))\<rparr>]
      in s1\<lparr>v_nodes := ns[c := (ns ! c)\<lparr>vn_active := False\<rparr>]\<rparr>)"

partial_function (option) evict_loop :: "bool \<Rightarrow> nat \<Rightarrow> nat list \<Rightarrow> 'w vfs \<Rightarrow> 'w vfs option" where
  "evict_loop all dir_id cs s =
     (case cs of
        [] \<Rightarrow> Some (s\<lparr>v_nodes := (v_nodes s)[dir_id := (v_nodes s ! dir_id)\<lparr>vn_children_loaded := False\<rparr>]\<rparr>)
      | c # cs' \<Rightarrow>
          if valid_vnode c s
          then Option.bind (if is_dir (v_nodes s ! c) then evict_loop all c (to_evict all c s) s else Some s)
                 (\<lambda>s1. evict_loop all dir_id cs' (evict_child all dir_id c s1))
          else evict_loop all dir_id cs' s)"

definition evict_ext2_children :: "nat \<Rightarrow> 'w vfs \<Rightarrow> 'w vfs option" where
  "evict_ext2_children dir_id s =
     (if dir_id < MAX_VNODES then evict_loop False dir_id (to_evict False dir_id s) s else None)"

definition evict_children_recursive :: "nat \<Rightarrow> 'w vfs \<Rightarrow> 'w vfs option" where
  "evict_children_recursive dir_id s =
     (if dir_id < MAX_VNODES then evict_loop True dir_id (to_evict True dir_id s) s else None)"

section \<open>Directories\<close>

definition vfs_mkdir :: "'w env \<Rightarrow> nat \<Rightarrow> u8 list \<Rightarrow> file_mode \<Rightarrow> ('w vfs, nat) vop" where
  "vfs_mkdir env parent name mode =
     vseq (validate_name name)
    (vbind (vget (\<lambda>s. apply_umask mode (pc_umask (v_ctx s)))) (\<lambda>applied_mode.
     new_child env parent name Directory applied_mode (\<lambda>n. n)
       (\<lambda>parent_ino. e_ext_create_dir env parent_ino name applied_mode)
       (\<lambda>parent_ino. e_ext_delete_dir env parent_ino name)
       (\<lambda>p. p\<lparr>vn_nlinks := vn_nlinks p + 1\<rparr>)))"

definition vfs_rmdir :: "'w env \<Rightarrow> nat \<Rightarrow> u8 list \<Rightarrow> ('w vfs, unit) vop" where
  "vfs_rmdir env cwd path =
     vbind (resolve_path env cwd path) (\<lambda>i.
     vbind (node_at i) (\<lambda>n.
     vseq (vcheck (is_dir n) NotDirectory)
    (vseq (vcheck (i \<noteq> 0) PermissionDenied)
    (vseq (vcheck (\<not> is_readonly_fs n) ReadOnly)
    (vseq (vcheck (\<not> vf_immutable (vn_flags n)) PermissionDenied)
    (vseq (if is_ext_backed n \<and> \<not> vn_children_loaded n then ext2_ensure_children_loaded env i else vret ())
    (vbind (node_at i) (\<lambda>n.
     vseq (vcheck (is_dir_empty n) NotEmpty)
    (let pid = vn_parent n
     in
     vseq (check_dir_write pid)
    (vbind (node_at pid) (\<lambda>p.
     vseq (if is_ext_backed n \<and> vn_ext2_ino p \<noteq> 0
           then vbind (on_world (e_ext_delete_dir env (vn_ext2_ino p) (take NAME_LEN (get_name n)))) (ext_expect IoError)
           else vret ())
    (vseq (upd_node pid (\<lambda>p. p\<lparr>vn_children := snd (ch_remove (name_hash (get_name n)) i (vn_children p))\<rparr>))
    (vseq (upd_node pid (\<lambda>p. if vn_nlinks p > 0 then p\<lparr>vn_nlinks := vn_nlinks p - 1\<rparr> else p))
    (vseq (upd_node pid (touch_mtime (e_now env)))
    (vseq (upd_node i (\<lambda>n. n\<lparr>vn_nlinks := 0, vn_active := False\<rparr>))
          (lower_hint i))))))))))))))))"

record dir_entry =
  de_name :: "u8 list"
  de_name_len :: nat
  de_inode_id :: nat
  de_kind :: VNodeKind
  de_offset :: nat

definition de_from_name :: "u8 list \<Rightarrow> nat \<Rightarrow> VNodeKind \<Rightarrow> dir_entry" where
  "de_from_name nm i kind =
     \<lparr>de_name = copy_at 0 (take NAME_LEN nm) (replicate NAME_LEN 0), de_name_len = min (length nm) NAME_LEN,
      de_inode_id = i, de_kind = kind, de_offset = 0\<rparr>"

text \<open>The caller's buffer has room for \<open>cap\<close> entries; the entries written to it are returned.\<close>

definition vfs_readdir :: "'w env \<Rightarrow> nat \<Rightarrow> nat \<Rightarrow> ('w vfs, dir_entry list) vop" where
  "vfs_readdir env dir_id cap =
     vbind (vget (valid_vnode dir_id)) (\<lambda>valid.
     vseq (vcheck valid NotFound)
    (vbind (node_at dir_id) (\<lambda>d.
     vseq (vcheck (is_dir d) NotDirectory)
    (vseq (if is_ext_family (vn_fs_type d) \<and> \<not> vn_children_loaded d then ext2_ensure_children_loaded env dir_id else vret ())
    (vget (\<lambda>s.
       let d = v_nodes s ! dir_id;
           par = (if valid_vnode (vn_parent d) s then vn_parent d else dir_id);
           cs = filter (\<lambda>c. valid_vnode c s) (map snd (ch_iter (vn_children d)));
           es = de_from_name dot dir_id Directory # de_from_name dotdot par Directory
                # map (\<lambda>c. de_from_name (get_name (v_nodes s ! c)) c (vn_kind (v_nodes s ! c))) cs
       in map (\<lambda>(k, e). e\<lparr>de_offset := k\<rparr>) (enumerate 0 (take cap es))))))))"

text \<open>The climb of \<open>rename\<close> from the new parent to the root: is \<open>i\<close> among the ancestors?\<close>

partial_function (option) climbs_to :: "vnode list \<Rightarrow> nat \<Rightarrow> nat \<Rightarrow> bool option" where
  "climbs_to ns i cur =
     (if cur = i then Some True
      else if cur \<ge> MAX_VNODES then None
      else if vn_parent (ns ! cur) = cur \<or> cur = 0 then Some False
      else climbs_to ns i (vn_parent (ns ! cur)))"

definition check_not_inside :: "nat \<Rightarrow> nat \<Rightarrow> ('w vfs, unit) vop" where
  "check_not_inside i new_pid =
     (\<lambda>s. case climbs_to (v_nodes s) i new_pid of
        None \<Rightarrow> None
      | Some inside \<Rightarrow> Some (if inside then Inl InvalidArgument else Inr (), s))"

text \<open>The move itself: the entry leaves the old directory and enters the new one; when the new
  table refuses it, names and entry are put back.\<close>

definition move_entry :: "'w env \<Rightarrow> nat \<Rightarrow> nat \<Rightarrow> nat \<Rightarrow> u8 list \<Rightarrow> ('w vfs, unit) vop" where
  "move_entry env i old_pid new_pid new_base =
     vbind (node_at i) (\<lambda>n.
     let old_name = nb_bytes (vn_name n)
     in
     vseq (upd_node old_pid (\<lambda>p. p\<lparr>vn_children := snd (remove_by_name old_name (vn_children p))\<rparr>))
    (vseq (upd_node i (\<lambda>n. n\<lparr>vn_name := nb_from_str new_base, vn_parent := new_pid\<rparr>))
    (vbind (node_at new_pid) (\<lambda>q.
     case ch_insert new_base i (vn_children q) of (ok, ch) \<Rightarrow>
     vseq (upd_node new_pid (\<lambda>q. q\<lparr>vn_children := ch\<rparr>))
    (if ok then vret ()
     else if \<not> utf8_ok old_name then vseq (upd_node i (\<lambda>n. n\<lparr>vn_active := False\<rparr>)) (vfail Corrupted)
     else
       vseq (upd_node i (\<lambda>n. n\<lparr>vn_name := nb_from_str old_name, vn_parent := old_pid\<rparr>))
      (vseq (upd_node old_pid (\<lambda>p. p\<lparr>vn_children := snd (ch_insert old_name i (vn_children p))\<rparr>))
      (vbind (node_at i) (\<lambda>n.
       vbind (node_at old_pid) (\<lambda>p.
       vseq (if is_ext_backed n \<and> vn_ext2_ino p \<noteq> 0
             then vbind (on_world (e_ext_rename env (vn_ext2_ino p) new_base old_name)) (\<lambda>_. vret ())
             else vret ())
            (vfail NoSpace)))))))))) "

definition vfs_rename :: "'w env \<Rightarrow> nat \<Rightarrow> u8 list \<Rightarrow> u8 list \<Rightarrow> ('w vfs, unit) vop" where
  "vfs_rename env cwd old new_path =
     vbind (resolve_path env cwd old) (\<lambda>i.
     vbind (node_at i) (\<lambda>n.
     vseq (vcheck (\<not> is_readonly_fs n) ReadOnly)
    (vseq (vcheck (\<not> vf_immutable (vn_flags n)) PermissionDenied)
    (let old_pid = vn_parent n
     in
     vbind (split_path env cwd new_path) (\<lambda>(new_pid, new_base).
     vseq (validate_name new_base)
    (vbind (node_at new_pid) (\<lambda>q.
     vseq (vcheck (is_dir q) NotDirectory)
    (vbind (node_at i) (\<lambda>n.
     vseq (vcheck (vn_fs_type q = vn_fs_type n) CrossDevice)
    (vseq (check_dir_write old_pid)
    (vseq (if new_pid \<noteq> old_pid then check_dir_write new_pid else vret ())
    (vseq (if is_dir n then check_not_inside i new_pid else vret ())
    (vbind (vget (live_child q new_base)) (\<lambda>existing.
     vseq (vcheck (existing = None \<or> existing = Some i) AlreadyExists)
    (vbind (node_at old_pid) (\<lambda>p.
     vseq (if is_ext_backed n \<and> vn_ext2_ino p \<noteq> 0 \<and> vn_ext2_ino n \<noteq> 0
           then
             vseq (vcheck (new_pid = old_pid) CrossDevice)
            (vbind (on_world (e_ext_rename env (vn_ext2_ino p) (take NAME_LEN (get_name n)) new_base)) (ext_expect IoError))
           else vret ())
    (vseq (move_entry env i old_pid new_pid new_base)
    (vseq (if new_pid \<noteq> old_pid \<and> is_dir n
           then
             vseq (upd_node old_pid (\<lambda>p. if vn_nlinks p > 0 then p\<lparr>vn_nlinks := vn_nlinks p - 1\<rparr> else p))
            (vseq (upd_node new_pid (\<lambda>q. q\<lparr>vn_nlinks := saturating_add (vn_nlinks q) 1\<rparr>))
                  (upd_node old_pid (touch_mtime (e_now env))))
           else vret ())
    (vseq (upd_node i (touch_ctime (e_now env)))
          (upd_node new_pid (touch_mtime (e_now env))))))))))))))))))))))"

section \<open>Links\<close>

definition vfs_symlink :: "'w env \<Rightarrow> nat \<Rightarrow> u8 list \<Rightarrow> u8 list \<Rightarrow> ('w vfs, nat) vop" where
  "vfs_symlink env parent linkname target =
     vseq (validate_name linkname)
    (vseq (vcheck (\<not> (target = [] \<or> length target > NAME_LEN)) NameTooLong)
    (new_child env parent linkname Symlink 0x1FF
       (\<lambda>n. n\<lparr>vn_symlink_target := nb_from_str target, vn_size := of_nat (length target)\<rparr>)
       (\<lambda>parent_ino. e_ext_create_symlink env parent_ino linkname target)
       (\<lambda>parent_ino. e_ext_delete_file env parent_ino linkname) (\<lambda>p. p)))"

definition vfs_readlink :: "'w env \<Rightarrow> nat \<Rightarrow> u8 list \<Rightarrow> ('w vfs, name_buf) vop" where
  "vfs_readlink env cwd path =
     vbind (resolve_path_lstat env cwd path) (\<lambda>i.
     vbind (node_at i) (\<lambda>n.
     vseq (vcheck (is_symlink n) NotSymlink) (vret (vn_symlink_target n))))"

definition vfs_link :: "'w env \<Rightarrow> nat \<Rightarrow> u8 list \<Rightarrow> nat \<Rightarrow> u8 list \<Rightarrow> ('w vfs, unit) vop" where
  "vfs_link env cwd existing_path new_parent new_name =
     vseq (validate_name new_name)
    (vbind (resolve_path_follow env cwd existing_path) (\<lambda>target_id.
     vbind (node_at target_id) (\<lambda>t.
     vseq (vcheck (\<not> is_dir t) IsDirectory)
    (vseq (vcheck (\<not> is_readonly_fs t) ReadOnly)
    (let pid = new_parent
     in
     vbind (node_at pid) (\<lambda>p.
     vseq (vcheck (is_dir p) NotDirectory)
    (vseq (vcheck (vn_fs_type p = vn_fs_type t) CrossDevice)
    (vseq (check_dir_write pid)
    (vseq (ensure_no_duplicate env pid new_name)
    (vseq (if is_ext_backed p \<and> vn_ext2_ino p \<noteq> 0 \<and> vn_ext2_ino t \<noteq> 0
           then vbind (on_world (e_ext_hardlink env (vn_ext2_ino p) new_name (vn_ext2_ino t))) (ext_expect IoError)
           else vret ())
    (vbind (node_at pid) (\<lambda>p.
     case ch_insert new_name target_id (vn_children p) of (ok, ch) \<Rightarrow>
     vseq (upd_node pid (\<lambda>p. p\<lparr>vn_children := ch\<rparr>))
    (if ok
     then
       vseq (upd_node target_id (\<lambda>t. touch_ctime (e_now env) (t\<lparr>vn_nlinks := vn_nlinks t + 1\<rparr>)))
            (upd_node pid (touch_mtime (e_now env)))
     else
       vseq (if is_ext_backed p \<and> vn_ext2_ino p \<noteq> 0
             then vbind (on_world (e_ext_delete_file env (vn_ext2_ino p) new_name)) (\<lambda>_. vret ()) else vret ())
            (vfail NoSpace)))))))))))))) "

end
