(* ===== verification/Attr.thy ===== *)
theory Attr
  imports DirOps
begin

text \<open>
  Attributes (\<open>core/attr.rs\<close>), the walker over the node array that \<open>statfs\<close> uses (\<open>path.rs\<close>)
  and the reading end of a pipe (\<open>core/mod.rs\<close>), under \<open>kernel/fs/vfs\<close>.
\<close>

section \<open>Attributes\<close>

definition ext2_refresh_size :: "'w env \<Rightarrow> nat \<Rightarrow> ('w vfs, unit) vop" where
  "ext2_refresh_size env i =
     vbind (node_at i) (\<lambda>n.
       if \<not> is_ext_backed n then vret ()
       else
         vbind (on_world (e_ext_inode env (vn_ext2_ino n))) (\<lambda>r.
           case r of
             ExtOk (sz, blocks) \<Rightarrow>
               upd_node i (\<lambda>n. n\<lparr>vn_size := sz, vn_addr_space := (vn_addr_space n)\<lparr>as_nr_pages := blocks\<rparr>\<rparr>)
           | _ \<Rightarrow> vret ()))"

definition stat_node :: "'w env \<Rightarrow> nat \<Rightarrow> ('w vfs, vnode_stat) vop" where
  "stat_node env i = vseq (ext2_refresh_size env i) (vbind (node_at i) (\<lambda>n. vret (vn_stat n)))"

definition vfs_stat :: "'w env \<Rightarrow> nat \<Rightarrow> u8 list \<Rightarrow> ('w vfs, vnode_stat) vop" where
  "vfs_stat env cwd path = vbind (resolve_path_follow env cwd path) (stat_node env)"

definition vfs_lstat :: "'w env \<Rightarrow> nat \<Rightarrow> u8 list \<Rightarrow> ('w vfs, vnode_stat) vop" where
  "vfs_lstat env cwd path = vbind (resolve_path env cwd path) (stat_node env)"

definition vfs_fstat :: "'w env \<Rightarrow> nat \<Rightarrow> ('w vfs, vnode_stat) vop" where
  "vfs_fstat env fd =
     vbind (fds env) (\<lambda>t.
     vbind (case fd_get fd t of Inr f \<Rightarrow> vret (of_vnode_id f) | Inl e \<Rightarrow> vfail e) (\<lambda>vid.
     vbind (vget (valid_vnode vid)) (\<lambda>valid.
     vseq (vcheck valid BadFd) (stat_node env vid))))"

text \<open>The new mode, and the new owner, on disk and in the node.\<close>

definition set_mode :: "'w env \<Rightarrow> nat \<Rightarrow> file_mode \<Rightarrow> ('w vfs, unit) vop" where
  "set_mode env i mode =
     vbind (node_at i) (\<lambda>n.
     vbind (vget (\<lambda>s. pc_cred (v_ctx s))) (\<lambda>cred.
     vseq (vcheck (is_root cred \<or> cr_euid cred = vn_uid n) PermissionDenied)
    (vseq (if is_ext_backed n
           then vbind (on_world (e_ext_chmod env (vn_ext2_ino n) mode)) (ext_expect IoError) else vret ())
          (upd_node i (\<lambda>n. n\<lparr>vn_mode := mode\<rparr>)))))"

definition set_owner :: "'w env \<Rightarrow> nat \<Rightarrow> u16 option \<Rightarrow> u16 option \<Rightarrow> ('w vfs, unit) vop" where
  "set_owner env i uid gid =
     vbind (vget (\<lambda>s. pc_cred (v_ctx s))) (\<lambda>cred.
     vseq (vcheck (is_root cred) PermissionDenied)
    (vbind (node_at i) (\<lambda>n.
     let new_uid = (case uid of Some u \<Rightarrow> u | None \<Rightarrow> vn_uid n);
         new_gid = (case gid of Some g \<Rightarrow> g | None \<Rightarrow> vn_gid n)
     in
     vseq (if is_ext_backed n
           then vbind (on_world (e_ext_chown env (vn_ext2_ino n) new_uid new_gid)) (ext_expect IoError) else vret ())
          (upd_node i (\<lambda>n. n\<lparr>vn_uid := new_uid, vn_gid := new_gid\<rparr>)))))"

definition vfs_chmod :: "'w env \<Rightarrow> nat \<Rightarrow> u8 list \<Rightarrow> file_mode \<Rightarrow> ('w vfs, unit) vop" where
  "vfs_chmod env cwd path mode =
     vbind (resolve_path_follow env cwd path) (\<lambda>i.
     vbind (node_at i) (\<lambda>n.
     vseq (vcheck (\<not> is_readonly_fs n) ReadOnly)
    (vseq (set_mode env i mode)
          (upd_node i (touch_ctime (e_now env))))))"

definition vfs_chown :: "'w env \<Rightarrow> nat \<Rightarrow> u8 list \<Rightarrow> u16 option \<Rightarrow> u16 option \<Rightarrow> ('w vfs, unit) vop" where
  "vfs_chown env cwd path uid gid =
     vbind (resolve_path_follow env cwd path) (\<lambda>i.
     vbind (node_at i) (\<lambda>n.
     vseq (vcheck (\<not> is_readonly_fs n) ReadOnly)
    (vseq (set_owner env i uid gid)
          (upd_node i (touch_ctime (e_now env))))))"

record set_attr =
  sa_mode :: "file_mode option"
  sa_uid :: "u16 option"
  sa_gid :: "u16 option"
  sa_size :: "u64 option"
  sa_atime :: "u64 option"
  sa_mtime :: "u64 option"

definition apply_attr :: "'w env \<Rightarrow> set_attr \<Rightarrow> nat \<Rightarrow> ('w vfs, unit) vop" where
  "apply_attr env attr i =
     vbind (node_at i) (\<lambda>n.
     vseq (vcheck (\<not> is_readonly_fs n) ReadOnly)
    (vseq (vcheck (\<not> vf_immutable (vn_flags n)) PermissionDenied)
    (vseq (case sa_mode attr of Some mode \<Rightarrow> set_mode env i mode | None \<Rightarrow> vret ())
    (vseq (if sa_uid attr \<noteq> None \<or> sa_gid attr \<noteq> None then set_owner env i (sa_uid attr) (sa_gid attr) else vret ())
    (vseq (case sa_size attr of
             Some new_size \<Rightarrow> vbind (node_at i) (\<lambda>n. vseq (vcheck (is_regular n) InvalidArgument) (truncate_to env i new_size))
           | None \<Rightarrow> vret ())
    (vseq (case sa_atime attr of Some t \<Rightarrow> upd_node i (\<lambda>n. n\<lparr>vn_atime := t\<rparr>) | None \<Rightarrow> vret ())
    (vseq (case sa_mtime attr of Some t \<Rightarrow> upd_node i (\<lambda>n. n\<lparr>vn_mtime := t\<rparr>) | None \<Rightarrow> vret ())
          (upd_node i (touch_ctime (e_now env))))))))))"

definition vfs_setattr :: "'w env \<Rightarrow> nat \<Rightarrow> u8 list \<Rightarrow> set_attr \<Rightarrow> ('w vfs, unit) vop" where
  "vfs_setattr env cwd path attr = vbind (resolve_path_follow env cwd path) (apply_attr env attr)"

section \<open>The walker over the node array\<close>

text \<open>\<open>PathWalker\<close> only looks at the nodes; it follows a link to the same depth as the walk
  above, but has no entries loaded and no range check of a parent.\<close>

definition pw_lookup_child :: "nat \<Rightarrow> u8 list \<Rightarrow> ('w vfs, nat) vop" where
  "pw_lookup_child parent name =
     vbind (node_at parent) (\<lambda>p.
     vbind (vget (live_child p name)) (\<lambda>c. case c of Some cid \<Rightarrow> vret cid | None \<Rightarrow> vfail NotFound))"

definition pw_parent :: "vnode \<Rightarrow> nat \<Rightarrow> nat" where
  "pw_parent n current = (if vn_parent n \<noteq> INVALID_ID then vn_parent n else current)"

fun pw_link_loop :: "(nat \<Rightarrow> ('w vfs, nat) vop) \<Rightarrow> u8 list list \<Rightarrow> nat \<Rightarrow> ('w vfs, nat) vop" where
  "pw_link_loop follow [] current = vret current"
| "pw_link_loop follow (c # cs) current =
     (if c = [] \<or> c = dot then pw_link_loop follow cs current
      else if c = dotdot then vbind (node_at current) (\<lambda>n. pw_link_loop follow cs (pw_parent n current))
      else
        vbind (node_at current) (\<lambda>n.
        vseq (vcheck (is_dir n) NotDirectory)
       (vbind (pw_lookup_child current c) (\<lambda>next.
        vbind (node_at next) (\<lambda>m.
          if is_symlink m then vbind (follow next) (pw_link_loop follow cs) else pw_link_loop follow cs next)))))"

primrec pw_follow_links :: "nat \<Rightarrow> nat \<Rightarrow> ('w vfs, nat) vop" where
  "pw_follow_links 0 link_id = vfail TooManySymlinks"
| "pw_follow_links (Suc d) link_id =
     vbind (node_at link_id) (\<lambda>n.
       if \<not> is_symlink n then vret link_id
       else
         let target = nb_as_str (vn_symlink_target n)
         in if target = [] then vfail InvalidPath
            else pw_link_loop (pw_follow_links d) (split_slash target) (if starts_with_slash target then 0 else vn_parent n))"

fun pw_loop :: "u8 list list \<Rightarrow> nat \<Rightarrow> nat \<Rightarrow> ('w vfs, nat) vop" where
  "pw_loop [] depth current = vret current"
| "pw_loop (c # cs) depth current =
     (if c = [] \<or> c = dot then pw_loop cs depth current
      else if c = dotdot then vbind (node_at current) (\<lambda>n. pw_loop cs depth (pw_parent n current))
      else if depth + 1 > MAX_PATH_DEPTH then vfail InvalidPath
      else
        vbind (node_at current) (\<lambda>n.
        vseq (vcheck (is_dir n) NotDirectory)
       (vbind (pw_lookup_child current c) (\<lambda>next.
        vbind (node_at next) (\<lambda>m.
          if is_symlink m
          then vbind (pw_follow_links MAX_SYMLINK_DEPTH next) (pw_loop cs (depth + 1))
          else pw_loop cs (depth + 1) next)))))"

definition pw_resolve :: "nat \<Rightarrow> u8 list \<Rightarrow> ('w vfs, nat) vop" where
  "pw_resolve cwd path0 =
     (let path = trim path0
      in if path = [] then vret cwd
         else pw_loop (split_slash path) 0 (if starts_with_slash path then 0 else cwd))"

definition trim_end_slash :: "u8 list \<Rightarrow> u8 list" where
  "trim_end_slash s = rev (dropWhile (\<lambda>b. b = slash) (rev s))"

definition split_last :: "u8 list \<Rightarrow> u8 list \<times> u8 list" where
  "split_last path =
     (let trimmed = trim_end_slash path
      in if trimmed = [] then ([slash], [])
         else case rfind_slash trimmed of
                Some pos \<Rightarrow> (if pos = 0 then [slash] else take pos trimmed, drop (pos + 1) trimmed)
              | None \<Rightarrow> (dot, trimmed))"

definition split_parent_name :: "u8 list \<Rightarrow> u8 list \<times> u8 list" where
  "split_parent_name path =
     (let trimmed = trim_end_slash (dropWhile (\<lambda>b. b = slash) path)
      in if trimmed = [] then ([slash], [])
         else case rfind_slash trimmed of
                Some pos \<Rightarrow>
                  (let parent = take pos trimmed; name = drop (pos + 1) trimmed
                   in if parent = [] then ([slash], name) else (parent, name))
              | None \<Rightarrow> ([slash], trimmed))"

record stat_fs =
  sf_fs_type :: FsType
  sf_block_size :: u32
  sf_total_blocks :: u64
  sf_free_blocks :: u64
  sf_total_inodes :: u64
  sf_free_inodes :: u64
  sf_max_name_len :: u32
  sf_flags :: u32

definition vfs_statfs :: "'w env \<Rightarrow> nat \<Rightarrow> u8 list \<Rightarrow> ('w vfs, stat_fs) vop" where
  "vfs_statfs env cwd path =
     vbind (pw_resolve cwd path) (\<lambda>i.
     vbind (node_at i) (\<lambda>n.
     vget (\<lambda>s.
       case (if is_ext_family (vn_fs_type n) then e_ext_info env (v_world s) else None) of
         Some info \<Rightarrow>
           \<lparr>sf_fs_type = vn_fs_type n, sf_block_size = xi_block_size info, sf_total_blocks = xi_total_blocks info,
            sf_free_blocks = xi_free_blocks info, sf_total_inodes = xi_total_inodes info,
            sf_free_inodes = xi_free_inodes info, sf_max_name_len = 255, sf_flags = 0\<rparr>
       | None \<Rightarrow>
           \<lparr>sf_fs_type = vn_fs_type n, sf_block_size = of_nat PAGE_SIZE, sf_total_blocks = of_nat MAX_DATA_PAGES,
            sf_free_blocks = of_nat (sl_free_top (pc_slab (v_page_cache s))), sf_total_inodes = of_nat MAX_VNODES,
            sf_free_inodes = of_nat (MAX_VNODES - total_vnodes s), sf_max_name_len = of_nat NAME_LEN,
            sf_flags = (if is_readonly_fs n then 1 else 0)\<rparr>)))"

section \<open>Pipes\<close>

text \<open>The first part takes bytes under the lock; the second, after it was released and taken
  again, asks for writers. \<open>pipe_try_read\<close> is their composition when no other call comes in
  between.\<close>

datatype pipe_read = Data "u8 list" | WouldBlock_Pipe | Eof

definition pipe_take :: "'w env \<Rightarrow> nat \<Rightarrow> nat \<Rightarrow> ('w vfs, u8 list option) vop" where
  "pipe_take env vnode_id len =
     vbind (vget (valid_vnode vnode_id)) (\<lambda>valid.
       if \<not> valid then vret None
       else
         vbind (node_at vnode_id) (\<lambda>n.
         let pos = vn_pipe_read_pos n
         in if pos \<ge> vn_size n then vret (Some [])
            else
              vbind (vtry (read_at_vnode env vnode_id pos len)) (\<lambda>r.
                case r of
                  Inr bytes \<Rightarrow>
                    vseq (upd_node vnode_id (\<lambda>n. n\<lparr>vn_pipe_read_pos := pos + of_nat (length bytes)\<rparr>)) (vret (Some bytes))
                | Inl _ \<Rightarrow> vret (Some []))))"

definition pipe_answer :: "nat \<Rightarrow> u8 list option \<Rightarrow> 'w vfs \<Rightarrow> pipe_read" where
  "pipe_answer vnode_id got s =
     (case got of
        None \<Rightarrow> Eof
      | Some bytes \<Rightarrow>
          if bytes \<noteq> [] then Data bytes
          else if pipe_writer_pids vnode_id s = [] then Eof else WouldBlock_Pipe)"

definition pipe_try_read :: "'w env \<Rightarrow> nat \<Rightarrow> nat \<Rightarrow> ('w vfs, pipe_read) vop" where
  "pipe_try_read env vnode_id len =
     vbind (pipe_take env vnode_id len) (\<lambda>got. vget (pipe_answer vnode_id got))"

definition pipe_vnode_of_fd :: "'w env \<Rightarrow> nat \<Rightarrow> ('w vfs, nat option) vop" where
  "pipe_vnode_of_fd env fd =
     vbind (fds env) (\<lambda>t.
       case fd_get fd t of
         Inl _ \<Rightarrow> vret None
       | Inr f \<Rightarrow> vget (\<lambda>s. if valid_vnode (of_vnode_id f) s \<and> is_pipe (v_nodes s ! of_vnode_id f) then Some (of_vnode_id f) else None))"

section \<open>Properties\<close>

lemma wp_stat_node:
  "i < MAX_VNODES \<Longrightarrow> length (v_nodes s) = MAX_VNODES \<Longrightarrow> \<not> is_symlink (v_nodes s ! i) \<Longrightarrow>
   wp (stat_node env i) (\<lambda>st _. st_kind st \<noteq> Symlink) (\<lambda>_ _. True) s"
  unfolding stat_node_def ext2_refresh_size_def is_symlink_def
  by (auto simp: wp_simps vn_stat_def split: prod.split ext_result.split intro!: wp_on_world)



end
