(* ===== verification/Boot.thy ===== *)
theory Boot
  imports Attr
begin

text \<open>
  The start of the file system: \<open>init_vfs\<close> of \<open>kernel/fs/vfs/core/mod.rs\<close> and
  \<open>core/bootstrap.rs\<close>. The system libraries embedded in the kernel image, the disks the block
  layer has found and their partition tables are arguments.
\<close>

definition str_dev :: "u8 list" where "str_dev = [0x64, 0x65, 0x76]"
definition str_proc :: "u8 list" where "str_proc = [0x70, 0x72, 0x6F, 0x63]"
definition str_lib :: "u8 list" where "str_lib = [0x6C, 0x69, 0x62]"
definition str_mnt :: "u8 list" where "str_mnt = [0x6D, 0x6E, 0x74]"

text \<open>null, zero, random, urandom, console\<close>

definition DEV_ENTRIES :: "(u8 list \<times> dev_type) list" where
  "DEV_ENTRIES =
     [([0x6E, 0x75, 0x6C, 0x6C], Null), ([0x7A, 0x65, 0x72, 0x6F], Zero),
      ([0x72, 0x61, 0x6E, 0x64, 0x6F, 0x6D], Random), ([0x75, 0x72, 0x61, 0x6E, 0x64, 0x6F, 0x6D], Random),
      ([0x63, 0x6F, 0x6E, 0x73, 0x6F, 0x6C, 0x65], Console)]"

text \<open>version, uptime, meminfo, mounts, cpuinfo, stat, heap, diskstats\<close>

definition PROC_ENTRIES :: "u8 list list" where
  "PROC_ENTRIES =
     [[0x76, 0x65, 0x72, 0x73, 0x69, 0x6F, 0x6E], [0x75, 0x70, 0x74, 0x69, 0x6D, 0x65],
      [0x6D, 0x65, 0x6D, 0x69, 0x6E, 0x66, 0x6F], [0x6D, 0x6F, 0x75, 0x6E, 0x74, 0x73],
      [0x63, 0x70, 0x75, 0x69, 0x6E, 0x66, 0x6F], [0x73, 0x74, 0x61, 0x74], [0x68, 0x65, 0x61, 0x70],
      [0x64, 0x69, 0x73, 0x6B, 0x73, 0x74, 0x61, 0x74, 0x73]]"

definition push_dec :: "u8 \<Rightarrow> u8 list" where
  "push_dec v = (if v \<ge> 10 then [0x30 + v div 10] else []) @ [0x30 + v mod 10]"

definition fmt_block_name :: "u8 \<Rightarrow> u8 \<Rightarrow> u8 list" where
  "fmt_block_name dev part = [0x62, 0x6C, 0x6B] @ push_dec dev @ (if part > 0 then 0x70 # push_dec part else [])"

section \<open>Nodes made by the kernel\<close>

text \<open>The steps every node of the boot has in common: a free node is initialised and entered
  into its parent's table; it is given up when the table refuses it.\<close>

definition boot_child :: "'w env \<Rightarrow> nat \<Rightarrow> u8 list \<Rightarrow> VNodeKind \<Rightarrow> FsType \<Rightarrow> file_mode \<Rightarrow> (vnode \<Rightarrow> vnode) \<Rightarrow> ('w vfs, nat option) vop" where
  "boot_child env parent name kind fs mode prep =
     vbind (vtry alloc_vnode) (\<lambda>r.
       case r of
         Inl _ \<Rightarrow> vret None
       | Inr nid \<Rightarrow>
           vseq (upd_node nid (\<lambda>_. prep (vn_init nid parent name kind fs mode 0 0 (e_now env))))
          (vbind (node_at parent) (\<lambda>p.
           case ch_insert name nid (vn_children p) of (ok, ch) \<Rightarrow>
           vseq (upd_node parent (\<lambda>p. p\<lparr>vn_children := ch\<rparr>))
          (if ok then vret (Some nid)
           else vseq (upd_node nid (\<lambda>n. n\<lparr>vn_active := False\<rparr>)) (vret None)))))"

definition dev_prep :: "dev_type \<Rightarrow> u64 \<Rightarrow> vnode \<Rightarrow> vnode" where
  "dev_prep dt sz n = n\<lparr>vn_dev_major := dev_major dt, vn_dev_minor := dev_minor dt, vn_size := sz\<rparr>"

fun each :: "('x \<Rightarrow> ('w vfs, unit) vop) \<Rightarrow> 'x list \<Rightarrow> ('w vfs, unit) vop" where
  "each f [] = vret ()"
| "each f (x # xs) = vseq (f x) (each f xs)"

definition vignore :: "('s, 'a) vop \<Rightarrow> ('s, unit) vop" where
  "vignore m = vbind (vtry m) (\<lambda>_. vret ())"

definition mounts_add :: "FsType \<Rightarrow> nat \<Rightarrow> nat \<Rightarrow> ('w vfs, unit) vop" where
  "mounts_add fs root parent = vmod (\<lambda>s. s\<lparr>v_mounts := snd (mt_add fs root parent (v_mounts s))\<rparr>)"

definition mount_devfs :: "'w env \<Rightarrow> ('w vfs, unit) vop" where
  "mount_devfs env =
     vbind (boot_child env 0 str_dev Directory DevFS 0x1ED (\<lambda>n. n)) (\<lambda>r.
       case r of
         None \<Rightarrow> vret ()
       | Some dev_id \<Rightarrow>
           vseq (mounts_add DevFS dev_id 0)
                (each (\<lambda>(name, dt). vignore (boot_child env dev_id name CharDevice DevFS 0x1B6 (dev_prep dt 0))) DEV_ENTRIES))"

definition mount_procfs :: "'w env \<Rightarrow> ('w vfs, unit) vop" where
  "mount_procfs env =
     vbind (boot_child env 0 str_proc Directory ProcFS 0x1ED (\<lambda>n. n)) (\<lambda>r.
       case r of
         None \<Rightarrow> vret ()
       | Some proc_id \<Rightarrow>
           vseq (mounts_add ProcFS proc_id 0)
                (each (\<lambda>name. vignore (boot_child env proc_id name Regular ProcFS 0x124 (\<lambda>n. n))) PROC_ENTRIES))"

definition lookup_or_create_lib_dir :: "'w env \<Rightarrow> u8 list \<Rightarrow> ('w vfs, nat option) vop" where
  "lookup_or_create_lib_dir env dir_name =
     vbind (node_at 0) (\<lambda>root.
     vbind (vget (live_child root dir_name)) (\<lambda>found.
       case found of
         Some i \<Rightarrow> vret (Some i)
       | None \<Rightarrow> boot_child env 0 dir_name Directory TmpFS (mode_new 0x1ED)
                   (\<lambda>n. n\<lparr>vn_flags := (vn_flags n)\<lparr>vf_immutable := True\<rparr>\<rparr>)))"

definition install_syslib_file :: "'w env \<Rightarrow> nat \<Rightarrow> u8 list \<Rightarrow> u8 list \<Rightarrow> ('w vfs, nat option) vop" where
  "install_syslib_file env dir_id name bytes =
     boot_child env dir_id name Regular TmpFS (mode_new 0x16D)
       (\<lambda>n. n\<lparr>vn_static_data := Some bytes, vn_size := of_nat (length bytes),
              vn_flags := (vn_flags n)\<lparr>vf_immutable := True\<rparr>\<rparr>)"

definition mount_syslibs :: "'w env \<Rightarrow> (u8 list \<times> u8 list) list \<Rightarrow> ('w vfs, unit) vop" where
  "mount_syslibs env libs =
     each (\<lambda>(name, bytes).
       vbind (lookup_or_create_lib_dir env str_lib) (\<lambda>r.
         case r of None \<Rightarrow> vret () | Some dir_id \<Rightarrow> vignore (install_syslib_file env dir_id name bytes))) libs"

definition create_mnt :: "'w env \<Rightarrow> ('w vfs, unit) vop" where
  "create_mnt env = vignore (boot_child env 0 str_mnt Directory TmpFS 0x1ED (\<lambda>n. n))"

definition bootstrap :: "'w env \<Rightarrow> (u8 list \<times> u8 list) list \<Rightarrow> ('w vfs, unit) vop" where
  "bootstrap env libs =
     vseq (upd_node 0 (\<lambda>_. (vn_init 0 INVALID_ID [slash] Directory TmpFS 0x1ED 0 0 (e_now env))\<lparr>vn_parent := 0\<rparr>))
    (vseq (mounts_add TmpFS 0 INVALID_ID)
    (vseq (mount_devfs env)
    (vseq (mount_procfs env)
    (vseq (mount_syslibs env libs)
          (create_mnt env)))))"

definition root_context :: process_context where
  "root_context = \<lparr>pc_pid = 0, pc_cred = cred_root, pc_umask = 0x12, pc_cwd = 0, pc_root = 0\<rparr>"

definition vfs_zero :: "'w \<Rightarrow> 'w vfs" where
  "vfs_zero w = \<lparr>v_nodes = replicate MAX_VNODES vn_empty, v_page_cache = pc_new, v_mounts = mt_new,
     v_fd_tables = [(0, fd_new)], v_ctx = root_context, v_ext2_mount_active = False, v_vnode_free_hint = 1, v_world = w\<rparr>"

definition init_vfs :: "'w env \<Rightarrow> (u8 list \<times> u8 list) list \<Rightarrow> 'w \<Rightarrow> 'w vfs option" where
  "init_vfs env libs w = map_option snd (bootstrap env libs (vfs_zero w))"

section \<open>Block device nodes\<close>

abbreviation MAX_BLOCK_DEVICES :: nat where "MAX_BLOCK_DEVICES \<equiv> 8"

record gpt_part =
  gp_used :: bool
  gp_start :: u64
  gp_sectors :: u64

text \<open>What the block layer tells of its devices, and its table of partition ranges.\<close>

record 'w disks =
  dk_register_ata :: "nat \<Rightarrow> 'w \<Rightarrow> 'w"
  dk_info :: "u8 \<Rightarrow> 'w \<Rightarrow> (u64 \<times> nat) option"
  dk_gpt :: "u8 \<Rightarrow> 'w \<Rightarrow> gpt_part list option"
  dk_set_partition :: "u8 \<Rightarrow> nat \<Rightarrow> u64 \<Rightarrow> u64 \<Rightarrow> 'w \<Rightarrow> 'w"
  dk_clear_partitions :: "u8 \<Rightarrow> 'w \<Rightarrow> 'w"

definition add_block_node :: "'w env \<Rightarrow> nat \<Rightarrow> u8 list \<Rightarrow> dev_type \<Rightarrow> u64 \<Rightarrow> ('w vfs, unit) vop" where
  "add_block_node env dev_dir name dt sz =
     vbind (node_at dev_dir) (\<lambda>d.
       if find_by_name name (vn_children d) \<noteq> None then vret ()
       else vignore (boot_child env dev_dir name BlockDevice DevFS 0x1B6 (dev_prep dt sz)))"

text \<open>A loop that counts the rounds whose body says so.\<close>

fun tally :: "('x \<Rightarrow> ('w vfs, bool) vop) \<Rightarrow> 'x list \<Rightarrow> ('w vfs, nat) vop" where
  "tally f [] = vret 0"
| "tally f (x # xs) = vbind (f x) (\<lambda>b. vbind (tally f xs) (\<lambda>n. vret (if b then Suc n else n)))"

definition add_partition :: "'w env \<Rightarrow> 'w disks \<Rightarrow> nat \<Rightarrow> u8 \<Rightarrow> nat \<times> gpt_part \<Rightarrow> ('w vfs, bool) vop" where
  "add_partition env dk dev_dir dev ip =
     (case ip of (i, e) \<Rightarrow>
        if \<not> gp_used e \<or> i \<ge> 15 then vret False
        else
          vseq (on_world (\<lambda>w. ((), dk_set_partition dk dev i (gp_start e) (gp_sectors e) w)))
         (vseq (add_block_node env dev_dir (fmt_block_name dev (of_nat (i + 1))) (Block dev (of_nat (i + 1))) (gp_sectors e * 512))
               (vret True)))"

definition add_partitions :: "'w env \<Rightarrow> 'w disks \<Rightarrow> nat \<Rightarrow> u8 \<Rightarrow> ('w vfs, nat) vop" where
  "add_partitions env dk dev_dir dev =
     vbind (vget (\<lambda>s. dk_gpt dk dev (v_world s))) (\<lambda>tbl.
       case tbl of None \<Rightarrow> vret 0 | Some es \<Rightarrow> tally (add_partition env dk dev_dir dev) (enumerate 0 es))"

definition register_block_nodes :: "'w env \<Rightarrow> 'w disks \<Rightarrow> ('w vfs, unit) vop" where
  "register_block_nodes env dk =
     vseq (each (\<lambda>idx. on_world (\<lambda>w. ((), dk_register_ata dk idx w))) [0..<4])
    (vbind (node_at 0) (\<lambda>root.
       case find_by_name str_dev (vn_children root) of
         None \<Rightarrow> vret ()
       | Some dev_dir \<Rightarrow>
           each (\<lambda>k. let dev = of_nat k
                     in vbind (vget (\<lambda>s. dk_info dk dev (v_world s))) (\<lambda>info.
                       case info of
                         None \<Rightarrow> vret ()
                       | Some (total_sectors, model_len) \<Rightarrow>
                           if total_sectors = 0 \<and> model_len = 0 then vret ()
                           else
                             vseq (add_block_node env dev_dir (fmt_block_name dev 0) (Block dev 0) (total_sectors * 512))
                                  (vignore (add_partitions env dk dev_dir dev))))
             [0..<MAX_BLOCK_DEVICES]))"

definition drop_partition_node :: "nat \<Rightarrow> u8 \<Rightarrow> nat \<Rightarrow> ('w vfs, bool) vop" where
  "drop_partition_node dev_dir dev part =
     vbind (node_at dev_dir) (\<lambda>d.
     let name = fmt_block_name dev (of_nat part)
     in case find_by_name name (vn_children d) of
          None \<Rightarrow> vret False
        | Some cid \<Rightarrow>
            vbind (node_at cid) (\<lambda>c.
              if vn_refcount c = 0
              then vseq (upd_node dev_dir (\<lambda>d. d\<lparr>vn_children := snd (remove_by_name name (vn_children d))\<rparr>))
                  (vseq (upd_node cid (\<lambda>c. c\<lparr>vn_active := False\<rparr>)) (vret True))
              else vret False))"

text \<open>The two counts: the partitions now, and the stale nodes removed.\<close>

definition rescan_block_partitions :: "'w env \<Rightarrow> 'w disks \<Rightarrow> u8 \<Rightarrow> ('w vfs, nat \<times> nat) vop" where
  "rescan_block_partitions env dk dev =
     vbind (node_at 0) (\<lambda>root.
       case find_by_name str_dev (vn_children root) of
         None \<Rightarrow> vret (0, 0)
       | Some dev_dir \<Rightarrow>
           vbind (tally (drop_partition_node dev_dir dev) [1..<16]) (\<lambda>removed.
           vseq (on_world (\<lambda>w. ((), dk_clear_partitions dk dev w)))
          (vbind (add_partitions env dk dev_dir dev) (\<lambda>n. vret (n, removed)))))"

end
