(* ===== verification/FileData.thy ===== *)
theory FileData
  imports FileOps
begin

text \<open>
  The bytes of tmpfs files. \<open>file_byte\<close> reads a byte of a file through its page table and the
  page cache, with zero for a hole. The invariant \<open>data_inv\<close> says that the pages of live files
  are allocated, dirty (so that the cache never evicts them) and not shared; under it a write
  changes exactly the bytes it should, of exactly one file, and a read returns them.
\<close>

section \<open>The page cache as the files see it\<close>

definition page_used :: "page_cache \<Rightarrow> nat \<Rightarrow> bool" where
  "page_used pc p = (p < MAX_DATA_PAGES \<and> slab_is_active (pc_slab pc) p)"

definition pc_ok :: "page_cache \<Rightarrow> bool" where
  "pc_ok pc = ((\<exists>xs. pc_inv pc xs) \<and> (\<forall>p<MAX_DATA_PAGES. length (cp_data (pc_pages pc ! p)) = PAGE_SIZE))"

lemma pc_okE:
  assumes "pc_ok pc"
  obtains xs where "pc_inv pc xs" and "\<forall>p. page_used pc p \<longleftrightarrow> p \<in> set xs"
  using assms pc_active_iff unfolding pc_ok_def page_used_def by metis

lemma pc_ok_pages: "pc_ok pc \<Longrightarrow> length (pc_pages pc) = MAX_DATA_PAGES"
  using pc_invD(3) by (auto simp: pc_ok_def)

lemma pc_ok_data: "pc_ok pc \<Longrightarrow> p < MAX_DATA_PAGES \<Longrightarrow> length (cp_data (pc_pages pc ! p)) = PAGE_SIZE"
  by (simp add: pc_ok_def)

lemma pc_okI:
  "pc_inv pc xs \<Longrightarrow> (\<And>p. p < MAX_DATA_PAGES \<Longrightarrow> length (cp_data (pc_pages pc ! p)) = PAGE_SIZE) \<Longrightarrow> pc_ok pc"
  by (auto simp: pc_ok_def)

lemma pc_ok_new: "pc_ok pc_new"
  by (rule pc_okI [OF pc_inv_new]) (simp add: pc_new_def cp_empty_def)

lemma get_page_data_ok:
  assumes "pc_ok pc"
  shows "pc_ok (snd (get_page_data p pc))" "pc_pages (snd (get_page_data p pc)) = pc_pages pc"
    "page_used (snd (get_page_data p pc)) = page_used pc"
    "fst (get_page_data p pc) = (if page_used pc p then Some (cp_data (pc_pages pc ! p)) else None)"
proof -
  show pages: "pc_pages (snd (get_page_data p pc)) = pc_pages pc" by (simp add: get_page_data_def)
  show "page_used (snd (get_page_data p pc)) = page_used pc"
    by (simp add: get_page_data_def page_used_def fun_eq_iff)
  show "fst (get_page_data p pc) = (if page_used pc p then Some (cp_data (pc_pages pc ! p)) else None)"
    by (simp add: get_page_data_def page_used_def)
  obtain xs where "pc_inv pc xs" by (rule pc_okE [OF assms])
  from pc_inv_get [OF this] show "pc_ok (snd (get_page_data p pc))"
    by (rule pc_okI) (simp add: pages pc_ok_data [OF assms])
qed

text \<open>The cache after a caller wrote through \<open>get_page_data_mut\<close> and marked the page dirty.\<close>

lemma write_page_ok:
  assumes "pc_ok pc" and "page_used pc p" and "\<And>d. length d = PAGE_SIZE \<Longrightarrow> length (f d) = PAGE_SIZE"
  shows "\<exists>pc1. get_page_data_mut p f pc = (True, pc1) \<and> pc_ok (mark_dirty p pc1)
    \<and> page_used (mark_dirty p pc1) = page_used pc
    \<and> pc_pages (mark_dirty p pc1) = (pc_pages pc)[p := (pc_pages pc ! p)\<lparr>cp_data := f (cp_data (pc_pages pc ! p)), cp_dirty := True\<rparr>]"
proof -
  obtain xs where inv: "pc_inv pc xs" by (rule pc_okE [OF assms(1)])
  define pc1 where "pc1 = snd (get_page_data_mut p f pc)"
  have p: "p < MAX_DATA_PAGES" "slab_is_active (pc_slab pc) p" using assms(2) by (simp_all add: page_used_def)
  then have e: "get_page_data_mut p f pc = (True, pc1)" by (simp add: get_page_data_mut_def pc1_def)
  have "\<exists>ys. pc_inv pc1 ys" using pc_inv_get_mut [OF inv, of p f] pc1_def by blast
  then obtain ys where "pc_inv (mark_dirty p pc1) ys" using pc_inv_set_dirty mark_dirty_def by metis
  moreover have pages: "pc_pages (mark_dirty p pc1) = (pc_pages pc)[p := (pc_pages pc ! p)\<lparr>cp_data := f (cp_data (pc_pages pc ! p)), cp_dirty := True\<rparr>]"
    using p pc_ok_pages [OF assms(1)] by (simp add: mark_dirty_def set_dirty_def pc1_def get_page_data_mut_def)
  moreover have "length (cp_data (pc_pages (mark_dirty p pc1) ! q)) = PAGE_SIZE" if "q < MAX_DATA_PAGES" for q
    using that p pc_ok_pages [OF assms(1)] pc_ok_data [OF assms(1)] by (auto simp: pages nth_list_update intro: assms(3))
  ultimately have "pc_ok (mark_dirty p pc1)" using pc_okI by blast
  moreover have "page_used (mark_dirty p pc1) = page_used pc"
    using p by (simp add: mark_dirty_def set_dirty_def pc1_def get_page_data_mut_def page_used_def fun_eq_iff)
  ultimately show ?thesis using e pages by blast
qed

text \<open>Nothing can be allocated or evicted any more.\<close>

definition cache_full :: "page_cache \<Rightarrow> bool" where
  "cache_full pc = (\<forall>p<MAX_DATA_PAGES. page_used pc p \<and> cp_dirty (pc_pages pc ! p))"

lemma alloc_page_ok:
  assumes "pc_ok pc"
  shows "alloc_page pc = Some (Inl NoSpace, pc) \<and> cache_full pc \<or>
    (\<exists>p pc'. alloc_page pc = Some (Inr p, pc') \<and> pc_ok pc' \<and> p < MAX_DATA_PAGES
      \<and> (page_used pc p \<longrightarrow> \<not> cp_dirty (pc_pages pc ! p))
      \<and> (\<forall>q. page_used pc' q \<longleftrightarrow> q = p \<or> page_used pc q) \<and> pc_pages pc' = (pc_pages pc)[p := fresh_page])"
proof -
  obtain xs where inv: "pc_inv pc xs" and used: "\<forall>p. page_used pc p \<longleftrightarrow> p \<in> set xs" by (rule pc_okE [OF assms])
  from alloc_page_cases [OF inv] obtain res pc' where a: "alloc_page pc = Some (res, pc')"
    and c: "case res of
       Inl e \<Rightarrow> e = NoSpace \<and> pc' = pc \<and> set xs = {..<MAX_DATA_PAGES} \<and> lru_clean pc xs = None
     | Inr i \<Rightarrow> i < MAX_DATA_PAGES \<and> pc_inv pc' (i # removeAll i xs) \<and> pc_pages pc' = (pc_pages pc)[i := fresh_page]
         \<and> (i \<in> set xs \<longrightarrow> set xs = {..<MAX_DATA_PAGES} \<and> lru_clean pc xs = Some i \<and> \<not> cp_dirty (pc_pages pc ! i))"
    by blast
  show ?thesis
  proof (cases res)
    case (Inl e)
    then have "set xs = {..<MAX_DATA_PAGES}" "find (\<lambda>i. \<not> cp_dirty (pc_pages pc ! i)) (rev xs) = None"
      using c by (simp_all add: lru_clean_def)
    then have "cache_full pc" using used by (auto simp: cache_full_def find_None_iff)
    then show ?thesis using a c Inl by simp
  next
    case (Inr p)
    then have p: "p < MAX_DATA_PAGES" "pc_inv pc' (p # removeAll p xs)" "pc_pages pc' = (pc_pages pc)[p := fresh_page]"
      "p \<in> set xs \<Longrightarrow> \<not> cp_dirty (pc_pages pc ! p)" using c by auto
    have "length (cp_data (pc_pages pc' ! q)) = PAGE_SIZE" if "q < MAX_DATA_PAGES" for q
      using that p(1) pc_ok_data [OF assms] pc_ok_pages [OF assms] by (auto simp: p(3) nth_list_update cp_empty_def)
    then have "pc_ok pc'" using p(2) pc_okI by blast
    moreover have "page_used pc' q \<longleftrightarrow> q = p \<or> page_used pc q" for q
      using pc_active_iff [OF p(2), of q] used by (auto simp: page_used_def)
    moreover have "page_used pc p \<longrightarrow> \<not> cp_dirty (pc_pages pc ! p)" using p(4) used by simp
    ultimately show ?thesis using a Inr p(1,3) by simp
  qed
qed

lemma free_page_ok:
  assumes "pc_ok pc"
  shows "pc_ok (free_page p pc)" "page_used (free_page p pc) q \<longleftrightarrow> page_used pc q \<and> q \<noteq> p"
    "q \<noteq> p \<Longrightarrow> pc_pages (free_page p pc) ! q = pc_pages pc ! q"
proof -
  obtain xs where inv: "pc_inv pc xs" and used: "\<forall>p. page_used pc p \<longleftrightarrow> p \<in> set xs" by (rule pc_okE [OF assms])
  note F = pc_inv_free [OF inv, of p]
  show "q \<noteq> p \<Longrightarrow> pc_pages (free_page p pc) ! q = pc_pages pc ! q" by (simp add: free_page_def)
  show "pc_ok (free_page p pc)"
    by (rule pc_okI [OF F])
      (use pc_ok_data [OF assms] pc_ok_pages [OF assms] in \<open>auto simp: free_page_def nth_list_update cp_empty_def split: if_splits\<close>)
  show "page_used (free_page p pc) q \<longleftrightarrow> page_used pc q \<and> q \<noteq> p"
    using pc_active_iff [OF F, of q] used by (auto simp: page_used_def)
qed

lemma free_pages_ok:
  assumes "pc_ok pc"
  shows "pc_ok (fold free_page ps pc)" "page_used (fold free_page ps pc) q \<longleftrightarrow> page_used pc q \<and> q \<notin> set ps"
    "q \<notin> set ps \<Longrightarrow> pc_pages (fold free_page ps pc) ! q = pc_pages pc ! q"
proof -
  have "pc_ok (fold free_page ps pc) \<and> (page_used (fold free_page ps pc) q \<longleftrightarrow> page_used pc q \<and> q \<notin> set ps)
    \<and> (q \<notin> set ps \<longrightarrow> pc_pages (fold free_page ps pc) ! q = pc_pages pc ! q)"
    using assms by (induction ps arbitrary: pc) (simp_all add: free_page_ok)
  then show "pc_ok (fold free_page ps pc)" "page_used (fold free_page ps pc) q \<longleftrightarrow> page_used pc q \<and> q \<notin> set ps"
    "q \<notin> set ps \<Longrightarrow> pc_pages (fold free_page ps pc) ! q = pc_pages pc ! q" by blast+
qed

section \<open>Ownership of pages\<close>

text \<open>The live node \<open>i\<close> has the cache page \<open>p\<close> as its page \<open>q\<close>.\<close>

definition owns :: "vnode list \<Rightarrow> nat \<Rightarrow> nat \<Rightarrow> nat \<Rightarrow> bool" where
  "owns ns i q p = (i < MAX_VNODES \<and> vn_active (ns ! i) \<and> get_page q (vn_addr_space (ns ! i)) = Some p)"

definition data_ok :: "vnode list \<Rightarrow> page_cache \<Rightarrow> bool" where
  "data_ok ns pc = (length ns = MAX_VNODES \<and> pc_ok pc \<and> (\<forall>i<MAX_VNODES. as_wf (vn_addr_space (ns ! i)))
     \<and> (\<forall>i q p. owns ns i q p \<longrightarrow> page_used pc p \<and> cp_dirty (pc_pages pc ! p))
     \<and> (\<forall>i q j r p. owns ns i q p \<longrightarrow> owns ns j r p \<longrightarrow> i = j \<and> q = r))"

definition data_inv :: "'w vfs \<Rightarrow> bool" where
  "data_inv s = data_ok (v_nodes s) (v_page_cache s)"

definition file_byte :: "'w vfs \<Rightarrow> nat \<Rightarrow> nat \<Rightarrow> u8" where
  "file_byte s i k =
     (case get_page (k div PAGE_SIZE) (vn_addr_space (v_nodes s ! i)) of
        None \<Rightarrow> 0
      | Some p \<Rightarrow> cp_data (pc_pages (v_page_cache s) ! p) ! (k mod PAGE_SIZE))"

lemma data_okD:
  assumes "data_ok ns pc"
  shows "length ns = MAX_VNODES" "pc_ok pc" "i < MAX_VNODES \<Longrightarrow> as_wf (vn_addr_space (ns ! i))"
    "owns ns i q p \<Longrightarrow> page_used pc p" "owns ns i q p \<Longrightarrow> cp_dirty (pc_pages pc ! p)"
    "owns ns i q p \<Longrightarrow> owns ns j r p \<Longrightarrow> i = j \<and> q = r"
  using assms unfolding data_ok_def by blast+

lemma data_ok_shrink:
  assumes "data_ok ns pc" and "length ns' = MAX_VNODES"
    and "\<And>i. i < MAX_VNODES \<Longrightarrow> as_wf (vn_addr_space (ns' ! i))" and "\<And>i q p. owns ns' i q p \<Longrightarrow> owns ns i q p"
  shows "data_ok ns' pc"
  unfolding data_ok_def using assms(2-4) data_okD(2,4,5,6) [OF assms(1)] by blast

lemma data_ok_upd:
  assumes "data_ok ns pc" and "as_wf (vn_addr_space (ns ! i)) \<Longrightarrow> as_wf (vn_addr_space n)"
    and "\<And>q p. vn_active n \<Longrightarrow> get_page q (vn_addr_space n) = Some p \<Longrightarrow>
      vn_active (ns ! i) \<and> get_page q (vn_addr_space (ns ! i)) = Some p"
  shows "data_ok (ns[i := n]) pc"
proof (rule data_ok_shrink [OF assms(1)])
  show "length (ns[i := n]) = MAX_VNODES" using data_okD(1) [OF assms(1)] by simp
  show "as_wf (vn_addr_space (ns[i := n] ! j))" if "j < MAX_VNODES" for j
    using that assms(2) data_okD(1) [OF assms(1)] data_okD(3) [OF assms(1), of j] by (cases "i = j") auto
  show "owns ns j q p" if "owns (ns[i := n]) j q p" for j q p
    using that assms(3) [of q p] data_okD(1) [OF assms(1)] by (cases "i = j") (auto simp: owns_def)
qed

lemma data_ok_free:
  assumes "data_ok ns pc" and "\<And>p i q. p \<in> set ps \<Longrightarrow> \<not> owns ns i q p"
  shows "data_ok ns (fold free_page ps pc)"
proof -
  note D = data_okD [OF assms(1)]
  note F = free_pages_ok [OF D(2), where ps = ps]
  have "page_used (fold free_page ps pc) p \<and> cp_dirty (pc_pages (fold free_page ps pc) ! p)" if "owns ns i q p" for i q p
    using that assms(2) [of p i q] D(4,5) [OF that] F(2) [of p] F(3) [of p] by auto
  then show ?thesis unfolding data_ok_def using D(1,3,6) F(1) by blast
qed

lemma data_ok_cache:
  assumes "data_ok ns pc" and "pc_ok pc'" and "\<And>p. page_used pc p \<Longrightarrow> page_used pc' p"
    and "\<And>p. page_used pc p \<Longrightarrow> cp_dirty (pc_pages pc ! p) \<Longrightarrow> cp_dirty (pc_pages pc' ! p)"
  shows "data_ok ns pc'"
  unfolding data_ok_def using data_okD [OF assms(1)] assms(2-4) by blast

text \<open>A page that nobody owns is entered into the table of a live node that has a hole there.\<close>

lemma data_ok_enter:
  assumes ok: "data_ok ns pc" and "vid < MAX_VNODES" and "q < DIRECT_BLOCKS" and p: "page_used pc p" "cp_dirty (pc_pages pc ! p)"
    and hole: "get_page q (vn_addr_space (ns ! vid)) = None" and new: "\<And>i r. \<not> owns ns i r p"
    and n: "n = (ns ! vid)\<lparr>vn_addr_space := snd (set_page q p (vn_addr_space (ns ! vid)))\<rparr>"
  shows "data_ok (ns[vid := n]) pc"
proof -
  note D = data_okD [OF ok]
  have "p \<noteq> INVALID_ID" using p(1) by (simp add: page_used_def MAX_DATA_PAGES_def INVALID_ID_def)
  from get_page_set_page [OF D(3) [OF assms(2)] assms(3) this]
  have g: "get_page r (vn_addr_space n) = (if r = q then Some p else get_page r (vn_addr_space (ns ! vid)))" for r
    by (simp add: n)
  have act: "vn_active n = vn_active (ns ! vid)" by (simp add: n)
  have own: "owns (ns[vid := n]) i r x \<Longrightarrow> owns ns i r x \<or> (i = vid \<and> r = q \<and> x = p)" for i r x
    using D(1) assms(2) by (cases "i = vid") (auto simp: owns_def g act split: if_splits)
  have "as_wf (vn_addr_space (ns[vid := n] ! i))" if "i < MAX_VNODES" for i
    using that D(1) D(3) [of i] by (cases "i = vid") (simp_all add: n)
  moreover have "page_used pc x \<and> cp_dirty (pc_pages pc ! x)" if "owns (ns[vid := n]) i r x" for i r x
    using own [OF that] D(4,5) p by blast
  moreover have "i = j \<and> r = r'" if "owns (ns[vid := n]) i r x" "owns (ns[vid := n]) j r' x" for i r j r' x
    using own [OF that(1)] own [OF that(2)] D(6) new by blast
  ultimately show ?thesis unfolding data_ok_def using D(1,2) by simp
qed

section \<open>Writing\<close>

lemma vfs_upd_comm: "s\<lparr>v_page_cache := pc, v_nodes := ns\<rparr> = s\<lparr>v_nodes := ns, v_page_cache := pc\<rparr>"
  by (cases s) simp

text \<open>From \<open>s\<close> to \<open>s'\<close> the bytes of the file \<open>vid\<close> from \<open>start\<close> on became \<open>bytes\<close>; no other byte of
  a live file changed, and nothing but the file's page table and the cache did.\<close>

definition wrote :: "'w vfs \<Rightarrow> nat \<Rightarrow> nat \<Rightarrow> u8 list \<Rightarrow> 'w vfs \<Rightarrow> bool" where
  "wrote s vid start bytes s' = (data_inv s'
     \<and> (\<exists>a pc. s' = s\<lparr>v_nodes := (v_nodes s)[vid := (v_nodes s ! vid)\<lparr>vn_addr_space := a\<rparr>], v_page_cache := pc\<rparr>)
     \<and> (\<forall>i k. valid_vnode i s \<longrightarrow>
          file_byte s' i k = (if i = vid \<and> start \<le> k \<and> k < start + length bytes then bytes ! (k - start) else file_byte s i k)))"

lemma wroteD:
  assumes "wrote s vid start bytes s'"
  shows "data_inv s'"
    "valid_vnode i s \<Longrightarrow> file_byte s' i k = (if i = vid \<and> start \<le> k \<and> k < start + length bytes then bytes ! (k - start) else file_byte s i k)"
  using assms unfolding wrote_def by blast+

lemma wrote_frame:
  assumes "wrote s vid start bytes s'"
  obtains a pc where "s' = s\<lparr>v_nodes := (v_nodes s)[vid := (v_nodes s ! vid)\<lparr>vn_addr_space := a\<rparr>], v_page_cache := pc\<rparr>"
  using assms unfolding wrote_def by blast

lemma wrote_valid:
  assumes "wrote s vid start bytes s'" and "data_inv s"
  shows "valid_vnode i s' = valid_vnode i s"
proof -
  obtain a pc where "s' = s\<lparr>v_nodes := (v_nodes s)[vid := (v_nodes s ! vid)\<lparr>vn_addr_space := a\<rparr>], v_page_cache := pc\<rparr>"
    by (rule wrote_frame [OF assms(1)])
  then show ?thesis using data_okD(1) [OF assms(2) [unfolded data_inv_def]]
    by (cases "i = vid") (auto simp: valid_vnode_def)
qed

lemma wrote_refl: "data_inv s \<Longrightarrow> wrote s vid start [] s"
  unfolding wrote_def
  by (intro conjI exI [of _ "vn_addr_space (v_nodes s ! vid)"] exI [of _ "v_page_cache s"]) auto

lemma wroteI_cache:
  assumes "data_inv (s\<lparr>v_page_cache := pc\<rparr>)"
    and "\<And>i k. valid_vnode i s \<Longrightarrow> file_byte (s\<lparr>v_page_cache := pc\<rparr>) i k =
      (if i = vid \<and> start \<le> k \<and> k < start + length bytes then bytes ! (k - start) else file_byte s i k)"
  shows "wrote s vid start bytes (s\<lparr>v_page_cache := pc\<rparr>)"
  unfolding wrote_def
  by (intro conjI exI [of _ "vn_addr_space (v_nodes s ! vid)"] exI [of _ pc]) (use assms in auto)

lemma wrote_trans:
  assumes "wrote s vid start b s1" and "wrote s1 vid (start + length b) c s2" and "data_inv s"
  shows "wrote s vid start (b @ c) s2"
proof -
  obtain a pc where s1: "s1 = s\<lparr>v_nodes := (v_nodes s)[vid := (v_nodes s ! vid)\<lparr>vn_addr_space := a\<rparr>], v_page_cache := pc\<rparr>"
    by (rule wrote_frame [OF assms(1)])
  obtain a' pc' where s2: "s2 = s1\<lparr>v_nodes := (v_nodes s1)[vid := (v_nodes s1 ! vid)\<lparr>vn_addr_space := a'\<rparr>], v_page_cache := pc'\<rparr>"
    by (rule wrote_frame [OF assms(2)])
  have "s2 = s\<lparr>v_nodes := (v_nodes s)[vid := (v_nodes s ! vid)\<lparr>vn_addr_space := a'\<rparr>], v_page_cache := pc'\<rparr>"
    by (cases "vid < length (v_nodes s)") (simp_all add: s2 s1 list_update_beyond)
  moreover have "file_byte s2 i k = (if i = vid \<and> start \<le> k \<and> k < start + length (b @ c) then (b @ c) ! (k - start) else file_byte s i k)"
    if "valid_vnode i s" for i k
    using wroteD(2) [OF assms(1) that, of k] wroteD(2) [OF assms(2), of i k] wrote_valid [OF assms(1,3), of i] that
    by (auto simp: nth_append)
  ultimately show ?thesis using wroteD(1) [OF assms(2)] unfolding wrote_def by blast
qed

text \<open>What a page write does to the bytes of the files.\<close>

lemma file_byte_page_write:
  fixes s s' :: "'w vfs"
  assumes here: "get_page q (vn_addr_space (v_nodes s' ! vid)) = Some p"
    "cp_data (pc_pages (v_page_cache s') ! p) = copy_at off bytes d"
    and d: "length d = PAGE_SIZE" "off + length bytes \<le> PAGE_SIZE" "\<And>k. k < PAGE_SIZE \<Longrightarrow> d ! k = file_byte s vid (q * PAGE_SIZE + k)"
    and other: "\<And>r. (i, r) \<noteq> (vid, q) \<Longrightarrow> get_page r (vn_addr_space (v_nodes s' ! i)) = get_page r (vn_addr_space (v_nodes s ! i))"
      "\<And>r x. (i, r) \<noteq> (vid, q) \<Longrightarrow> get_page r (vn_addr_space (v_nodes s ! i)) = Some x \<Longrightarrow>
         cp_data (pc_pages (v_page_cache s') ! x) = cp_data (pc_pages (v_page_cache s) ! x)"
  shows "file_byte s' i k =
    (if i = vid \<and> q * PAGE_SIZE + off \<le> k \<and> k < q * PAGE_SIZE + off + length bytes
     then bytes ! (k - (q * PAGE_SIZE + off)) else file_byte s i k)"
proof (cases "i = vid \<and> k div PAGE_SIZE = q")
  case True
  define m where "m = k mod PAGE_SIZE"
  have "PAGE_SIZE > 0" by (simp add: PAGE_SIZE_def)
  then have m: "m < PAGE_SIZE" "k = q * PAGE_SIZE + m" using True by (auto simp: m_def mult.commute)
  have "file_byte s' i k = copy_at off bytes d ! m" using True here by (simp add: file_byte_def m_def)
  also have "\<dots> = (if off \<le> m \<and> m < off + length bytes then bytes ! (m - off) else d ! m)"
    using d(1,2) m(1) by (intro nth_copy_at) auto
  finally show ?thesis using True d(3) [OF m(1)] m(2) by auto
next
  case False
  have "k div PAGE_SIZE = q" if "q * PAGE_SIZE + off \<le> k" "k < q * PAGE_SIZE + off + length bytes"
    using that d(2) by (intro div_nat_eqI) (simp_all add: mult.commute)
  with False have "\<not> (i = vid \<and> q * PAGE_SIZE + off \<le> k \<and> k < q * PAGE_SIZE + off + length bytes)" by blast
  moreover have "file_byte s' i k = file_byte s i k"
    using False other [of "k div PAGE_SIZE"] by (auto simp: file_byte_def split: option.split)
  ultimately show ?thesis by presburger
qed

text \<open>Between the allocation of a page and the first write to it the page is clean; \<open>dirtied\<close> is
  the cache with that flag already set.\<close>

definition dirtied :: "nat \<Rightarrow> page_cache \<Rightarrow> page_cache" where
  "dirtied p pc = pc\<lparr>pc_pages := (pc_pages pc)[p := (pc_pages pc ! p)\<lparr>cp_dirty := True\<rparr>]\<rparr>"

lemma dirtied_pages:
  "length (pc_pages (dirtied p pc)) = length (pc_pages pc)" "page_used (dirtied p pc) = page_used pc"
  "cp_data (pc_pages (dirtied p pc) ! r) = cp_data (pc_pages pc ! r)"
  "p < length (pc_pages pc) \<Longrightarrow> cp_dirty (pc_pages (dirtied p pc) ! r) = (r = p \<or> cp_dirty (pc_pages pc ! r))"
proof -
  show "cp_data (pc_pages (dirtied p pc) ! r) = cp_data (pc_pages pc ! r)"
    by (cases "r = p"; cases "p < length (pc_pages pc)") (simp_all add: dirtied_def list_update_beyond)
qed (simp_all add: dirtied_def page_used_def fun_eq_iff nth_list_update)

lemma pc_ok_dirtied: "pc_ok (dirtied p pc) = pc_ok pc"
  by (simp add: pc_ok_def dirtied_pages) (simp add: dirtied_def pc_inv_def)

lemma put_chunk_wrote:
  assumes ok: "data_ok (v_nodes s) (dirtied p (v_page_cache s))" and own: "owns (v_nodes s) vid q p"
    and off: "off + length bytes \<le> PAGE_SIZE"
  shows "\<exists>pc. put_chunk p off bytes s = Some (Inr (), s\<lparr>v_page_cache := pc\<rparr>) \<and> data_inv (s\<lparr>v_page_cache := pc\<rparr>)
    \<and> (\<forall>i k. valid_vnode i s \<longrightarrow> file_byte (s\<lparr>v_page_cache := pc\<rparr>) i k =
         (if i = vid \<and> q * PAGE_SIZE + off \<le> k \<and> k < q * PAGE_SIZE + off + length bytes
          then bytes ! (k - (q * PAGE_SIZE + off)) else file_byte s i k))"
proof -
  let ?pc = "v_page_cache s"
  note D = data_okD [OF ok, unfolded pc_ok_dirtied dirtied_pages]
  have lt: "p < MAX_DATA_PAGES" "p < length (pc_pages ?pc)"
    using D(4) [OF own] pc_ok_pages [OF D(2)] by (simp_all add: page_used_def)
  have "length (copy_at off bytes d) = PAGE_SIZE" if "length d = PAGE_SIZE" for d using that off by simp
  from write_page_ok [OF D(2) D(4) [OF own], of "copy_at off bytes", OF this]
  obtain pc where pc: "put_chunk p off bytes s = Some (Inr (), s\<lparr>v_page_cache := pc\<rparr>)" "pc_ok pc" "page_used pc = page_used ?pc"
    "pc_pages pc = (pc_pages ?pc)[p := (pc_pages ?pc ! p)\<lparr>cp_data := copy_at off bytes (cp_data (pc_pages ?pc ! p)), cp_dirty := True\<rparr>]"
    by (auto simp: put_chunk_def vcall_def)
  have "data_ok (v_nodes s) pc"
    by (rule data_ok_cache [OF ok pc(2)]) (use pc lt in \<open>auto simp: dirtied_pages nth_list_update\<close>)
  moreover have "file_byte (s\<lparr>v_page_cache := pc\<rparr>) i k = (if i = vid \<and> q * PAGE_SIZE + off \<le> k \<and> k < q * PAGE_SIZE + off + length bytes
     then bytes ! (k - (q * PAGE_SIZE + off)) else file_byte s i k)" if i: "valid_vnode i s" for i k
  proof (rule file_byte_page_write [where p = p and d = "cp_data (pc_pages ?pc ! p)"])
    show g: "get_page q (vn_addr_space (v_nodes (s\<lparr>v_page_cache := pc\<rparr>) ! vid)) = Some p" using own by (simp add: owns_def)
    show "cp_data (pc_pages ?pc ! p) ! k = file_byte s vid (q * PAGE_SIZE + k)" if "k < PAGE_SIZE" for k
      using that g by (simp add: file_byte_def div_mult_self3)
    show "cp_data (pc_pages (v_page_cache (s\<lparr>v_page_cache := pc\<rparr>)) ! x) = cp_data (pc_pages ?pc ! x)"
      if "(i, r) \<noteq> (vid, q)" "get_page r (vn_addr_space (v_nodes s ! i)) = Some x" for r x
    proof -
      have "owns (v_nodes s) i r x" using that i by (simp add: owns_def valid_vnode_def)
      then have "x \<noteq> p" using D(6) [OF own] that(1) by blast
      then show ?thesis by (simp add: pc)
    qed
  qed (use off lt pc_ok_data [OF D(2)] in \<open>simp_all add: pc\<close>)
  ultimately show ?thesis using pc(1) unfolding data_inv_def by auto
qed

lemma page_entered:
  assumes inv: "data_inv s" and vid: "valid_vnode vid s" and q: "q < DIRECT_BLOCKS"
    and hole: "get_page q (vn_addr_space (v_nodes s ! vid)) = None"
    and new: "pc_ok pc" "p < MAX_DATA_PAGES" "page_used (v_page_cache s) p \<longrightarrow> \<not> cp_dirty (pc_pages (v_page_cache s) ! p)"
      "\<forall>r. page_used pc r \<longleftrightarrow> r = p \<or> page_used (v_page_cache s) r" "pc_pages pc = (pc_pages (v_page_cache s))[p := fresh_page]"
    and s2: "s2 = s\<lparr>v_nodes := (v_nodes s)[vid := (v_nodes s ! vid)\<lparr>vn_addr_space := snd (set_page q p (vn_addr_space (v_nodes s ! vid)))\<rparr>],
      v_page_cache := pc\<rparr>"
  shows "data_ok (v_nodes s2) (dirtied p pc)" "owns (v_nodes s2) vid q p" "valid_vnode i s2 = valid_vnode i s"
    "valid_vnode i s \<Longrightarrow> file_byte s2 i k = file_byte s i k"
proof -
  let ?ns = "v_nodes s" and ?pc = "v_page_cache s"
  note ok = inv [unfolded data_inv_def]
  note D = data_okD [OF ok]
  have v: "vid < MAX_VNODES" "vid < length ?ns" "vn_active (?ns ! vid)" using vid D(1) by (simp_all add: valid_vnode_def)
  have lt: "p < length (pc_pages ?pc)" "p < length (pc_pages pc)" using new(2,5) pc_ok_pages [OF D(2)] by simp_all
  have nd: "pc_pages pc ! r = pc_pages ?pc ! r" if "r \<noteq> p" for r using that by (simp add: new(5))
  have free: "\<not> owns ?ns i r p" for i r using D(4,5) [of i r p] new(3) by blast
  have "data_ok ?ns (dirtied p pc)"
    by (rule data_ok_cache [OF ok]) (use new(1,4) lt nd in \<open>simp_all add: pc_ok_dirtied dirtied_pages, metis\<close>)
  then show "data_ok (v_nodes s2) (dirtied p pc)" unfolding s2
    using data_ok_enter [OF _ v(1) q _ _ hole free refl] new(4) lt by (simp add: dirtied_pages)
  have "p \<noteq> INVALID_ID" using new(2) by (simp add: MAX_DATA_PAGES_def INVALID_ID_def)
  from get_page_set_page [OF D(3) [OF v(1)] q this]
  have g: "get_page r (vn_addr_space (v_nodes s2 ! i)) =
      (if (i, r) = (vid, q) then Some p else get_page r (vn_addr_space (?ns ! i)))" for i r
    using v by (cases "i = vid") (simp_all add: s2)
  show "owns (v_nodes s2) vid q p" using v g [of q vid] by (simp add: owns_def s2)
  show "valid_vnode i s2 = valid_vnode i s" using v by (cases "i = vid") (simp_all add: valid_vnode_def s2)
  show "file_byte s2 i k = file_byte s i k" if i: "valid_vnode i s" for k
  proof (cases "(i, k div PAGE_SIZE) = (vid, q)")
    case True
    moreover have "k mod PAGE_SIZE < PAGE_SIZE" by (simp add: PAGE_SIZE_def)
    ultimately show ?thesis using hole lt by (auto simp: file_byte_def g) (simp add: s2 new(5) cp_empty_def)
  next
    case False
    then have f: "get_page (k div PAGE_SIZE) (vn_addr_space (v_nodes s2 ! i)) = get_page (k div PAGE_SIZE) (vn_addr_space (?ns ! i))"
      using g [of "k div PAGE_SIZE" i] by presburger
    have "x \<noteq> p" if "get_page (k div PAGE_SIZE) (vn_addr_space (?ns ! i)) = Some x" for x
      using that i free [of i "k div PAGE_SIZE"] by (auto simp: owns_def valid_vnode_def)
    moreover have "v_page_cache s2 = pc" by (simp add: s2)
    ultimately show ?thesis using nd by (auto simp: file_byte_def f split: option.split)
  qed
qed

lemma write_chunk:
  assumes inv: "data_inv s" and vid: "valid_vnode vid s" and q: "q < DIRECT_BLOCKS" and off: "off + length bytes \<le> PAGE_SIZE"
  shows "wp (page_for_write vid q) (\<lambda>p. wp (put_chunk p off bytes) (\<lambda>_. wrote s vid (q * PAGE_SIZE + off) bytes) E)
    (\<lambda>e s'. e = NoSpace \<and> s' = s \<and> cache_full (v_page_cache s)) s"
proof -
  let ?n = "v_nodes s ! vid" and ?pc = "v_page_cache s"
  note ok = inv [unfolded data_inv_def]
  note D = data_okD [OF ok]
  have v: "vid < MAX_VNODES" "vn_active ?n" using vid by (simp_all add: valid_vnode_def)
  show ?thesis
  proof (cases "get_page q (vn_addr_space ?n)")
    case (Some p)
    then have own: "owns (v_nodes s) vid q p" using v by (simp add: owns_def)
    have lt: "p < length (pc_pages ?pc)" using D(4) [OF own] pc_ok_pages [OF D(2)] by (simp add: page_used_def)
    have "data_ok (v_nodes s) (dirtied p ?pc)"
      by (rule data_ok_cache [OF ok]) (use D(2) lt in \<open>auto simp: pc_ok_dirtied dirtied_pages\<close>)
    from put_chunk_wrote [OF this own off] wroteI_cache obtain pc where
      "put_chunk p off bytes s = Some (Inr (), s\<lparr>v_page_cache := pc\<rparr>)"
      "wrote s vid (q * PAGE_SIZE + off) bytes (s\<lparr>v_page_cache := pc\<rparr>)" by blast
    then show ?thesis using v Some by (simp add: page_for_write_def wp_simps) (simp add: wp_def)
  next
    case None
    consider (full) "alloc_page ?pc = Some (Inl NoSpace, ?pc)" "cache_full ?pc"
      | (page) p pc where "alloc_page ?pc = Some (Inr p, pc)" "pc_ok pc" "p < MAX_DATA_PAGES"
        "page_used ?pc p \<longrightarrow> \<not> cp_dirty (pc_pages ?pc ! p)" "\<forall>r. page_used pc r \<longleftrightarrow> r = p \<or> page_used ?pc r"
        "pc_pages pc = (pc_pages ?pc)[p := fresh_page]"
      using alloc_page_ok [OF D(2)] by blast
    then show ?thesis
    proof cases
      case full
      then show ?thesis using v None by (simp add: page_for_write_def wp_simps) (simp add: wp_def alloc_page_op_def)
    next
      case page
      define s2 where "s2 = s\<lparr>v_nodes := (v_nodes s)[vid := ?n\<lparr>vn_addr_space := snd (set_page q p (vn_addr_space ?n))\<rparr>], v_page_cache := pc\<rparr>"
      note P = page_entered [OF inv vid q None page(2-6) s2_def]
      have pc: "v_page_cache s2 = pc" by (simp add: s2_def)
      from put_chunk_wrote [OF P(1) [folded pc] P(2) off] obtain pc' where w: "put_chunk p off bytes s2 = Some (Inr (), s2\<lparr>v_page_cache := pc'\<rparr>)"
        "data_inv (s2\<lparr>v_page_cache := pc'\<rparr>)"
        "\<forall>i k. valid_vnode i s2 \<longrightarrow> file_byte (s2\<lparr>v_page_cache := pc'\<rparr>) i k =
         (if i = vid \<and> q * PAGE_SIZE + off \<le> k \<and> k < q * PAGE_SIZE + off + length bytes
          then bytes ! (k - (q * PAGE_SIZE + off)) else file_byte s2 i k)" by blast
      have "wrote s vid (q * PAGE_SIZE + off) bytes (s2\<lparr>v_page_cache := pc'\<rparr>)"
        unfolding wrote_def
        by (intro conjI exI [of _ "snd (set_page q p (vn_addr_space ?n))"] exI [of _ pc'])
          (use w P(3,4) in \<open>simp_all add: s2_def\<close>)
      with w(1) have "wp (put_chunk p off bytes) (\<lambda>_. wrote s vid (q * PAGE_SIZE + off) bytes) E s2" by (simp add: wp_def)
      moreover obtain sp where "set_page q p (vn_addr_space ?n) = (Inr (), sp)" using q by (auto simp: set_page_def)
      moreover have "wp alloc_page_op Q E' s = Q p (s\<lparr>v_page_cache := pc\<rparr>)" for Q E' using page(1) by (simp add: wp_def alloc_page_op_def)
      ultimately show ?thesis using v None by (simp add: page_for_write_def wp_simps s2_def vfs_upd_comm)
    qed
  qed
qed

lemma write_loop_wrote:
  assumes "data_inv s" and "valid_vnode vid s" and "off + length data \<le> max_size"
  shows "wp (write_loop vid off data) (\<lambda>_. wrote s vid off data)
    (\<lambda>e s'. e = NoSpace \<and> cache_full (v_page_cache s') \<and> (\<exists>k<length data. wrote s vid off (take k data) s')) s"
  using assms
proof (induction vid off data arbitrary: s rule: write_loop.induct)
  case (1 vid off data)
  show ?case
  proof (cases "data = []")
    case True
    then show ?thesis using wrote_refl [OF "1.prems"(1)] by (simp add: write_loop.simps wp_simps)
  next
    case False
    define q m n where "q = off div PAGE_SIZE" and "m = off mod PAGE_SIZE" and "n = min (PAGE_SIZE - m) (length data)"
    have m: "m < PAGE_SIZE" "q * PAGE_SIZE + m = off" by (simp_all add: m_def q_def PAGE_SIZE_def)
    have n: "0 < n" "n \<le> length data" "m + n \<le> PAGE_SIZE" using False m(1) by (auto simp: n_def)
    have q: "q < DIRECT_BLOCKS"
      using "1.prems"(3) n by (auto simp: q_def max_size_def max_pages_def less_mult_imp_div_less)
    let ?Q = "\<lambda>_. wrote s vid off data"
    let ?E = "\<lambda>e s'. e = NoSpace \<and> cache_full (v_page_cache s') \<and> (\<exists>k<length data. wrote s vid off (take k data) s')"
    have rest: "wp (write_loop vid (off + n) (drop n data)) ?Q ?E s1" if w: "wrote s vid off (take n data) s1" for s1
    proof -
      have v: "valid_vnode vid s1" using wrote_valid [OF w "1.prems"(1)] "1.prems"(2) by simp
      have "wp (write_loop vid (off + n) (drop n data)) (\<lambda>_. wrote s1 vid (off + n) (drop n data))
        (\<lambda>e s'. e = NoSpace \<and> cache_full (v_page_cache s') \<and> (\<exists>k<length (drop n data). wrote s1 vid (off + n) (take k (drop n data)) s')) s1"
        using "1.IH" [OF False q_def m_def n_def [unfolded m_def, folded m_def] wroteD(1) [OF w] v] "1.prems"(3) n(2) by simp
      then show ?thesis
      proof (rule wp_mono)
        fix x s'
        assume "wrote s1 vid (off + n) (drop n data) s'"
        then show "wrote s vid off data s'"
          using wrote_trans [OF w _ "1.prems"(1), of "drop n data" s'] n(2) by simp
      next
        fix e s'
        assume e: "e = NoSpace \<and> cache_full (v_page_cache s') \<and> (\<exists>k<length (drop n data). wrote s1 vid (off + n) (take k (drop n data)) s')"
        then obtain k where k: "k < length (drop n data)" "wrote s1 vid (off + n) (take k (drop n data)) s'" by blast
        from wrote_trans [OF w _ "1.prems"(1), of "take k (drop n data)" s'] k n(2)
        have "wrote s vid off (take (n + k) data) s'" by (simp add: take_add)
        then show "e = NoSpace \<and> cache_full (v_page_cache s') \<and> (\<exists>k<length data. wrote s vid off (take k data) s')"
          using e k(1) by (intro conjI exI [of _ "n + k"]) auto
      qed
    qed
    have none: "wrote s vid off (take 0 data) s" using wrote_refl [OF "1.prems"(1)] by simp
    have "wp (page_for_write vid q) (\<lambda>p. wp (put_chunk p m (take n data)) (\<lambda>_. wrote s vid off (take n data)) ?E)
        (\<lambda>e s'. e = NoSpace \<and> s' = s \<and> cache_full (v_page_cache s)) s"
      using write_chunk [OF "1.prems"(1,2) q, of m "take n data"] n m(2) by simp
    then have "wp (page_for_write vid q) (\<lambda>p. wp (put_chunk p m (take n data)) (\<lambda>_. wp (write_loop vid (off + n) (drop n data)) ?Q ?E) ?E) ?E s"
      by (elim wp_mono) (use rest False none in \<open>auto intro!: exI [of _ 0]\<close>)
    then show ?thesis
      unfolding write_loop.simps [of vid off data] using False by (simp add: Let_def wp_simps q_def m_def n_def)
  qed
qed

lemma write_tmpfs_spec:
  fixes s :: "'w vfs" and data :: "u8 list"
  assumes inv: "data_inv s" and vid: "valid_vnode vid s" and off: "off < max_size"
  defines "n \<equiv> min (length data) (max_size - off)"
  shows "wp (write_tmpfs vid off data)
    (\<lambda>k s'. k = n \<and> (\<exists>s1. wrote s vid off (take n data) s1
       \<and> s' = s1\<lparr>v_nodes := (v_nodes s1)[vid := (v_nodes s1 ! vid)\<lparr>vn_size := max (vn_size (v_nodes s ! vid)) (of_nat (off + n))\<rparr>]\<rparr>))
    (\<lambda>e s'. e = NoSpace \<and> cache_full (v_page_cache s') \<and> (\<exists>k<n. wrote s vid off (take k data) s')) s"
proof -
  have v: "vid < MAX_VNODES" "vid < length (v_nodes s)"
    using vid data_okD(1) [OF inv [unfolded data_inv_def]] by (simp_all add: valid_vnode_def)
  have "off + length (take n data) \<le> max_size" using off by (simp add: n_def)
  note W = write_loop_wrote [OF inv vid this]
  have sz: "vn_size (v_nodes s1 ! vid) = vn_size (v_nodes s ! vid)" if w: "wrote s vid off (take n data) s1" for s1
    by (rule wrote_frame [OF w]) (use v in simp)
  have "wp (write_loop vid off (take n data)) (\<lambda>_. wp (vseq (upd_node vid (\<lambda>nd. if of_nat (off + n) > vn_size nd
      then nd\<lparr>vn_size := of_nat (off + n)\<rparr> else nd)) (vret n))
    (\<lambda>k s'. k = n \<and> (\<exists>s1. wrote s vid off (take n data) s1
       \<and> s' = s1\<lparr>v_nodes := (v_nodes s1)[vid := (v_nodes s1 ! vid)\<lparr>vn_size := max (vn_size (v_nodes s ! vid)) (of_nat (off + n))\<rparr>]\<rparr>))
    (\<lambda>e s'. e = NoSpace \<and> cache_full (v_page_cache s') \<and> (\<exists>k<n. wrote s vid off (take k data) s')))
    (\<lambda>e s'. e = NoSpace \<and> cache_full (v_page_cache s') \<and> (\<exists>k<n. wrote s vid off (take k data) s')) s"
  proof (rule wp_mono [OF W])
    fix e s'
    assume "e = NoSpace \<and> cache_full (v_page_cache s') \<and> (\<exists>k<length (take n data). wrote s vid off (take k (take n data)) s')"
    then obtain k where "e = NoSpace" "cache_full (v_page_cache s')" "k < n" "wrote s vid off (take (min k n) data) s'"
      by (auto simp: n_def)
    then show "e = NoSpace \<and> cache_full (v_page_cache s') \<and> (\<exists>k<n. wrote s vid off (take k data) s')" by (auto simp: min_absorb1)
  next
    fix x s1
    assume w: "wrote s vid off (take n data) s1"
    have "(if of_nat (off + n) > vn_size (v_nodes s1 ! vid) then (v_nodes s1 ! vid)\<lparr>vn_size := of_nat (off + n)\<rparr> else v_nodes s1 ! vid)
      = (v_nodes s1 ! vid)\<lparr>vn_size := max (vn_size (v_nodes s ! vid)) (of_nat (off + n))\<rparr>"
      using sz [OF w] by (auto simp: max_def)
    then show "wp (vseq (upd_node vid (\<lambda>nd. if of_nat (off + n) > vn_size nd then nd\<lparr>vn_size := of_nat (off + n)\<rparr> else nd)) (vret n))
      (\<lambda>k s'. k = n \<and> (\<exists>s1. wrote s vid off (take n data) s1
       \<and> s' = s1\<lparr>v_nodes := (v_nodes s1)[vid := (v_nodes s1 ! vid)\<lparr>vn_size := max (vn_size (v_nodes s ! vid)) (of_nat (off + n))\<rparr>]\<rparr>))
      (\<lambda>e s'. e = NoSpace \<and> cache_full (v_page_cache s') \<and> (\<exists>k<n. wrote s vid off (take k data) s')) s1"
      using v w by (auto simp: wp_simps)
  qed
  then show ?thesis unfolding write_tmpfs_def n_def using off by (simp add: wp_simps Let_def)
qed

section \<open>Reading\<close>

definition page_byte :: "address_space \<Rightarrow> page_cache \<Rightarrow> nat \<Rightarrow> u8" where
  "page_byte a pc k =
     (case get_page (k div PAGE_SIZE) a of None \<Rightarrow> 0 | Some p \<Rightarrow> cp_data (pc_pages pc ! p) ! (k mod PAGE_SIZE))"

lemma file_byte_page: "file_byte s i k = page_byte (vn_addr_space (v_nodes s ! i)) (v_page_cache s) k"
  by (simp add: file_byte_def page_byte_def)

lemma read_pages_bytes:
  assumes "pc_ok pc" and "\<And>q p. get_page q a = Some p \<Longrightarrow> page_used pc p"
  shows "fst (read_pages a off n pc) = map (page_byte a pc) [off..<off + n] \<and> pc_ok (snd (read_pages a off n pc))
    \<and> pc_pages (snd (read_pages a off n pc)) = pc_pages pc \<and> page_used (snd (read_pages a off n pc)) = page_used pc"
  using assms
proof (induction a off n pc rule: read_pages.induct)
  case (1 a off n pc)
  show ?case
  proof (cases "n = 0")
    case True
    then show ?thesis using "1.prems" by (simp add: read_pages.simps)
  next
    case False
    define q m c where "q = off div PAGE_SIZE" and "m = off mod PAGE_SIZE" and "c = min (PAGE_SIZE - m) n"
    have m: "m < PAGE_SIZE" "off = q * PAGE_SIZE + m" by (simp_all add: m_def q_def PAGE_SIZE_def)
    have c: "0 < c" "c \<le> n" "m + c \<le> PAGE_SIZE" using False m(1) by (auto simp: c_def)
    obtain bytes pc1 where b: "(case get_page q a of
                 Some pid \<Rightarrow> (case get_page_data pid pc of
                      (Some data, pc') \<Rightarrow> (slice m (m + c) data, pc') | (None, pc') \<Rightarrow> (replicate c 0, pc'))
               | None \<Rightarrow> (replicate c 0, pc)) = (bytes, pc1)" (is "?b = _") by (cases ?b) blast
    have pc1: "pc_ok pc1 \<and> pc_pages pc1 = pc_pages pc \<and> page_used pc1 = page_used pc \<and> bytes = map (page_byte a pc) [off..<off + c]"
    proof -
      have div: "(off + j) div PAGE_SIZE = q" "(off + j) mod PAGE_SIZE = m + j" if "j < c" for j
        using that c(3) m(2) by (simp_all add: mult.commute [of q] div_mult_self4 mod_mult_self4 add.assoc)
      show ?thesis
      proof (cases "get_page q a")
        case None
        then have "bytes = replicate c 0" "pc1 = pc" using b by simp_all
        moreover have "map (page_byte a pc) [off..<off + c] = replicate c 0"
          by (rule nth_equalityI) (use None div in \<open>auto simp: page_byte_def\<close>)
        ultimately show ?thesis using "1.prems"(1) by simp
      next
        case (Some p)
        note u = "1.prems"(2) [OF Some]
        note G = get_page_data_ok [OF "1.prems"(1), of p]
        have "bytes = slice m (m + c) (cp_data (pc_pages pc ! p))" "pc1 = snd (get_page_data p pc)"
          using b Some G(4) u by (auto split: prod.splits option.splits)
        moreover have "length (cp_data (pc_pages pc ! p)) = PAGE_SIZE"
          using pc_ok_data [OF "1.prems"(1)] u by (simp add: page_used_def)
        then have "slice m (m + c) (cp_data (pc_pages pc ! p)) = map (page_byte a pc) [off..<off + c]"
          by (intro nth_equalityI) (use c(3) div Some in \<open>auto simp: nth_slice page_byte_def\<close>)
        ultimately show ?thesis using G by simp
      qed
    qed
    have pb: "page_byte a pc1 = page_byte a pc" using pc1 by (intro ext) (simp add: page_byte_def split: option.split)
    have IH: "fst (read_pages a (off + c) (n - c) pc1) = map (page_byte a pc1) [off + c..<off + c + (n - c)] \<and> pc_ok (snd (read_pages a (off + c) (n - c) pc1))
    \<and> pc_pages (snd (read_pages a (off + c) (n - c) pc1)) = pc_pages pc1 \<and> page_used (snd (read_pages a (off + c) (n - c) pc1)) = page_used pc1"
      by (rule "1.IH" [OF False q_def m_def c_def [unfolded m_def, folded m_def] b [symmetric] refl]) (use pc1 "1.prems"(2) in simp_all)
    have "map (page_byte a pc) [off..<off + n] = map (page_byte a pc) [off..<off + c] @ map (page_byte a pc) [off + c..<off + n]"
      using upt_add_eq_append [of off "off + c" "n - c"] c(2) by (simp flip: map_append)
    moreover have "read_pages a off n pc = (bytes @ fst (read_pages a (off + c) (n - c) pc1), snd (read_pages a (off + c) (n - c) pc1))"
      unfolding read_pages.simps [of a off n] Let_def q_def [symmetric] m_def [symmetric] c_def [symmetric] b
      using False by (simp split: prod.split)
    ultimately show ?thesis using IH pc1 pb c(2) by simp
  qed
qed

section \<open>Files\<close>

definition file_size :: "'w vfs \<Rightarrow> nat \<Rightarrow> nat" where
  "file_size s i = unat (vn_size (v_nodes s ! i))"

text \<open>A live file whose bytes are in the page cache, and one that may be written too.\<close>

definition cached_file :: "'w vfs \<Rightarrow> nat \<Rightarrow> bool" where
  "cached_file s i = (valid_vnode i s \<and> \<not> is_dir (v_nodes s ! i) \<and> \<not> is_ext_backed (v_nodes s ! i)
     \<and> vn_static_data (v_nodes s ! i) = None)"

definition plain_file :: "'w vfs \<Rightarrow> nat \<Rightarrow> bool" where
  "plain_file s i = (cached_file s i \<and> \<not> is_readonly_fs (v_nodes s ! i) \<and> \<not> vf_immutable (vn_flags (v_nodes s ! i)))"

lemma max_size_word: "n \<le> max_size \<Longrightarrow> unat (of_nat n :: u64) = n"
  by (simp add: unat_of_nat take_bit_nat_eq_self max_size_def max_pages_def DIRECT_BLOCKS_def PAGE_SIZE_def)

lemma write_at_vnode_plain:
  "plain_file s vid \<Longrightarrow> buf \<noteq> [] \<Longrightarrow> write_at_vnode env vid offset buf s = write_tmpfs vid (unat offset) buf s"
  by (simp add: plain_file_def cached_file_def write_at_vnode_def vbind_def vseq_def vget_def vcheck_def vret_def node_at_def
      valid_vnode_def)

lemma wrote_nodes:
  assumes "wrote s vid start bytes s'" and "i \<noteq> vid"
  shows "v_nodes s' ! i = v_nodes s ! i"
  by (rule wrote_frame [OF assms(1)]) (use assms(2) in simp)

lemma write_outcome:
  assumes inv: "data_inv s" and vid: "valid_vnode vid s" and off: "off < max_size"
    and r: "write_tmpfs vid off buf s = Some (r, s')"
  shows "\<exists>k s1. k \<le> min (length buf) (max_size - off) \<and> wrote s vid off (take k buf) s1
    \<and> (case r of
         Inr n \<Rightarrow> n = k \<and> k = min (length buf) (max_size - off)
           \<and> s' = s1\<lparr>v_nodes := (v_nodes s1)[vid := (v_nodes s1 ! vid)\<lparr>vn_size := max (vn_size (v_nodes s ! vid)) (of_nat (off + k))\<rparr>]\<rparr>
       | Inl e \<Rightarrow> e = NoSpace \<and> cache_full (v_page_cache s') \<and> k < min (length buf) (max_size - off) \<and> s' = s1)"
proof (cases r)
  case (Inl e)
  from wpD(2) [OF write_tmpfs_spec [OF inv vid off] r [unfolded Inl]] obtain k where
    "e = NoSpace" "cache_full (v_page_cache s')" "k < min (length buf) (max_size - off)" "wrote s vid off (take k buf) s'" by blast
  then show ?thesis using Inl by (intro exI [of _ k] exI [of _ s']) simp
next
  case (Inr n)
  from wpD(1) [OF write_tmpfs_spec [OF inv vid off] r [unfolded Inr]] obtain s1 where
    "n = min (length buf) (max_size - off)" "wrote s vid off (take n buf) s1"
    "s' = s1\<lparr>v_nodes := (v_nodes s1)[vid := (v_nodes s1 ! vid)\<lparr>vn_size := max (vn_size (v_nodes s ! vid)) (of_nat (off + n))\<rparr>]\<rparr>" by blast
  then show ?thesis using Inr by (intro exI [of _ n] exI [of _ s1]) simp
qed

lemma data_inv_upd_size:
  assumes "data_inv s"
  shows "data_inv (s\<lparr>v_nodes := (v_nodes s)[i := (v_nodes s ! i)\<lparr>vn_size := z\<rparr>]\<rparr>)"
    "file_byte (s\<lparr>v_nodes := (v_nodes s)[i := (v_nodes s ! i)\<lparr>vn_size := z\<rparr>]\<rparr>) j k = file_byte s j k"
proof -
  show "data_inv (s\<lparr>v_nodes := (v_nodes s)[i := (v_nodes s ! i)\<lparr>vn_size := z\<rparr>]\<rparr>)"
    using data_ok_upd [OF assms [unfolded data_inv_def], of i "(v_nodes s ! i)\<lparr>vn_size := z\<rparr>"] by (simp add: data_inv_def)
  show "file_byte (s\<lparr>v_nodes := (v_nodes s)[i := (v_nodes s ! i)\<lparr>vn_size := z\<rparr>]\<rparr>) j k = file_byte s j k"
    by (cases "i = j"; cases "i < length (v_nodes s)") (simp_all add: file_byte_page list_update_beyond)
qed

lemma read_at_vnode_cached:
  assumes inv: "data_inv s" and f: "cached_file s vid" and "0 < len"
  shows "\<exists>s'. read_at_vnode env vid offset len s =
      Some (Inr (map (file_byte s vid) [unat offset..<min (unat offset + len) (file_size s vid)]), s')
    \<and> data_inv s' \<and> v_nodes s' = v_nodes s \<and> (\<forall>i k. file_byte s' i k = file_byte s i k)"
proof -
  let ?n = "v_nodes s ! vid" and ?pc = "v_page_cache s"
  note ok = inv [unfolded data_inv_def]
  note D = data_okD [OF ok]
  have v: "vid < MAX_VNODES" "vn_active ?n" using f by (simp_all add: cached_file_def valid_vnode_def)
  have e: "read_at_vnode env vid offset len s = read_tmpfs vid offset len s"
    using f v assms(3) by (simp add: cached_file_def read_at_vnode_def vbind_def vseq_def vget_def vcheck_def vret_def node_at_def valid_vnode_def)
  show ?thesis
  proof (cases "offset \<ge> vn_size ?n")
    case True
    then have "unat offset \<ge> file_size s vid" by (simp add: file_size_def word_le_nat_alt)
    then show ?thesis using True v inv by (simp add: e read_tmpfs_def vbind_def node_at_def vret_def)
  next
    case False
    define m where "m = min len (unat (vn_size ?n - offset))"
    have "unat (vn_size ?n - offset) = file_size s vid - unat offset" "unat offset < file_size s vid"
      using False unat_sub [of offset "vn_size ?n"] by (simp_all add: file_size_def word_less_nat_alt word_le_nat_alt not_le)
    then have m: "unat offset + m = min (unat offset + len) (file_size s vid)" by (auto simp: m_def)
    have "page_used ?pc p" if "get_page q (vn_addr_space ?n) = Some p" for q p
      using D(4) [of vid q p] that v by (simp add: owns_def)
    note R = read_pages_bytes [OF D(2) this, where off = "unat offset" and n = m]
    define s' where "s' = s\<lparr>v_page_cache := snd (read_pages (vn_addr_space ?n) (unat offset) m ?pc)\<rparr>"
    have "read_tmpfs vid offset len s = Some (Inr (fst (read_pages (vn_addr_space ?n) (unat offset) m ?pc)), s')"
      using False v by (simp add: read_tmpfs_def vbind_def node_at_def vcall_def s'_def Let_def split: prod.split flip: m_def)
    moreover have "map (page_byte (vn_addr_space ?n) ?pc) = map (file_byte s vid)" by (simp add: file_byte_page fun_eq_iff)
    moreover have "data_inv s'" unfolding data_inv_def s'_def using R
      by (simp add: data_ok_cache [OF ok])
    moreover have "file_byte s' i k = file_byte s i k" for i k
      using R by (simp add: file_byte_def s'_def split: option.split)
    ultimately show ?thesis using R m by (simp add: e) (simp add: s'_def)
  qed
qed

section \<open>Properties\<close>

text \<open>C3: A write to a tmpfs file by node changes that file and nothing else. It always returns.
  Within the size limit it either stores the longest prefix of the buffer that fits, extends
  the size as needed and leaves every other byte of the file as it was, or fails with
  \<open>NoSpace\<close> when every page of the cache is in use and dirty, with the size unchanged; past the limit it
  fails with \<open>FileTooLarge\<close> and changes nothing. In every case the bytes and nodes of all other
  live files stay the same and the ownership invariant holds again.\<close>

theorem write_changes_one_file:
  assumes "data_inv s" and "plain_file s vid" and "buf \<noteq> []"
  shows "\<exists>r s'. write_at_vnode env vid offset buf s = Some (r, s') \<and> data_inv s'
    \<and> (case r of
         Inr n \<Rightarrow> n = min (length buf) (max_size - unat offset) \<and> n > 0
           \<and> file_size s' vid = max (file_size s vid) (unat offset + n)
           \<and> (\<forall>k. file_byte s' vid k =
                (if unat offset \<le> k \<and> k < unat offset + n then buf ! (k - unat offset) else file_byte s vid k))
       | Inl e \<Rightarrow> if unat offset \<ge> max_size then e = FileTooLarge \<and> s' = s
           else e = NoSpace \<and> cache_full (v_page_cache s') \<and> file_size s' vid = file_size s vid \<and> (\<forall>k<unat offset. file_byte s' vid k = file_byte s vid k))
    \<and> (\<forall>i. i \<noteq> vid \<and> valid_vnode i s \<longrightarrow> v_nodes s' ! i = v_nodes s ! i \<and> (\<forall>k. file_byte s' i k = file_byte s i k))"
proof (cases "unat offset < max_size")
  case False
  then have "write_at_vnode env vid offset buf s = Some (Inl FileTooLarge, s)"
    by (simp add: write_at_vnode_plain [OF assms(2,3)] write_tmpfs_def vseq_def vbind_def vcheck_def vfail_def)
  with False assms(1) show ?thesis by auto
next
  case True
  let ?off = "unat offset" and ?n = "min (length buf) (max_size - unat offset)"
  have vid: "valid_vnode vid s" using assms(2) by (simp add: plain_file_def cached_file_def)
  then have lt: "vid < length (v_nodes s)" using data_okD(1) [OF assms(1) [unfolded data_inv_def]] by (simp add: valid_vnode_def)
  obtain r s' where e: "write_tmpfs vid ?off buf s = Some (r, s')"
    using wp_returns [OF write_tmpfs_spec [OF assms(1) vid True, of buf]] by blast
  from write_outcome [OF assms(1) vid True e] obtain k s1 where k: "k \<le> ?n" and w: "wrote s vid ?off (take k buf) s1"
    and c: "case r of
         Inr n \<Rightarrow> n = k \<and> k = ?n
           \<and> s' = s1\<lparr>v_nodes := (v_nodes s1)[vid := (v_nodes s1 ! vid)\<lparr>vn_size := max (vn_size (v_nodes s ! vid)) (of_nat (?off + k))\<rparr>]\<rparr>
       | Inl e \<Rightarrow> e = NoSpace \<and> cache_full (v_page_cache s') \<and> k < ?n \<and> s' = s1" by blast
  note W = wroteD [OF w]
  have lt1: "vid < length (v_nodes s1)" "vn_size (v_nodes s1 ! vid) = vn_size (v_nodes s ! vid)"
    by (rule wrote_frame [OF w]; use lt in simp)+
  show ?thesis
  proof (cases r)
    case (Inl e')
    then show ?thesis
      using e c True W(1) W(2) [OF vid] W(2) wrote_nodes [OF w] lt1(2)
      by (auto simp: write_at_vnode_plain [OF assms(2,3)] file_size_def)
  next
    case (Inr n)
    with c have n: "n = ?n" "k = n" and s': "s' = s1\<lparr>v_nodes := (v_nodes s1)[vid := (v_nodes s1 ! vid)\<lparr>vn_size := max (vn_size (v_nodes s ! vid)) (of_nat (?off + n))\<rparr>]\<rparr>"
      by auto
    have "0 < n" using True assms(3) by (simp add: n(1))
    have "?off + n \<le> max_size" using True by (simp add: n(1))
    then have size: "file_size s' vid = max (file_size s vid) (?off + n)"
      using lt1 max_size_word [of "?off + n"] by (auto simp: file_size_def s' max_def word_le_nat_alt)
    have byte: "file_byte s' i j = (if i = vid \<and> ?off \<le> j \<and> j < ?off + n then buf ! (j - ?off) else file_byte s i j)"
      if "valid_vnode i s" for i j
    proof -
      have "length (take k buf) = n" using n by simp
      with W(2) [OF that, of j] show ?thesis
        unfolding s' data_inv_upd_size(2) [OF W(1)] n(2) by (auto simp: less_diff_conv2)
    qed
    have other: "v_nodes s' ! i = v_nodes s ! i" if "i \<noteq> vid" for i using wrote_nodes [OF w that] that by (simp add: s')
    have "data_inv s'" unfolding s' by (rule data_inv_upd_size [OF W(1)])
    then show ?thesis
      unfolding write_at_vnode_plain [OF assms(2,3)] e Inr
      using \<open>0 < n\<close> n(1) size byte [OF vid] byte other by (intro exI [of _ "Inr n"] exI [of _ s']) simp
  qed
qed

text \<open>C8: A read of a tmpfs file by node always returns, with exactly the bytes of the file
  between the offset and the end of the request or of the file, whichever comes first (holes
  read as zeros). It changes no node and no byte of any file.\<close>

theorem read_returns_bytes:
  assumes "data_inv s" and "cached_file s vid" and "0 < len"
  shows "\<exists>s'. read_at_vnode env vid offset len s =
      Some (Inr (map (file_byte s vid) [unat offset..<min (unat offset + len) (file_size s vid)]), s')
    \<and> data_inv s' \<and> v_nodes s' = v_nodes s \<and> (\<forall>i k. file_byte s' i k = file_byte s i k)"
  by (rule read_at_vnode_cached [OF assms])

text \<open>C9: What was written is read back: when a write to a tmpfs file stored \<open>n\<close> bytes at an
  offset, reading \<open>n\<close> bytes there returns the first \<open>n\<close> bytes of the buffer.\<close>

theorem write_read_roundtrip:
  assumes "data_inv s" and "plain_file s vid" and "buf \<noteq> []"
    and "write_at_vnode env vid offset buf s = Some (Inr n, s1)"
  shows "\<exists>s2. read_at_vnode env vid offset n s1 = Some (Inr (take n buf), s2)"
proof -
  have vid: "valid_vnode vid s" and lt: "vid < length (v_nodes s)"
    using assms(2) data_okD(1) [OF assms(1) [unfolded data_inv_def]] by (simp_all add: plain_file_def cached_file_def valid_vnode_def)
  have w: "write_tmpfs vid (unat offset) buf s = Some (Inr n, s1)" using assms(4) write_at_vnode_plain [OF assms(2,3)] by simp
  then have off: "unat offset < max_size"
    by (rule contrapos_pp) (simp add: write_tmpfs_def vseq_def vbind_def vcheck_def vfail_def)
  from write_outcome [OF assms(1) vid off w] obtain s0 where n: "n = min (length buf) (max_size - unat offset)"
    and w: "wrote s vid (unat offset) (take n buf) s0"
    and s1: "s1 = s0\<lparr>v_nodes := (v_nodes s0)[vid := (v_nodes s0 ! vid)\<lparr>vn_size := max (vn_size (v_nodes s ! vid)) (of_nat (unat offset + n))\<rparr>]\<rparr>"
    by auto
  have "0 < n" using off assms(3) by (simp add: n)
  obtain a pc where s0: "s0 = s\<lparr>v_nodes := (v_nodes s)[vid := (v_nodes s ! vid)\<lparr>vn_addr_space := a\<rparr>], v_page_cache := pc\<rparr>"
    by (rule wrote_frame [OF w])
  have "cached_file s1 vid"
    using assms(2) lt by (simp add: s1 s0 cached_file_def plain_file_def valid_vnode_def is_dir_def is_ext_backed_def)
  from read_at_vnode_cached [OF data_inv_upd_size(1) [OF wroteD(1) [OF w]] this [unfolded s1] \<open>0 < n\<close>, folded s1, of env offset]
  obtain s2 where "read_at_vnode env vid offset n s1 =
      Some (Inr (map (file_byte s1 vid) [unat offset..<min (unat offset + n) (file_size s1 vid)]), s2)" by blast
  moreover have "unat offset + n \<le> file_size s1 vid"
    using lt off max_size_word [of "unat offset + n"] by (simp add: s1 s0 file_size_def n max_def word_le_nat_alt)
  moreover have "map (file_byte s1 vid) [unat offset..<unat offset + n] = take n buf"
    by (rule nth_equalityI) (use wroteD(2) [OF w vid] n in \<open>auto simp: s1 data_inv_upd_size(2) [OF wroteD(1) [OF w]]\<close>)
  ultimately show ?thesis by (simp add: min_absorb1)
qed

section \<open>Witnesses\<close>

text \<open>A file system with one empty file, at node 5.\<close>

definition one_file :: "unit vfs" where
  "one_file = \<lparr>v_nodes = (replicate MAX_VNODES vn_empty)[5 := vn_init 5 0 [0x61] Regular TmpFS 0x1A4 0 0 0],
     v_page_cache = pc_new, v_mounts = mt_new, v_fd_tables = [],
     v_ctx = \<lparr>pc_pid = 0, pc_cred = cred_root, pc_umask = 0x12, pc_cwd = 0, pc_root = 0\<rparr>,
     v_ext2_mount_active = False, v_vnode_free_hint = 1, v_world = ()\<rparr>"

lemma data_ok_no_pages:
  assumes "length ns = MAX_VNODES" and "\<And>i. i < MAX_VNODES \<Longrightarrow> vn_addr_space (ns ! i) = as_new" and "pc_ok pc"
  shows "data_ok ns pc"
proof -
  have "\<not> owns ns i q p" for i q p using assms(2) by (simp add: owns_def)
  then show ?thesis using assms by (simp add: data_ok_def)
qed

lemma one_file_node:
  "v_nodes one_file ! 5 = vn_init 5 0 [0x61] Regular TmpFS 0x1A4 0 0 0" "valid_vnode 5 one_file"
  by (simp_all add: one_file_def valid_vnode_def MAX_VNODES_def)

lemma data_inv_one_file: "data_inv one_file"
  unfolding data_inv_def
proof (rule data_ok_no_pages)
  show "vn_addr_space (v_nodes one_file ! i) = as_new" if "i < MAX_VNODES" for i
    using that by (cases "i = 5") (simp_all add: one_file_node, simp_all add: one_file_def vn_empty_def)
qed (simp_all add: one_file_def pc_ok_new)

lemma plain_one_file: "plain_file one_file 5" "cached_file one_file 5"
  by (simp_all add: plain_file_def cached_file_def one_file_node is_dir_def is_ext_backed_def is_readonly_fs_def vf_empty_def)

theorem write_changes_one_file_witness:
  "\<forall>env. \<exists>r s'. write_at_vnode env 5 600 [7, 8, 9] one_file = Some (r, s') \<and> data_inv s'"
  using write_changes_one_file [OF data_inv_one_file plain_one_file(1), of "[7, 8, 9]"] by blast

theorem read_returns_bytes_witness:
  "\<forall>env. \<exists>s'. read_at_vnode env 5 600 3 one_file = Some (Inr [], s')"
proof
  fix env :: "unit env"
  have "file_size one_file 5 = 0" by (simp add: file_size_def one_file_node)
  then show "\<exists>s'. read_at_vnode env 5 600 3 one_file = Some (Inr [], s')"
    using read_returns_bytes [OF data_inv_one_file plain_one_file(2), of 3 env 600] by auto
qed

theorem write_read_roundtrip_witness:
  "\<forall>env. \<exists>s1 s2. write_at_vnode env 5 600 [7, 8, 9] one_file = Some (Inr 3, s1)
    \<and> read_at_vnode env 5 600 3 s1 = Some (Inr [7, 8, 9], s2)"
proof
  fix env :: "unit env"
  have "\<not> cache_full (v_page_cache one_file)"
    by (auto simp: cache_full_def one_file_def pc_new_def cp_empty_def MAX_DATA_PAGES_def intro!: exI [of _ 0])
  then have "wp (write_loop 5 600 [7, 8, 9]) (\<lambda>_ _. True) (\<lambda>_ _. False) one_file"
    using write_chunk [OF data_inv_one_file one_file_node(2), of 1 88 "[7, 8, 9]" "\<lambda>_ _. False"]
    by (simp add: write_loop.simps [of 5 600] write_loop.simps [of _ _ "[]"] PAGE_SIZE_def DIRECT_BLOCKS_def wp_simps Let_def)
      (auto elim!: wp_mono)
  then obtain s1 where "write_at_vnode env 5 600 [7, 8, 9] one_file = Some (Inr 3, s1)"
    unfolding write_at_vnode_plain [OF plain_one_file(1), of "[7, 8, 9]", simplified]
    by (auto simp: wp_def write_tmpfs_def vseq_def vbind_def vcheck_def vret_def max_size_def max_pages_def DIRECT_BLOCKS_def PAGE_SIZE_def
        upd_node_def MAX_VNODES_def split: option.splits sum.splits)
  with write_read_roundtrip [OF data_inv_one_file plain_one_file(1), of "[7, 8, 9]" env 600 3 s1]
  show "\<exists>s1 s2. write_at_vnode env 5 600 [7, 8, 9] one_file = Some (Inr 3, s1)
    \<and> read_at_vnode env 5 600 3 s1 = Some (Inr [7, 8, 9], s2)" by auto
qed

end
