(* ===== verification/VfsInv.thy ===== *)
theory VfsInv
  imports Boot FileData
begin

text \<open>
  The ownership invariant over whole runs of the file system. \<open>pres\<close> is the preservation of an
  invariant by the calls of an operation that return; the rules follow the shape of the
  operations, so that an operation is covered by the rules for the calls it makes. Two
  sequences break the invariant halfway and are covered as a whole: writing a page just
  allocated, and freeing the pages of a node before the node drops them.
\<close>

definition pres :: "('s \<Rightarrow> bool) \<Rightarrow> ('s, 'a) vop \<Rightarrow> bool" where
  "pres I m = (\<forall>s r s'. I s \<longrightarrow> m s = Some (r, s') \<longrightarrow> I s')"

named_theorems pres_intro \<open>operations that keep an invariant when they return\<close>

lemma presD: "pres I m \<Longrightarrow> I s \<Longrightarrow> m s = Some (r, s') \<Longrightarrow> I s'"
  by (simp add: pres_def)

lemma pres_basic [pres_intro]:
  "pres I (vret x)" "pres I (vfail e)" "pres I (vget f)" "pres I (vcheck b e)" "pres I (node_at i)"
  by (auto simp: pres_def vret_def vfail_def vget_def vcheck_def node_at_def)

lemma pres_vbind [pres_intro]: "pres I m \<Longrightarrow> (\<And>x. pres I (k x)) \<Longrightarrow> pres I (vbind m k)"
proof -
  assume m: "pres I m" and k: "\<And>x. pres I (k x)"
  have "I s'" if "I s" "vbind m k s = Some (r, s')" for s r s'
  proof -
    from that(2) obtain r1 s1 where m1: "m s = Some (r1, s1)" by (auto simp: vbind_def split: option.splits)
    with that m have "I s1" by (blast dest: presD)
    then show ?thesis using that(2) m1 k by (cases r1) (auto simp: vbind_def dest: presD)
  qed
  then show ?thesis by (simp add: pres_def)
qed

lemma pres_vseq [pres_intro]: "pres I m \<Longrightarrow> pres I k \<Longrightarrow> pres I (vseq m k)"
  unfolding vseq_def by (intro pres_vbind)

lemma pres_vtry [pres_intro]: "pres I m \<Longrightarrow> pres I (vtry m)"
  by (simp add: pres_def vtry_def split: option.splits)

lemma pres_vignore [pres_intro]: "pres I m \<Longrightarrow> pres I (vignore m)" for I :: "'w vfs \<Rightarrow> bool"
  unfolding vignore_def by (intro pres_intro)

lemma pres_case [pres_intro]:
  "pres I a \<Longrightarrow> (\<And>y. pres I (b y)) \<Longrightarrow> pres I (case x of None \<Rightarrow> a | Some y \<Rightarrow> b y)"
  "(\<And>u. pres I (c u)) \<Longrightarrow> (\<And>v. pres I (d v)) \<Longrightarrow> pres I (case y of Inl u \<Rightarrow> c u | Inr v \<Rightarrow> d v)"
  "(\<And>u v. pres I (f u v)) \<Longrightarrow> pres I (case p of (u, v) \<Rightarrow> f u v)"
  "pres I e1 \<Longrightarrow> (\<And>e. pres I (e2 e)) \<Longrightarrow> (\<And>v. pres I (e3 v)) \<Longrightarrow> pres I (case z of ExtNone \<Rightarrow> e1 | ExtErr e \<Rightarrow> e2 e | ExtOk v \<Rightarrow> e3 v)"
  "pres I d1 \<Longrightarrow> pres I d2 \<Longrightarrow> pres I d3 \<Longrightarrow> pres I d4 \<Longrightarrow> (\<And>u v. pres I (d5 u v)) \<Longrightarrow>
   pres I (case dt of Null \<Rightarrow> d1 | Zero \<Rightarrow> d2 | Random \<Rightarrow> d3 | Console \<Rightarrow> d4 | Block u v \<Rightarrow> d5 u v)"
  "pres I m \<Longrightarrow> pres I m' \<Longrightarrow> pres I (if cond then m else m')"
  by (simp_all split: option.split sum.split prod.split ext_result.split dev_type.split)

lemma pres_let [pres_intro]: "(\<And>x. pres I (f x)) \<Longrightarrow> pres I (let x = t in f x)"
  by simp

lemma pres_tally [pres_intro]: "(\<And>x. pres I (f x)) \<Longrightarrow> pres I (tally f xs)"
  by (induction xs) (auto intro!: pres_intro)

lemma pres_each [pres_intro]: "(\<And>x. pres I (f x)) \<Longrightarrow> pres I (each f xs)"
  by (induction xs) (auto intro: pres_basic pres_vseq)

section \<open>Calls that leave the pages alone\<close>

lemma pres_on_world [pres_intro]: "pres data_inv (on_world f)"
  by (auto simp: pres_def on_world_def data_inv_def split: prod.splits)

lemma pres_ext_expect [pres_intro]: "pres I (ext_expect e r)"
  unfolding ext_expect_def by (intro pres_intro)

lemma pres_fds [pres_intro]: "pres data_inv (fds env)"
  by (auto simp: pres_def fds_def fds_for_def data_inv_def split: option.splits)

lemma pres_on_fds [pres_intro]: "pres data_inv (on_fds env f)"
  unfolding on_fds_def
  by (intro pres_vbind pres_fds) (auto simp: pres_def data_inv_def split: prod.splits)

text \<open>A change of a node that gives it no page it did not have.\<close>

definition no_new_pages :: "(vnode \<Rightarrow> vnode) \<Rightarrow> bool" where
  "no_new_pages f = (\<forall>n. (as_wf (vn_addr_space n) \<longrightarrow> as_wf (vn_addr_space (f n)))
     \<and> (\<forall>q p. vn_active (f n) \<longrightarrow> get_page q (vn_addr_space (f n)) = Some p \<longrightarrow>
          vn_active n \<and> get_page q (vn_addr_space n) = Some p))"

lemma pres_upd_node: "no_new_pages f \<Longrightarrow> pres data_inv (upd_node i f)"
  unfolding pres_def upd_node_def data_inv_def no_new_pages_def by (auto intro!: data_ok_upd)

text \<open>The updates that occur.\<close>

lemma no_new_pages_same:
  "(\<And>n. vn_active (f n) \<Longrightarrow> vn_active n) \<Longrightarrow> (\<And>n. as_direct (vn_addr_space (f n)) = as_direct (vn_addr_space n)) \<Longrightarrow> no_new_pages f"
  by (auto simp: no_new_pages_def as_wf_def get_page_def)

lemma no_new_pages_fresh: "(\<And>n. vn_addr_space (f n) = as_new) \<Longrightarrow> no_new_pages f"
  by (simp add: no_new_pages_def)

lemmas pres_upd = pres_upd_node [OF no_new_pages_same]

lemma pres_new_node: "vn_addr_space n = as_new \<Longrightarrow> pres data_inv (upd_node i (\<lambda>_. n))"
  by (intro pres_upd_node no_new_pages_fresh)

lemma pres_alloc_vnode [pres_intro]: "pres data_inv alloc_vnode"
  unfolding alloc_vnode_def
  by (intro pres_intro) (auto simp: pres_def vmod_def data_inv_def)

lemma pres_checks [pres_intro]:
  "pres I (check_access i fl)" "pres I (check_dir_write i)" "pres I (validate_name nm)" "pres I (check_not_inside i j)"
  unfolding check_dir_write_def check_access_def validate_name_def
  by (intro pres_intro)+ (auto simp: pres_def check_not_inside_def split: option.splits)

lemma pres_ensure_no_duplicate [pres_intro]: "pres data_inv (ensure_no_duplicate env i nm)"
  unfolding ensure_no_duplicate_def by (intro pres_intro)

lemma pres_node [pres_intro]:
  "pres data_inv (upd_node i inc_ref)" "pres data_inv (upd_node i dec_ref)"
  "pres data_inv (upd_node i (touch_atime t))" "pres data_inv (upd_node i (touch_mtime t))" "pres data_inv (upd_node i (touch_ctime t))"
  "pres data_inv (upd_node i (\<lambda>n. n\<lparr>vn_active := False\<rparr>))"
  by (rule pres_upd_node, rule no_new_pages_same;
      simp add: inc_ref_def dec_ref_def touch_atime_def touch_mtime_def touch_ctime_def split: if_splits)+

lemma pres_add_ext_child [pres_intro]: "pres data_inv (add_ext_child env p nm info nid)"
  unfolding add_ext_child_def
  by (intro pres_intro pres_new_node) (auto simp: Let_def intro!: pres_upd)

lemma pres_lookup [pres_intro]: "pres data_inv (lookup_child_or_load env p nm)"
  unfolding lookup_child_or_load_def ext2_lazy_lookup_def by (intro pres_intro)

lemma pres_link_loop: "(\<And>i. pres data_inv (follow i)) \<Longrightarrow> pres data_inv (link_loop env follow cs cur)"
  by (induction cs arbitrary: cur) (auto intro!: pres_intro)

lemma pres_follow [pres_intro]: "pres data_inv (follow_symlink env i d)"
proof -
  have "pres data_inv (follow_links env k i)" for k
    by (induction k arbitrary: i) (auto simp: Let_def intro!: pres_intro pres_link_loop)
  then show ?thesis by (simp add: follow_symlink_def)
qed

lemma pres_resolve_loop: "pres data_inv (resolve_loop env left cs depth cur)"
  by (induction cs arbitrary: left depth cur) (auto simp: Let_def intro!: pres_intro)

lemma pres_resolve [pres_intro]:
  "pres data_inv (resolve_path env cwd path)" "pres data_inv (resolve_path_lstat env cwd path)"
  unfolding resolve_path_def resolve_path_lstat_def Let_def by (intro pres_intro pres_resolve_loop)+

lemma pres_resolve_follow [pres_intro]: "pres data_inv (resolve_path_follow env cwd path)"
proof -
  have "pres data_inv (follow_final env k i)" for k i
    by (induction k arbitrary: i) (auto simp: Let_def intro!: pres_intro)
  then show ?thesis unfolding resolve_path_follow_def by (intro pres_intro)
qed

lemma pres_split_path [pres_intro]: "pres data_inv (split_path env cwd path)"
  unfolding split_path_def Let_def by (intro pres_intro)

section \<open>Reading and writing pages\<close>

lemma read_pages_cache:
  "pc_ok pc \<Longrightarrow> pc_ok (snd (read_pages a off n pc)) \<and> pc_pages (snd (read_pages a off n pc)) = pc_pages pc
    \<and> page_used (snd (read_pages a off n pc)) = page_used pc"
proof (induction a off n pc rule: read_pages.induct)
  case (1 a off n pc)
  show ?case
  proof (cases "n = 0")
    case True
    then show ?thesis using "1.prems" by (simp add: read_pages.simps)
  next
    case False
    let ?q = "off div PAGE_SIZE" and ?m = "off mod PAGE_SIZE"
    let ?c = "min (PAGE_SIZE - ?m) n"
    obtain bytes pc1 where b: "(case get_page ?q a of
             Some pid \<Rightarrow> (case get_page_data pid pc of
                  (Some data, pc') \<Rightarrow> (slice ?m (?m + ?c) data, pc') | (None, pc') \<Rightarrow> (replicate ?c 0, pc'))
           | None \<Rightarrow> (replicate ?c 0, pc)) = (bytes, pc1)" (is "?b = _") by (cases ?b) blast
    then have "pc1 = pc \<or> (\<exists>p. pc1 = snd (get_page_data p pc))"
      by (auto split: option.splits prod.splits) (metis snd_conv)+
    then have pc1: "pc_ok pc1" "pc_pages pc1 = pc_pages pc" "page_used pc1 = page_used pc"
      using get_page_data_ok [OF "1.prems"] "1.prems" by auto
    from "1.IH" [OF False refl refl refl b [symmetric] refl pc1(1)] pc1(2,3) show ?thesis
      unfolding read_pages.simps [of a off n] Let_def b using False by (auto split: prod.split)
  qed
qed

lemma pres_read_pages:
  "pres data_inv (vcall (\<lambda>s. case read_pages a off n (v_page_cache s) of (bytes, pc) \<Rightarrow> (Inr bytes, s\<lparr>v_page_cache := pc\<rparr>)))"
proof -
  have "data_ok ns (snd (read_pages a off n pc))" if "data_ok ns pc" for ns pc
    by (rule data_ok_cache [OF that]) (simp_all add: read_pages_cache [OF data_okD(2) [OF that]])
  then show ?thesis by (auto simp: pres_def vcall_def data_inv_def split: prod.splits) (metis snd_conv)
qed

lemma pres_read_tmpfs [pres_intro]: "pres data_inv (read_tmpfs vid offset len)"
  unfolding read_tmpfs_def Let_def by (intro pres_intro pres_read_pages)

text \<open>Writing a page through a possibly stale table: the invariant holds even then.\<close>

lemma put_chunk_ok:
  assumes "put_chunk p off bytes s = Some (r, s')" and "off + length bytes \<le> PAGE_SIZE"
    and "data_ok (v_nodes s) (v_page_cache s) \<or> data_ok (v_nodes s) (dirtied p (v_page_cache s)) \<and> page_used (v_page_cache s) p"
  shows "data_inv s'"
proof (cases "page_used (v_page_cache s) p")
  case False
  then have "s' = s" using assms(1) by (auto simp: put_chunk_def vcall_def get_page_data_mut_def page_used_def)
  then show ?thesis using assms(3) False by (simp add: data_inv_def)
next
  case True
  let ?pc = "v_page_cache s"
  have pc: "pc_ok ?pc" using assms(3) by (auto dest: data_okD(2) simp: pc_ok_dirtied)
  then have lt: "p < length (pc_pages ?pc)" using True pc_ok_pages by (simp add: page_used_def)
  have ok: "data_ok (v_nodes s) (dirtied p ?pc)"
    using assms(3) by (elim disjE) (auto elim!: data_ok_cache simp: pc_ok_dirtied pc dirtied_pages lt)
  have "length (copy_at off bytes d) = PAGE_SIZE" if "length d = PAGE_SIZE" for d using that assms(2) by simp
  from write_page_ok [OF pc True, of "copy_at off bytes", OF this]
  obtain pc' where w: "s' = s\<lparr>v_page_cache := pc'\<rparr>" "pc_ok pc'" "page_used pc' = page_used ?pc"
    "pc_pages pc' = (pc_pages ?pc)[p := (pc_pages ?pc ! p)\<lparr>cp_data := copy_at off bytes (cp_data (pc_pages ?pc ! p)), cp_dirty := True\<rparr>]"
    using assms(1) by (auto simp: put_chunk_def vcall_def)
  have "data_ok (v_nodes s) pc'"
    by (rule data_ok_cache [OF ok w(2)]) (use w lt in \<open>auto simp: dirtied_pages nth_list_update\<close>)
  then show ?thesis by (simp add: data_inv_def w(1))
qed

lemma page_for_write_ok:
  assumes inv: "data_inv s" and r: "page_for_write vid q s = Some (r, s1)"
  shows "case r of
      Inl e \<Rightarrow> data_inv s1
    | Inr p \<Rightarrow> data_ok (v_nodes s1) (v_page_cache s1) \<or> data_ok (v_nodes s1) (dirtied p (v_page_cache s1)) \<and> page_used (v_page_cache s1) p"
proof -
  let ?n = "v_nodes s ! vid" and ?pc = "v_page_cache s"
  note ok = inv [unfolded data_inv_def]
  note D = data_okD [OF ok]
  have vid: "vid < MAX_VNODES" using r by (auto simp: page_for_write_def vbind_def node_at_def split: if_splits)
  consider (mapped) p where "get_page q (vn_addr_space ?n) = Some p"
    | (full) "get_page q (vn_addr_space ?n) = None" "alloc_page ?pc = Some (Inl NoSpace, ?pc)"
    | (page) p pc where "get_page q (vn_addr_space ?n) = None" "alloc_page ?pc = Some (Inr p, pc)" "pc_ok pc" "p < MAX_DATA_PAGES"
        "page_used ?pc p \<longrightarrow> \<not> cp_dirty (pc_pages ?pc ! p)" "\<forall>r. page_used pc r \<longleftrightarrow> r = p \<or> page_used ?pc r"
        "pc_pages pc = (pc_pages ?pc)[p := fresh_page]"
    using alloc_page_ok [OF D(2)] by (cases "get_page q (vn_addr_space ?n)") blast+
  then show ?thesis
  proof cases
    case mapped
    then show ?thesis using r vid ok by (auto simp: page_for_write_def vbind_def node_at_def vret_def)
  next
    case full
    then show ?thesis using r vid inv by (auto simp: page_for_write_def vbind_def node_at_def alloc_page_op_def)
  next
    case page
    define n where "n = ?n\<lparr>vn_addr_space := snd (set_page q p (vn_addr_space ?n))\<rparr>"
    have s1: "s1 = s\<lparr>v_nodes := (v_nodes s)[vid := n], v_page_cache := pc\<rparr>" "r = (if q < DIRECT_BLOCKS then Inr p else Inl FileTooLarge)"
      using r vid page(1,2)
      by (auto simp: page_for_write_def vbind_def vseq_def node_at_def alloc_page_op_def set_page_def upd_node_def vret_def vfail_def n_def
          vfs_upd_comm split: if_splits)
    have nd: "pc_pages pc ! x = pc_pages ?pc ! x" if "x \<noteq> p" for x using that by (simp add: page(7))
    have keep: "data_ok (v_nodes s) pc"
      by (rule data_ok_cache [OF ok page(3)]) (use page(5,6) nd in \<open>simp, metis\<close>)
    show ?thesis
    proof (cases "vn_active ?n \<and> q < DIRECT_BLOCKS")
      case True
      then have v: "valid_vnode vid s" using vid by (simp add: valid_vnode_def)
      from page_entered(1) [OF inv v _ page(1,3-7) refl] True page(6) show ?thesis by (simp add: s1 n_def)
    next
      case False
      have "data_ok ((v_nodes s)[vid := n]) pc"
        by (rule data_ok_upd [OF keep]) (use False in \<open>auto simp: n_def set_page_def as_wf_def\<close>)
      then show ?thesis by (simp add: s1 data_inv_def)
    qed
  qed
qed

lemma pres_write_chunk:
  assumes "off + length bytes \<le> PAGE_SIZE"
  shows "pres data_inv (vbind (page_for_write vid q) (\<lambda>p. put_chunk p off bytes))"
  unfolding pres_def
proof (intro allI impI)
  fix s r s'
  assume "data_inv s" and e: "vbind (page_for_write vid q) (\<lambda>p. put_chunk p off bytes) s = Some (r, s')"
  from e obtain r1 s1 where w: "page_for_write vid q s = Some (r1, s1)" by (auto simp: vbind_def split: option.splits)
  from page_for_write_ok [OF \<open>data_inv s\<close> w] e w put_chunk_ok [OF _ assms] show "data_inv s'"
    by (cases r1) (auto simp: vbind_def)
qed

lemma pres_write_loop [pres_intro]: "pres data_inv (write_loop vid off data)"
proof (induction vid off data rule: write_loop.induct)
  case (1 vid off data)
  let ?c = "min (PAGE_SIZE - off mod PAGE_SIZE) (length data)"
  have assoc: "vbind m (\<lambda>x. vseq (g x) k) = vseq (vbind m g) k" for m :: "('w vfs, nat) vop" and g k
    by (auto simp: fun_eq_iff vbind_def vseq_def split: option.split sum.split)
  have "off mod PAGE_SIZE + ?c \<le> PAGE_SIZE" by (simp add: PAGE_SIZE_def)
  then have "pres data_inv (vbind (page_for_write vid (off div PAGE_SIZE)) (\<lambda>p. put_chunk p (off mod PAGE_SIZE) (take ?c data)))"
    by (intro pres_write_chunk) simp
  then show ?case unfolding write_loop.simps [of vid off data] Let_def assoc
    using "1.IH" [OF _ refl refl refl] by (cases "data = []") (auto intro: pres_basic pres_vseq)
qed

lemma pres_write_tmpfs [pres_intro]: "pres data_inv (write_tmpfs vid off data)"
  unfolding write_tmpfs_def Let_def by (intro pres_intro pres_upd) (auto split: if_splits)

section \<open>Giving pages back\<close>

text \<open>Partial correctness of an operation that starts in \<open>I\<close> and ends in \<open>J\<close>.\<close>

definition leads :: "('s \<Rightarrow> bool) \<Rightarrow> ('s \<Rightarrow> bool) \<Rightarrow> ('s, 'a) vop \<Rightarrow> bool" where
  "leads I J m = (\<forall>s r s'. I s \<longrightarrow> m s = Some (r, s') \<longrightarrow> J s')"

abbreviation live :: "nat \<Rightarrow> 'w vfs \<Rightarrow> bool" where
  "live i s \<equiv> data_inv s \<and> valid_vnode i s"

lemma leads_live: "pres data_inv m \<Longrightarrow> leads (live i) data_inv m"
  by (auto simp: pres_def leads_def)

lemma leads_vbind:
  assumes "pres data_inv m" and "pres (valid_vnode i) m" and "\<And>x. leads (live i) data_inv (k x)"
  shows "leads (live i) data_inv (vbind m k)"
  unfolding leads_def
proof (intro allI impI)
  fix s r s'
  assume s: "live i s" and e: "vbind m k s = Some (r, s')"
  then obtain r1 s1 where m: "m s = Some (r1, s1)" by (auto simp: vbind_def split: option.splits)
  with s assms(1,2) have "live i s1" by (blast dest: presD)
  with e m assms(3) show "data_inv s'" by (cases r1) (auto simp: vbind_def leads_def)
qed

lemma leads_vseq:
  "pres data_inv m \<Longrightarrow> pres (valid_vnode i) m \<Longrightarrow> leads (live i) data_inv k \<Longrightarrow> leads (live i) data_inv (vseq m k)"
  unfolding vseq_def by (rule leads_vbind)

lemma leads_seq:
  assumes "leads I data_inv m" and "pres data_inv k"
  shows "leads I data_inv (vseq m k)"
  unfolding leads_def
proof (intro allI impI)
  fix s r s'
  assume s: "I s" and e: "vseq m k s = Some (r, s')"
  then obtain r1 s1 where m: "m s = Some (r1, s1)" by (auto simp: vseq_def vbind_def split: option.splits)
  with s assms(1) have "data_inv s1" by (auto simp: leads_def)
  with e m assms(2) show "data_inv s'" by (cases r1) (auto simp: vseq_def vbind_def dest: presD)
qed

lemma pres_valid [pres_intro]:
  "pres (valid_vnode i) (on_world f)" "(\<And>n. vn_active (g n) = vn_active n) \<Longrightarrow> pres (valid_vnode i) (upd_node j g)"
proof -
  show "pres (valid_vnode i) (on_world f)"
    by (auto simp: pres_def on_world_def valid_vnode_def split: prod.splits)
  show "pres (valid_vnode i) (upd_node j g)" if "\<And>n. vn_active (g n) = vn_active n"
  proof -
    have "vn_active ((v_nodes s)[j := g (v_nodes s ! j)] ! i) = vn_active (v_nodes s ! i)" for s :: "'w vfs"
      by (cases "i = j"; cases "j < length (v_nodes s)") (simp_all add: that list_update_beyond)
    then show ?thesis by (auto simp: pres_def upd_node_def valid_vnode_def split: if_splits)
  qed
qed

text \<open>A live node's pages are freed and the node lets go of them.\<close>

lemma pages_dropped:
  assumes ok: "data_ok ns pc" and i: "i < MAX_VNODES" "vn_active (ns ! i)" and wf: "as_wf (vn_addr_space n)"
    and drop: "\<And>q p. p \<in> set ps \<Longrightarrow> \<not> (vn_active n \<and> get_page q (vn_addr_space n) = Some p)"
    and keep: "\<And>q p. vn_active n \<Longrightarrow> get_page q (vn_addr_space n) = Some p \<Longrightarrow> get_page q (vn_addr_space (ns ! i)) = Some p"
    and ps: "\<And>p. p \<in> set ps \<Longrightarrow> \<exists>q. get_page q (vn_addr_space (ns ! i)) = Some p"
  shows "data_ok (ns[i := n]) (fold free_page ps pc)"
proof (rule data_ok_free)
  show "data_ok (ns[i := n]) pc" by (rule data_ok_upd [OF ok]) (use wf keep i in auto)
  fix p j q
  assume p: "p \<in> set ps"
  then obtain r where own: "owns ns i r p" using ps i by (auto simp: owns_def)
  show "\<not> owns (ns[i := n]) j q p"
  proof (cases "j = i")
    case True
    then show ?thesis using drop [OF p] data_okD(1) [OF ok] i by (auto simp: owns_def)
  next
    case False
    then have "\<not> owns ns j q p" using data_okD(6) [OF ok own] by blast
    then show ?thesis using False by (simp add: owns_def)
  qed
qed

lemma free_then_drop:
  assumes "\<And>n. vn_addr_space (f n) = as_new \<or> \<not> vn_active (f n) \<and> vn_addr_space (f n) = vn_addr_space n"
  shows "leads (live i :: 'w vfs \<Rightarrow> bool) data_inv (vseq (free_file_pages i) (upd_node i f))"
  unfolding leads_def
proof (intro allI impI)
  fix s :: "'w vfs" and r s'
  let ?n = "v_nodes s ! i"
  assume s: "live i s" and e: "vseq (free_file_pages i) (upd_node i f) s = Some (r, s')"
  then have i: "i < MAX_VNODES" "vn_active ?n" and ok: "data_ok (v_nodes s) (v_page_cache s)"
    by (simp_all add: valid_vnode_def data_inv_def)
  have s': "v_nodes s' = (v_nodes s)[i := f ?n]" "v_page_cache s' = fold free_page (map snd (iter_pages (vn_addr_space ?n))) (v_page_cache s)"
    using e i by (auto simp: vseq_def vbind_def free_file_pages_def free_pages_def node_at_def vmod_def upd_node_def)
  show "data_inv s'" unfolding data_inv_def s'
    by (rule pages_dropped [OF ok i]) (use assms [of ?n] data_okD(3) [OF ok i(1)] in \<open>auto simp: iter_pages_iff\<close>)
qed

lemma leads_release: "leads (live i) data_inv (release_node i)"
proof -
  have assoc: "vseq m (vseq g k) = vseq (vseq m g) k" for m g :: "('w vfs, unit) vop" and k :: "('w vfs, unit) vop"
    by (auto simp: fun_eq_iff vbind_def vseq_def split: option.split sum.split)
  show ?thesis
    unfolding release_node_def assoc
    by (rule leads_seq [OF free_then_drop]) (auto simp: lower_hint_def pres_def vmod_def data_inv_def)
qed

lemma leads_truncate_file: "leads (live i) data_inv (truncate_file env i)"
  unfolding truncate_file_def
  by (intro leads_vbind leads_vseq free_then_drop pres_intro) (simp add: touch_mtime_def)

lemma leads_node_at:
  assumes "\<And>n. leads (\<lambda>s. live i s \<and> v_nodes s ! i = n) data_inv (k n)"
  shows "leads (live i) data_inv (vbind (node_at i) k)"
  using assms by (auto simp: leads_def vbind_def node_at_def split: if_splits)

lemma leads_world:
  assumes k: "leads (\<lambda>s. live i s \<and> v_nodes s ! i = n) data_inv k"
  shows "leads (\<lambda>s. live i s \<and> v_nodes s ! i = n) data_inv
    (vseq (if b then vbind (on_world f) (\<lambda>_. vret ()) else vret ()) k)"
  unfolding leads_def
proof (intro allI impI)
  fix s r s'
  assume s: "live i s \<and> v_nodes s ! i = n"
    and e: "vseq (if b then vbind (on_world f) (\<lambda>_. vret ()) else vret ()) k s = Some (r, s')"
  from e obtain w where w: "k (s\<lparr>v_world := w\<rparr>) = Some (r, s')"
    by (cases b; cases "f (v_world s)") (auto simp: vseq_def vbind_def on_world_def vret_def intro: that [of "v_world s"])
  moreover have "live i (s\<lparr>v_world := w\<rparr>) \<and> v_nodes (s\<lparr>v_world := w\<rparr>) ! i = n"
    using s by (auto simp: data_inv_def valid_vnode_def)
  ultimately show "data_inv s'" using k unfolding leads_def by blast
qed

lemma pres_zero_tail:
  assumes "zf \<le> PAGE_SIZE"
  shows "pres data_inv (zero_tail zf p)"
proof -
  let ?f = "\<lambda>d :: u8 list. take zf d @ replicate (PAGE_SIZE - zf) 0"
  have "data_inv (case get_page_data_mut p ?f (v_page_cache s) of (ok, pc) \<Rightarrow> s\<lparr>v_page_cache := (if ok then mark_dirty p pc else pc)\<rparr>)"
    if "data_inv s" for s :: "'w vfs"
  proof (cases "page_used (v_page_cache s) p")
    case False
    then show ?thesis using that by (auto simp: get_page_data_mut_def page_used_def)
  next
    case True
    let ?pc = "v_page_cache s"
    note ok = that [unfolded data_inv_def]
    note pc = data_okD(2) [OF ok]
    have lt: "p < length (pc_pages ?pc)" using True pc_ok_pages [OF pc] by (simp add: page_used_def)
    have "length (?f d) = PAGE_SIZE" if "length d = PAGE_SIZE" for d using that assms by simp
    from write_page_ok [OF pc True, of ?f, OF this] obtain pc1 where w: "get_page_data_mut p ?f ?pc = (True, pc1)"
      "pc_ok (mark_dirty p pc1)" "page_used (mark_dirty p pc1) = page_used ?pc"
      "pc_pages (mark_dirty p pc1) = (pc_pages ?pc)[p := (pc_pages ?pc ! p)\<lparr>cp_data := ?f (cp_data (pc_pages ?pc ! p)), cp_dirty := True\<rparr>]" by blast
    have "data_ok (v_nodes s) (mark_dirty p pc1)"
      by (rule data_ok_cache [OF ok w(2)]) (use w lt in \<open>auto simp: nth_list_update\<close>)
    then show ?thesis by (simp add: w(1) data_inv_def)
  qed
  then show ?thesis by (auto simp: pres_def vmod_def zero_tail_def)
qed

lemma leads_shrink:
  fixes n :: vnode and k :: nat
  defines "t \<equiv> as_truncate_to k (vn_addr_space n)"
  shows "leads (\<lambda>s :: 'w vfs. live i s \<and> v_nodes s ! i = n) data_inv
    (vseq (upd_node i (\<lambda>n. n\<lparr>vn_addr_space := snd t\<rparr>)) (free_pages (fst t)))"
  unfolding leads_def
proof (intro allI impI)
  fix s :: "'w vfs" and r s'
  assume s: "live i s \<and> v_nodes s ! i = n" and e: "vseq (upd_node i (\<lambda>n. n\<lparr>vn_addr_space := snd t\<rparr>)) (free_pages (fst t)) s = Some (r, s')"
  then have i: "i < MAX_VNODES" "vn_active (v_nodes s ! i)" and ok: "data_ok (v_nodes s) (v_page_cache s)" and n: "v_nodes s ! i = n"
    by (auto simp: valid_vnode_def data_inv_def)
  have wf: "as_wf (vn_addr_space n)" using data_okD(3) [OF ok i(1)] n by simp
  note T = as_truncate_to_spec [OF wf, where n = k, folded t_def]
  have s': "v_nodes s' = (v_nodes s)[i := n\<lparr>vn_addr_space := snd t\<rparr>]" "v_page_cache s' = fold free_page (fst t) (v_page_cache s)"
    using e i n by (auto simp: vseq_def vbind_def free_pages_def vmod_def upd_node_def)
  have own: "owns (v_nodes s) i q p \<longleftrightarrow> get_page q (vn_addr_space n) = Some p" for q p using i n by (simp add: owns_def)
  show "data_inv s'" unfolding data_inv_def s'
  proof (rule pages_dropped [OF ok i])
    fix q p
    assume "p \<in> set (fst t)"
    then obtain q' where q': "k \<le> q'" "get_page q' (vn_addr_space n) = Some p" using T(3) by auto
    show "\<not> (vn_active (n\<lparr>vn_addr_space := snd t\<rparr>) \<and> get_page q (vn_addr_space (n\<lparr>vn_addr_space := snd t\<rparr>)) = Some p)"
    proof
      assume "vn_active (n\<lparr>vn_addr_space := snd t\<rparr>) \<and> get_page q (vn_addr_space (n\<lparr>vn_addr_space := snd t\<rparr>)) = Some p"
      then have "\<not> k \<le> q" "get_page q (vn_addr_space n) = Some p" using T(2) [of q] by (auto split: if_splits)
      with q' data_okD(6) [OF ok, of i q p i q'] own show False by auto
    qed
  qed (use T wf n in \<open>auto split: if_splits\<close>)
qed

lemma leads_truncate_to: "leads (live i) data_inv (truncate_to env i new_size)"
  unfolding truncate_to_def Let_def
proof (rule leads_node_at, goal_cases)
  case (1 n)
  have z: "unat new_size mod PAGE_SIZE \<le> PAGE_SIZE" by (simp add: PAGE_SIZE_def)
  have grow: "leads (\<lambda>s. live i s \<and> v_nodes s ! i = n) data_inv (upd_node i (\<lambda>n. n\<lparr>vn_size := new_size\<rparr>))"
    using pres_upd [of "\<lambda>n. n\<lparr>vn_size := new_size\<rparr>" i] by (auto simp: leads_def pres_def)
  have rest: "leads (\<lambda>s. live i s \<and> v_nodes s ! i = n) data_inv
     (vseq (if b then vbind (on_world g) (\<lambda>_. vret ()) else vret ())
     (vseq (vseq (upd_node i (\<lambda>n. n\<lparr>vn_addr_space := snd (as_truncate_to k (vn_addr_space n'))\<rparr>)) (free_pages (fst (as_truncate_to k (vn_addr_space n')))))
     (vseq c (upd_node i (\<lambda>n. touch_ctime (e_now env) (touch_mtime (e_now env) (n\<lparr>vn_size := new_size\<rparr>)))))))"
    if "pres data_inv c" "n' = n" for b g k c n'
    unfolding that(2)
    by (rule leads_world, rule leads_seq, rule leads_shrink)
      (intro pres_vseq that pres_upd; simp add: touch_ctime_def touch_mtime_def)
  show ?case
  proof (cases "vn_size n \<le> new_size")
    case True
    then show ?thesis using grow by (simp only: if_True)
  next
    case False
    then show ?thesis
      by (simp only: if_False) (rule rest [OF _ refl], intro pres_intro pres_zero_tail z)
  qed
qed

section \<open>The operations\<close>

lemma leads_if: "leads I J m \<Longrightarrow> leads I J m' \<Longrightarrow> leads I J (if b then m else m')"
  by simp

lemma pres_when_valid:
  assumes "leads (live i) data_inv m" and "pres data_inv m'"
  shows "pres data_inv (vbind (vget (\<lambda>s. valid_vnode i s \<and> P s)) (\<lambda>b. if b then m else m'))"
  unfolding pres_def
proof (intro allI impI)
  fix s r s'
  assume s: "data_inv s" and e: "vbind (vget (\<lambda>s. valid_vnode i s \<and> P s)) (\<lambda>b. if b then m else m') s = Some (r, s')"
  show "data_inv s'"
  proof (cases "valid_vnode i s \<and> P s")
    case True
    then have "m s = Some (r, s')" "live i s" using e s by (simp_all add: vbind_def vget_def)
    then show ?thesis using assms(1) unfolding leads_def by blast
  next
    case False
    then have "m' s = Some (r, s')" using e by (auto simp: vbind_def vget_def)
    then show ?thesis by (rule presD [OF assms(2) s])
  qed
qed

lemma pres_new_child:
  assumes "\<And>n. vn_addr_space (prep n) = vn_addr_space n"
    and "\<And>n. vn_active (lp n) = vn_active n" and "\<And>n. vn_addr_space (lp n) = vn_addr_space n"
  shows "pres data_inv (new_child env pid name kind mode prep ec ed lp)"
  unfolding new_child_def
  by (intro pres_intro pres_new_node) (auto simp: assms touch_mtime_def intro!: pres_intro pres_upd)

lemma pres_create [pres_intro]:
  "pres data_inv (create_file env p nm mode)" "pres data_inv (vfs_mkdir env p nm mode)" "pres data_inv (vfs_symlink env p nm target)"
  unfolding create_file_def vfs_mkdir_def vfs_symlink_def by (intro pres_intro pres_new_child; simp)+

lemma pres_close [pres_intro]: "pres data_inv (vfs_close env fd)"
  unfolding vfs_close_def
  by (intro pres_intro pres_when_valid leads_vseq leads_vbind leads_if leads_release leads_live) (simp_all add: dec_ref_def)

lemma pres_fd_ops [pres_intro]:
  "pres data_inv (vfs_dup env fd)" "pres data_inv (dup_to env fd fd')" "pres data_inv (vfs_seek env fd wh)" "pres data_inv (vfs_fsync env fd)"
  "pres data_inv (fd_backing env fd)" "pres data_inv (pipe_vnode_of_fd env fd)"
  unfolding vfs_dup_def dup_to_def vfs_seek_def vfs_fsync_def fd_backing_def pipe_vnode_of_fd_def Let_def
  by (intro pres_intro pres_upd; simp)+

lemma pres_reads [pres_intro]:
  "pres data_inv (vfs_read env fd len)" "pres data_inv (read_at_vnode env vid off len)" "pres data_inv (read_path env path)"
  "pres data_inv (path_size env path)" "pres data_inv (pipe_take env vid len)" "pres data_inv (pipe_try_read env vid len)"
  unfolding vfs_read_def read_at_vnode_def read_path_def path_size_def pipe_take_def pipe_try_read_def read_procfs_def
    read_ext2_file_def advance_fd_def Let_def
  by (intro pres_intro pres_upd pres_read_pages; simp)+

lemma pres_writes [pres_intro]:
  "pres data_inv (vfs_write env fd data)" "pres data_inv (write_at_vnode env vid off data)"
  unfolding vfs_write_def write_at_vnode_def write_ext2_file_def advance_fd_def Let_def
  by (intro pres_intro pres_upd; simp split: if_splits)+

lemma pres_load_children [pres_intro]: "pres data_inv (ext2_ensure_children_loaded env d)"
proof -
  have "pres data_inv (load_all env d cis)" for cis
    by (induction cis) (auto simp: load_child_def intro!: pres_intro)
  then show ?thesis
    unfolding ext2_ensure_children_loaded_def by (intro pres_intro pres_upd; simp)
qed

lemma pres_dir_ops [pres_intro]:
  "pres data_inv (vfs_rmdir env cwd path)" "pres data_inv (vfs_readdir env d cap)" "pres data_inv (vfs_rename env cwd old new)"
  "pres data_inv (vfs_readlink env cwd path)" "pres data_inv (vfs_link env cwd path np nm)" "pres data_inv (graft_ext_dir env pp nm ino)"
  unfolding vfs_rmdir_def vfs_readdir_def vfs_rename_def move_entry_def vfs_readlink_def vfs_link_def graft_ext_dir_def Let_def lower_hint_def
  by (intro pres_intro pres_new_node pres_upd; simp add: touch_ctime_def pres_def vmod_def data_inv_def split: if_splits)+

lemma pres_attr_ops [pres_intro]:
  "pres data_inv (vfs_stat env cwd path)" "pres data_inv (vfs_lstat env cwd path)" "pres data_inv (vfs_fstat env fd)"
  "pres data_inv (vfs_chmod env cwd path mode)" "pres data_inv (vfs_chown env cwd path uid gid)"
  unfolding vfs_stat_def vfs_lstat_def vfs_fstat_def vfs_chmod_def vfs_chown_def stat_node_def ext2_refresh_size_def set_mode_def set_owner_def Let_def
  by (intro pres_intro pres_upd; simp)+

lemma pres_boot [pres_intro]: "pres data_inv (bootstrap env libs)" "pres data_inv (register_block_nodes env dk)"
    "pres data_inv (rescan_block_partitions env dk dev)"
proof -
  have child [pres_intro]: "pres data_inv (boot_child env p nm k fs mode prep)"
    if "\<And>n. vn_addr_space (prep n) = vn_addr_space n" for p nm k fs mode prep
    unfolding boot_child_def by (intro pres_intro pres_new_node pres_upd; simp add: that)
  have mnt [pres_intro]: "pres data_inv (mounts_add fs r p)" for fs r p
    by (auto simp: mounts_add_def pres_def vmod_def data_inv_def)
  show "pres data_inv (bootstrap env libs)"
    unfolding bootstrap_def mount_devfs_def mount_procfs_def mount_syslibs_def create_mnt_def lookup_or_create_lib_dir_def install_syslib_file_def
    by (intro pres_intro mnt child pres_new_node; simp add: dev_prep_def)
  have parts [pres_intro]: "pres data_inv (add_partitions env dk d dev)" for d dev
    unfolding add_partitions_def add_partition_def add_block_node_def by (intro pres_intro child; simp add: dev_prep_def)
  show "pres data_inv (register_block_nodes env dk)"
    unfolding register_block_nodes_def add_block_node_def Let_def by (intro pres_intro parts child; simp add: dev_prep_def)
  show "pres data_inv (rescan_block_partitions env dk dev)"
    unfolding rescan_block_partitions_def drop_partition_node_def Let_def by (intro pres_intro parts pres_upd; simp)
qed

section \<open>Operations that give pages back by path\<close>

text \<open>A path that resolves to a node that is in use. The walk does not ensure this: a working
  directory, or the parent of a node, may have been removed.\<close>

definition live_result :: "('w vfs, nat) vop \<Rightarrow> 'w vfs \<Rightarrow> bool" where
  "live_result m s = (case m s of Some (Inr i, s1) \<Rightarrow> valid_vnode i s1 | _ \<Rightarrow> True)"

lemma live_bind:
  assumes "data_inv s" and "live_result m s" and "pres data_inv m" and "\<And>i. leads (live i) data_inv (k i)"
    and e: "vbind m k s = Some (r, s')"
  shows "data_inv s'"
proof -
  obtain r1 s1 where m: "m s = Some (r1, s1)" using e by (auto simp: vbind_def split: option.splits)
  then have "data_inv s1" using presD [OF assms(3,1)] by blast
  then show ?thesis
    using e m assms(2) assms(4) unfolding vbind_def live_result_def leads_def by (cases r1) auto
qed

lemma unlink_inv:
  assumes "data_inv s" and "live_result (resolve_path_lstat env cwd path) s" and "vfs_unlink env cwd path s = Some (r, s')"
  shows "data_inv s'"
proof (rule live_bind [OF assms(1,2) pres_resolve(2) _ assms(3) [unfolded vfs_unlink_def]])
  show "leads (live i) data_inv (unlink_node env nm i)" for nm i
    unfolding unlink_node_def Let_def
    by (intro leads_vbind leads_vseq leads_if leads_release leads_live pres_intro pres_upd; simp add: touch_mtime_def)
qed

lemma setattr_inv:
  assumes "data_inv s" and "live_result (resolve_path_follow env cwd path) s" and "vfs_setattr env cwd path attr s = Some (r, s')"
  shows "data_inv s'"
proof (rule live_bind [OF assms(1,2) pres_resolve_follow _ assms(3) [unfolded vfs_setattr_def]])
  fix i
  have own: "pres (valid_vnode i) (set_owner env i u g)" "pres data_inv (set_owner env i u g)" for u g
    unfolding set_owner_def Let_def by (intro pres_intro pres_upd; simp)+
  have mode: "pres (valid_vnode i) (set_mode env i m)" "pres data_inv (set_mode env i m)" for m
    unfolding set_mode_def by (intro pres_intro pres_upd; simp)+
  have size: "leads (live i) data_inv (case sa_size attr of
      Some new_size \<Rightarrow> vbind (node_at i) (\<lambda>n. vseq (vcheck (is_regular n) InvalidArgument) (truncate_to env i new_size)) | None \<Rightarrow> vret ())"
    by (cases "sa_size attr") (simp_all add: leads_live pres_intro leads_vbind leads_vseq leads_truncate_to)
  show "leads (live i) data_inv (apply_attr env attr i)"
    unfolding apply_attr_def
    apply (rule leads_vbind, intro pres_intro, intro pres_intro)
    apply (rule leads_vseq, intro pres_intro, intro pres_intro)
    apply (rule leads_vseq, intro pres_intro, intro pres_intro)
    apply (rule leads_vseq, intro pres_intro mode, intro pres_intro mode)
    apply (rule leads_vseq, intro pres_intro own, intro pres_intro own)
    apply (rule leads_seq [OF size])
    by (intro pres_intro pres_upd; simp)
qed

lemma vbind_vtry: "m s = Some (r, s1) \<Longrightarrow> vbind (vtry m) k s = k r s1"
  by (simp add: vbind_def vtry_def)

lemma open_inv:
  assumes "data_inv s" and "live_result (resolve_path env cwd path) s" and "live_result (resolve_path_follow env cwd path) s"
    and "vfs_open env cwd path flags mode s = Some (r, s')"
  shows "data_inv s'"
proof -
  let ?nf = "flags_has flags O_NOFOLLOW"
  let ?m = "if ?nf then resolve_path env cwd path else resolve_path_follow env cwd path"
  have found: "leads (live i) data_inv (open_found env flags ?nf i)" for i
    unfolding open_found_def
    by (intro leads_vbind leads_vseq leads_seq leads_if leads_truncate_file leads_live pres_intro)
  have m: "pres data_inv ?m" "live_result ?m s" using assms(2,3) by (auto intro: pres_intro)
  have create: "pres data_inv (if e = NotFound \<and> flags_has flags O_CREATE
       then vbind (split_path env cwd path) (\<lambda>(parent, name). create_file env parent name mode) else vfail e)" for e
    by (intro pres_intro)
  have rc: "data_inv s1" if e: "resolve_or_create env cwd path flags mode ?nf s = Some (r1, s1)" for r1 s1
  proof -
    obtain r0 s0 where r0: "?m s = Some (r0, s0)" using e
      by (auto simp: resolve_or_create_def vbind_def vtry_def split: option.splits prod.splits)
    have inv: "data_inv s0" by (rule presD [OF m(1) assms(1) r0])
    show ?thesis
    proof (cases r0)
      case (Inr i)
      then have "valid_vnode i s0" using m(2) r0 by (simp add: live_result_def)
      moreover have "open_found env flags ?nf i s0 = Some (r1, s1)"
        using e Inr unfolding resolve_or_create_def vbind_vtry [of ?m, OF r0] by simp
      ultimately show ?thesis using found [of i] inv unfolding leads_def by blast
    next
      case (Inl e')
      then have "(if e' = NotFound \<and> flags_has flags O_CREATE
       then vbind (split_path env cwd path) (\<lambda>(parent, name). create_file env parent name mode) else vfail e') s0 = Some (r1, s1)"
        using e unfolding resolve_or_create_def vbind_vtry [of ?m, OF r0] by (simp only: sum.case)
      then show ?thesis by (rule presD [OF create inv])
    qed
  qed
  have rest: "pres data_inv (vbind (node_at i) (\<lambda>n. vseq (vcheck (\<not> (writable flags \<and> is_readonly_fs n \<and> get_dev_type n = None)) ReadOnly)
    (vbind (on_fds env (fd_alloc i flags)) (\<lambda>fd. vseq (upd_node i inc_ref) (vret fd)))))" for i
    by (intro pres_intro)
  obtain r1 s1 where r1: "resolve_or_create env cwd path flags mode ?nf s = Some (r1, s1)"
    using assms(4) by (auto simp: vfs_open_def vbind_def split: option.splits)
  show ?thesis
    using assms(4) r1 rc [OF r1] presD [OF rest] unfolding vfs_open_def vbind_def [of "resolve_or_create env cwd path flags mode ?nf"]
    by (cases r1) auto
qed

section \<open>Descriptor tables of processes\<close>

lemma data_inv_refs:
  assumes "data_inv s" and "\<And>n. vn_active (f n) = vn_active n" and "\<And>n. vn_addr_space (f n) = vn_addr_space n"
  shows "data_inv (fold (\<lambda>vid s. if valid_vnode vid s then s\<lparr>v_nodes := (v_nodes s)[vid := f (v_nodes s ! vid)]\<rparr> else s) vids s)"
  using assms(1)
proof (induction vids arbitrary: s)
  case (Cons vid vids)
  have "data_inv (s\<lparr>v_nodes := (v_nodes s)[vid := f (v_nodes s ! vid)]\<rparr>)"
    using data_ok_upd [OF Cons.prems [unfolded data_inv_def], of vid "f (v_nodes s ! vid)"] assms(2,3) by (simp add: data_inv_def)
  with Cons show ?case by simp
qed simp

lemma data_inv_tables [simp]: "data_inv (s\<lparr>v_fd_tables := t\<rparr>) = data_inv s" "data_inv (s\<lparr>v_ctx := c\<rparr>) = data_inv s"
  by (simp_all add: data_inv_def)

lemma data_inv_process:
  assumes "data_inv s"
  shows "data_inv (fork_fds p c s)" "data_inv (release_fds_on_exit p s)" "data_inv (snd (close_cloexec_fds env s))"
proof -
  show "data_inv (fork_fds p c s)"
    using data_inv_refs [OF assms, of inc_ref] by (simp add: fork_fds_def Let_def inc_ref_def)
  show "data_inv (snd (close_cloexec_fds env s))" using assms by (simp add: close_cloexec_fds_def Let_def split: option.split)
  have "data_inv (snd (drop_fds p s))" using assms by (simp add: drop_fds_def split: option.split)
  from data_inv_refs [OF this, of dec_ref] show "data_inv (release_fds_on_exit p s)"
    by (cases "drop_fds p s") (simp add: release_fds_on_exit_def dec_ref_def)
qed

section \<open>Runs\<close>

text \<open>The states that boot and any sequence of returning calls reach. Every call may have its own
  environment: another process, another time, another answer from below. A call that gives
  pages back by path is one whose path leads to a live node; \<open>sync_ctx\<close> is the copy of the
  caller's identity that precedes every call.\<close>

inductive vfs_reach :: "'w vfs \<Rightarrow> bool" where
  boot: "init_vfs env libs w = Some s \<Longrightarrow> vfs_reach s"
| sync_ctx: "vfs_reach s \<Longrightarrow> vfs_reach (s\<lparr>v_ctx := c\<rparr>)"
| open_path: "vfs_reach s \<Longrightarrow> live_result (resolve_path env cwd path) s \<Longrightarrow> live_result (resolve_path_follow env cwd path) s \<Longrightarrow>
    vfs_open env cwd path flags mode s = Some (r, s') \<Longrightarrow> vfs_reach s'"
| unlink: "vfs_reach s \<Longrightarrow> live_result (resolve_path_lstat env cwd path) s \<Longrightarrow> vfs_unlink env cwd path s = Some (r1, s') \<Longrightarrow> vfs_reach s'"
| setattr: "vfs_reach s \<Longrightarrow> live_result (resolve_path_follow env cwd path) s \<Longrightarrow> vfs_setattr env cwd path attr s = Some (r1, s') \<Longrightarrow> vfs_reach s'"
| close: "vfs_reach s \<Longrightarrow> vfs_close env fd s = Some (r1, s') \<Longrightarrow> vfs_reach s'"
| dup: "vfs_reach s \<Longrightarrow> vfs_dup env fd s = Some (r, s') \<Longrightarrow> vfs_reach s'"
| dup2: "vfs_reach s \<Longrightarrow> dup_to env fd fd' s = Some (r, s') \<Longrightarrow> vfs_reach s'"
| read_fd: "vfs_reach s \<Longrightarrow> vfs_read env fd len s = Some (r2, s') \<Longrightarrow> vfs_reach s'"
| write_fd: "vfs_reach s \<Longrightarrow> vfs_write env fd data s = Some (r, s') \<Longrightarrow> vfs_reach s'"
| read_at: "vfs_reach s \<Longrightarrow> read_at_vnode env vid off len s = Some (r2, s') \<Longrightarrow> vfs_reach s'"
| write_at: "vfs_reach s \<Longrightarrow> write_at_vnode env vid off data s = Some (r, s') \<Longrightarrow> vfs_reach s'"
| seek: "vfs_reach s \<Longrightarrow> vfs_seek env fd wh s = Some (r3, s') \<Longrightarrow> vfs_reach s'"
| fsync: "vfs_reach s \<Longrightarrow> vfs_fsync env fd s = Some (r1, s') \<Longrightarrow> vfs_reach s'"
| backing: "vfs_reach s \<Longrightarrow> fd_backing env fd s = Some (r4, s') \<Longrightarrow> vfs_reach s'"
| read_path: "vfs_reach s \<Longrightarrow> read_path env path s = Some (r2, s') \<Longrightarrow> vfs_reach s'"
| path_size: "vfs_reach s \<Longrightarrow> path_size env path s = Some (r3, s') \<Longrightarrow> vfs_reach s'"
| graft: "vfs_reach s \<Longrightarrow> graft_ext_dir env path nm ino s = Some (r, s') \<Longrightarrow> vfs_reach s'"
| mkdir: "vfs_reach s \<Longrightarrow> vfs_mkdir env p nm mode s = Some (r, s') \<Longrightarrow> vfs_reach s'"
| rmdir: "vfs_reach s \<Longrightarrow> vfs_rmdir env cwd path s = Some (r1, s') \<Longrightarrow> vfs_reach s'"
| readdir: "vfs_reach s \<Longrightarrow> vfs_readdir env d cap s = Some (r5, s') \<Longrightarrow> vfs_reach s'"
| rename: "vfs_reach s \<Longrightarrow> vfs_rename env cwd path path' s = Some (r1, s') \<Longrightarrow> vfs_reach s'"
| symlink: "vfs_reach s \<Longrightarrow> vfs_symlink env p nm target s = Some (r, s') \<Longrightarrow> vfs_reach s'"
| readlink: "vfs_reach s \<Longrightarrow> vfs_readlink env cwd path s = Some (r6, s') \<Longrightarrow> vfs_reach s'"
| link: "vfs_reach s \<Longrightarrow> vfs_link env cwd path p nm s = Some (r1, s') \<Longrightarrow> vfs_reach s'"
| stat: "vfs_reach s \<Longrightarrow> vfs_stat env cwd path s = Some (r7, s') \<Longrightarrow> vfs_reach s'"
| lstat: "vfs_reach s \<Longrightarrow> vfs_lstat env cwd path s = Some (r7, s') \<Longrightarrow> vfs_reach s'"
| fstat: "vfs_reach s \<Longrightarrow> vfs_fstat env fd s = Some (r7, s') \<Longrightarrow> vfs_reach s'"
| chmod: "vfs_reach s \<Longrightarrow> vfs_chmod env cwd path mode s = Some (r1, s') \<Longrightarrow> vfs_reach s'"
| chown: "vfs_reach s \<Longrightarrow> vfs_chown env cwd path uid gid s = Some (r1, s') \<Longrightarrow> vfs_reach s'"
| pipe_read: "vfs_reach s \<Longrightarrow> pipe_take env vid len s = Some (r8, s') \<Longrightarrow> vfs_reach s'"
| blocks: "vfs_reach s \<Longrightarrow> register_block_nodes env dk s = Some (r1, s') \<Longrightarrow> vfs_reach s'"
| rescan: "vfs_reach s \<Longrightarrow> rescan_block_partitions env dk dev s = Some (r9, s') \<Longrightarrow> vfs_reach s'"
| fork: "vfs_reach s \<Longrightarrow> vfs_reach (fork_fds pid pid' s)"
| exit: "vfs_reach s \<Longrightarrow> vfs_reach (release_fds_on_exit pid s)"
| cloexec: "vfs_reach s \<Longrightarrow> vfs_reach (snd (close_cloexec_fds env s))"

lemma vfs_reach_inv: "vfs_reach s \<Longrightarrow> data_inv s"
proof (induction rule: vfs_reach.induct)
  case (boot env libs w s)
  have "data_inv (vfs_zero w)" unfolding data_inv_def vfs_zero_def
    by (simp add: data_ok_no_pages pc_ok_new vn_empty_def)
  then show ?case using boot presD [OF pres_boot(1)] by (auto simp: init_vfs_def)
next
  case (sync_ctx s c)
  then show ?case by simp
next
  case (open_path s env cwd path flags mode r s')
  from open_inv [OF this(5,2-4)] show ?case .
next
  case (unlink s env cwd path r1 s')
  from unlink_inv [OF this(4,2,3)] show ?case .
next
  case (setattr s env cwd path attr r1 s')
  from setattr_inv [OF this(4,2,3)] show ?case .
qed ((erule presD [rotated 2], intro pres_intro, assumption) | erule data_inv_process)+

section \<open>Boot returns\<close>

definition boot_inv :: "'w vfs \<Rightarrow> bool" where
  "boot_inv s = (v_vnode_free_hint s \<le> MAX_VNODES)"

lemma wp_alloc_vnode:
  assumes "boot_inv s" and "\<And>i s'. i < MAX_VNODES \<Longrightarrow> boot_inv s' \<Longrightarrow> s' = s\<lparr>v_vnode_free_hint := i + 1\<rparr> \<Longrightarrow> Q i s'" and "E NoSpace s"
  shows "wp alloc_vnode Q E s"
proof -
  have "i < MAX_VNODES" if "find_from (\<lambda>i. \<not> vn_active (v_nodes s ! i)) a b = Some i" "b \<le> MAX_VNODES" for a b i
    using that by (simp add: find_from_Some)
  then show ?thesis using assms
    by (auto simp: alloc_vnode_def wp_simps Let_def boot_inv_def split: option.split)
qed

lemma wp_boot_child:
  assumes "boot_inv s" and "p < MAX_VNODES"
  shows "wp (boot_child env p nm k fs mode prep) (\<lambda>r s'. boot_inv s' \<and> (\<forall>i. r = Some i \<longrightarrow> i < MAX_VNODES)) (\<lambda>_ _. False) s"
  unfolding boot_child_def wp_vbind wp_vtry
  by (rule wp_alloc_vnode [OF assms(1)]) (use assms in \<open>auto simp: wp_simps boot_inv_def split: prod.split\<close>)

lemma wp_each:
  assumes "\<And>x s. boot_inv s \<Longrightarrow> wp (f x) (\<lambda>_. boot_inv) (\<lambda>_ _. False) s"
  shows "boot_inv s \<Longrightarrow> wp (each f xs) (\<lambda>_. boot_inv) (\<lambda>_ _. False) s"
proof (induction xs arbitrary: s)
  case (Cons x xs)
  show ?case unfolding each.simps wp_vseq by (rule wp_mono [OF assms [OF Cons.prems]]) (use Cons.IH in auto)
qed (simp add: wp_simps)

lemma wp_boot_child_unit:
  "boot_inv s \<Longrightarrow> p < MAX_VNODES \<Longrightarrow> wp (vignore (boot_child env p nm k fs mode prep)) (\<lambda>_. boot_inv) (\<lambda>_ _. False) s"
  unfolding vignore_def wp_vbind wp_vtry by (rule wp_mono [OF wp_boot_child]) (auto simp: wp_simps)

lemma wp_boot_dir:
  assumes "boot_inv s" and "\<And>i s. i < MAX_VNODES \<Longrightarrow> boot_inv s \<Longrightarrow> wp (k i) (\<lambda>_. boot_inv) (\<lambda>_ _. False) s"
  shows "wp (vbind (boot_child env 0 nm kd fs mode prep) (\<lambda>r. case r of None \<Rightarrow> vret () | Some i \<Rightarrow> k i)) (\<lambda>_. boot_inv) (\<lambda>_ _. False) s"
proof -
  have "0 < MAX_VNODES" by (simp add: MAX_VNODES_def)
  show ?thesis unfolding wp_vbind
    by (rule wp_mono [OF wp_boot_child [OF assms(1) \<open>0 < MAX_VNODES\<close>]]) (auto simp: wp_simps assms(2) split: option.split)
qed

lemma boot_returns: "\<exists>s. init_vfs env libs w = Some s"
proof -
  have m0: "0 < MAX_VNODES" by (simp add: MAX_VNODES_def)
  have mnt: "wp (vseq (mounts_add fs r p) k) Q E = (\<lambda>s. wp k Q E (s\<lparr>v_mounts := snd (mt_add fs r p (v_mounts s))\<rparr>))" for fs r p k Q E
    by (simp add: mounts_add_def wp_simps)
  have upd: "boot_inv (s\<lparr>v_mounts := x\<rparr>) = boot_inv s" "boot_inv (s\<lparr>v_nodes := ns\<rparr>) = boot_inv s" for s :: "'a vfs" and x ns
    by (simp_all add: boot_inv_def)
  have dev: "wp (mount_devfs env) (\<lambda>_. boot_inv) (\<lambda>_ _. False) s" if "boot_inv s" for s
    unfolding mount_devfs_def
    by (rule wp_boot_dir [OF that]) (auto simp: mnt upd intro!: wp_each wp_boot_child_unit split: prod.split)
  have proc: "wp (mount_procfs env) (\<lambda>_. boot_inv) (\<lambda>_ _. False) s" if "boot_inv s" for s
    unfolding mount_procfs_def
    by (rule wp_boot_dir [OF that]) (auto simp: mnt upd intro!: wp_each wp_boot_child_unit)
  have lib: "wp (lookup_or_create_lib_dir env nm) (\<lambda>r s'. boot_inv s' \<and> (\<forall>i. r = Some i \<longrightarrow> i < MAX_VNODES)) (\<lambda>_ _. False) s" if "boot_inv s" for nm s
    unfolding lookup_or_create_lib_dir_def
    using that wp_boot_child [OF that m0] m0 by (auto simp: wp_simps live_child_def valid_vnode_def split: option.split)
  have libs: "wp (mount_syslibs env libs) (\<lambda>_. boot_inv) (\<lambda>_ _. False) s" if "boot_inv s" for s
    unfolding mount_syslibs_def
  proof (rule wp_each [OF _ that], clarify, goal_cases)
    case (1 nm bytes s)
    show ?case unfolding wp_vbind
      by (rule wp_mono [OF lib [OF 1]]) (auto simp: wp_simps install_syslib_file_def wp_boot_child_unit split: option.split)
  qed
  have "wp (bootstrap env libs) (\<lambda>_. boot_inv) (\<lambda>_ _. False) (vfs_zero w)"
    unfolding bootstrap_def mnt wp_vseq wp_upd_node
    using m0 apply (simp add: mounts_add_def wp_simps)
    apply (rule wp_mono [OF dev], simp add: upd, simp add: boot_inv_def vfs_zero_def MAX_VNODES_def)
     apply (rule wp_mono [OF proc], assumption)
      apply (rule wp_mono [OF libs], assumption)
       apply (simp add: create_mnt_def wp_boot_child_unit)
    by simp_all
  then show ?thesis by (auto simp: init_vfs_def wp_def split: option.splits)
qed

section \<open>Properties\<close>



end
