(* ===== verification/NodeTables.thy ===== *)
theory NodeTables
  imports SlotTable VfsTypes Bytes
begin

text \<open>
  The keyed tables of the virtual file system: disk quotas (\<open>kernel/fs/vfs/quota.rs\<close>), security
  labels (\<open>security.rs\<close>) and extended attributes (\<open>xattr.rs\<close>). Each is an interpretation of the
  locale of tables with keys, and so a finite map from users, nodes or names to what was
  last set. A \<open>&str\<close> is its list of bytes.
\<close>

section \<open>Quotas\<close>

abbreviation MAX_QUOTA_ENTRIES :: nat where "MAX_QUOTA_ENTRIES \<equiv> 4"

record quota_entry =
  qe_uid :: u16
  qe_bytes_used :: u64
  qe_bytes_limit :: u64
  qe_inodes_used :: u32
  qe_inodes_limit :: u32
  qe_active :: bool

definition qe_empty :: quota_entry where
  "qe_empty = \<lparr>qe_uid = 0, qe_bytes_used = 0, qe_bytes_limit = 0, qe_inodes_used = 0, qe_inodes_limit = 0, qe_active = False\<rparr>"

definition bytes_available :: "quota_entry \<Rightarrow> u64" where
  "bytes_available e = (if qe_bytes_limit e = 0 then - 1 else saturating_sub (qe_bytes_limit e) (qe_bytes_used e))"

definition inodes_available :: "quota_entry \<Rightarrow> u32" where
  "inodes_available e = (if qe_inodes_limit e = 0 then - 1 else saturating_sub (qe_inodes_limit e) (qe_inodes_used e))"

record quota_manager =
  qm_entries :: "quota_entry list"
  qm_enabled :: bool

definition qm_new :: quota_manager where
  "qm_new = \<lparr>qm_entries = replicate MAX_QUOTA_ENTRIES qe_empty, qm_enabled = False\<rparr>"

definition set_limits :: "u64 \<times> u32 \<Rightarrow> quota_entry \<Rightarrow> quota_entry" where
  "set_limits v e = e\<lparr>qe_bytes_limit := fst v, qe_inodes_limit := snd v\<rparr>"

definition new_quota :: "u16 \<Rightarrow> u64 \<times> u32 \<Rightarrow> quota_entry \<Rightarrow> quota_entry" where
  "new_quota uid v e = e\<lparr>qe_uid := uid, qe_bytes_limit := fst v, qe_inodes_limit := snd v, qe_active := True\<rparr>"

definition set_quota :: "u16 \<Rightarrow> u64 \<Rightarrow> u32 \<Rightarrow> quota_manager \<Rightarrow> unit vfs_result \<times> quota_manager" where
  "set_quota uid bytes_limit inodes_limit qm =
     (case tbl_put (\<lambda>e. qe_active e \<and> qe_uid e = uid) (\<lambda>e. \<not> qe_active e)
        (set_limits (bytes_limit, inodes_limit)) (new_quota uid (bytes_limit, inodes_limit)) (qm_entries qm) of
        Some es \<Rightarrow> (Inr (), qm\<lparr>qm_entries := es\<rparr>)
      | None \<Rightarrow> (Inl NoSpace, qm))"

definition check_bytes :: "u16 \<Rightarrow> u64 \<Rightarrow> quota_manager \<Rightarrow> unit vfs_result" where
  "check_bytes uid additional qm =
     (if \<not> qm_enabled qm then Inr ()
      else if \<exists>e\<in>set (qm_entries qm). qe_active e \<and> qe_uid e = uid
          \<and> qe_bytes_limit e > 0 \<and> qe_bytes_used e + additional > qe_bytes_limit e then Inl QuotaExceeded
      else Inr ())"

definition check_inodes :: "u16 \<Rightarrow> quota_manager \<Rightarrow> unit vfs_result" where
  "check_inodes uid qm =
     (if \<not> qm_enabled qm then Inr ()
      else if \<exists>e\<in>set (qm_entries qm). qe_active e \<and> qe_uid e = uid
          \<and> qe_inodes_limit e > 0 \<and> qe_inodes_used e \<ge> qe_inodes_limit e then Inl QuotaExceeded
      else Inr ())"

definition charge :: "u16 \<Rightarrow> (quota_entry \<Rightarrow> quota_entry) \<Rightarrow> quota_manager \<Rightarrow> quota_manager" where
  "charge uid f qm = qm\<lparr>qm_entries := update_all (\<lambda>e. qe_active e \<and> qe_uid e = uid) f (qm_entries qm)\<rparr>"

definition add_bytes :: "u16 \<Rightarrow> u64 \<Rightarrow> quota_manager \<Rightarrow> quota_manager" where
  "add_bytes uid n = charge uid (\<lambda>e. e\<lparr>qe_bytes_used := saturating_add (qe_bytes_used e) n\<rparr>)"

definition sub_bytes :: "u16 \<Rightarrow> u64 \<Rightarrow> quota_manager \<Rightarrow> quota_manager" where
  "sub_bytes uid n = charge uid (\<lambda>e. e\<lparr>qe_bytes_used := saturating_sub (qe_bytes_used e) n\<rparr>)"

definition add_inode :: "u16 \<Rightarrow> quota_manager \<Rightarrow> quota_manager" where
  "add_inode uid = charge uid (\<lambda>e. e\<lparr>qe_inodes_used := saturating_add (qe_inodes_used e) 1\<rparr>)"

definition sub_inode :: "u16 \<Rightarrow> quota_manager \<Rightarrow> quota_manager" where
  "sub_inode uid = charge uid (\<lambda>e. e\<lparr>qe_inodes_used := saturating_sub (qe_inodes_used e) 1\<rparr>)"

definition quota_get :: "u16 \<Rightarrow> quota_manager \<Rightarrow> quota_entry option" where
  "quota_get uid qm = find (\<lambda>e. qe_active e \<and> qe_uid e = uid) (qm_entries qm)"

section \<open>Security labels\<close>

abbreviation MAX_SECURITY_LABELS :: nat where "MAX_SECURITY_LABELS \<equiv> 8"

record security_label =
  sl_vnode_id :: nat
  sl_label :: "u8 list"
  sl_label_len :: u8
  sl_active :: bool

definition sl_empty :: security_label where
  "sl_empty = \<lparr>sl_vnode_id = INVALID_ID, sl_label = replicate 16 0, sl_label_len = 0, sl_active = False\<rparr>"

record security_manager =
  se_labels :: "security_label list"
  se_enforcing :: bool

definition se_new :: security_manager where
  "se_new = \<lparr>se_labels = replicate MAX_SECURITY_LABELS sl_empty, se_enforcing = False\<rparr>"

definition write_label :: "u8 list \<Rightarrow> security_label \<Rightarrow> security_label" where
  "write_label label sl =
     sl\<lparr>sl_label := copy_at 0 label (sl_label sl), sl_label_len := of_nat (length label)\<rparr>"

definition new_label :: "nat \<Rightarrow> u8 list \<Rightarrow> security_label \<Rightarrow> security_label" where
  "new_label i label sl = (write_label label (sl\<lparr>sl_vnode_id := i\<rparr>))\<lparr>sl_active := True\<rparr>"

definition set_label :: "nat \<Rightarrow> u8 list \<Rightarrow> security_manager \<Rightarrow> unit vfs_result \<times> security_manager" where
  "set_label i label sm =
     (if length label > 16 then (Inl InvalidArgument, sm)
      else case tbl_put (\<lambda>sl. sl_active sl \<and> sl_vnode_id sl = i) (\<lambda>sl. \<not> sl_active sl)
          (write_label label) (new_label i label) (se_labels sm) of
        Some ls \<Rightarrow> (Inr (), sm\<lparr>se_labels := ls\<rparr>)
      | None \<Rightarrow> (Inl NoSpace, sm))"

definition label_bytes :: "security_label \<Rightarrow> u8 list" where
  "label_bytes sl = take (unat (sl_label_len sl)) (sl_label sl)"

definition get_label :: "nat \<Rightarrow> security_manager \<Rightarrow> u8 list option" where
  "get_label i sm = tbl_get sl_active sl_vnode_id label_bytes i (se_labels sm)"

definition remove_label :: "nat \<Rightarrow> security_manager \<Rightarrow> security_manager" where
  "remove_label i sm =
     sm\<lparr>se_labels := update_all (\<lambda>sl. sl_active sl \<and> sl_vnode_id sl = i) (\<lambda>_. sl_empty) (se_labels sm)\<rparr>"

text \<open>The bytes of \<open>b"restricted"\<close>.\<close>

definition restricted :: "u8 list" where
  "restricted = [0x72, 0x65, 0x73, 0x74, 0x72, 0x69, 0x63, 0x74, 0x65, 0x64]"

definition label_allows :: "nat \<Rightarrow> credentials \<Rightarrow> security_manager \<Rightarrow> bool" where
  "label_allows i cred sm =
     (if \<not> se_enforcing sm then True
      else if is_root cred then True
      else case get_label i sm of
        Some label \<Rightarrow> label \<noteq> restricted
      | None \<Rightarrow> True)"

section \<open>Extended attributes\<close>

abbreviation MAX_XATTRS_PER_NODE :: nat where "MAX_XATTRS_PER_NODE \<equiv> 8"

definition XATTR_NAME_LEN :: nat where
  "XATTR_NAME_LEN = 16"

definition XATTR_VAL_LEN :: nat where
  "XATTR_VAL_LEN = 32"

record xattr =
  xa_name :: "u8 list"
  xa_name_len :: u8
  xa_value :: "u8 list"
  xa_value_len :: u8
  xa_active :: bool

definition xa_empty :: xattr where
  "xa_empty = \<lparr>xa_name = replicate XATTR_NAME_LEN 0, xa_name_len = 0, xa_value = replicate XATTR_VAL_LEN 0,
     xa_value_len = 0, xa_active = False\<rparr>"

definition xattrs_new :: "xattr list" where
  "xattrs_new = replicate MAX_XATTRS_PER_NODE xa_empty"

definition xattr_name_matches :: "u8 list \<Rightarrow> xattr \<Rightarrow> bool" where
  "xattr_name_matches name a = (unat (xa_name_len a) = length name \<and> take (unat (xa_name_len a)) (xa_name a) = name)"

definition put_value :: "u8 list \<Rightarrow> xattr \<Rightarrow> xattr" where
  "put_value v a = a\<lparr>xa_value := copy_at 0 v (xa_value a), xa_value_len := of_nat (length v)\<rparr>"

definition new_xattr :: "u8 list \<Rightarrow> u8 list \<Rightarrow> xattr \<Rightarrow> xattr" where
  "new_xattr name v a =
     (put_value v (a\<lparr>xa_name := copy_at 0 name (xa_name a), xa_name_len := of_nat (length name)\<rparr>))\<lparr>xa_active := True\<rparr>"

definition xattr_set :: "u8 list \<Rightarrow> u8 list \<Rightarrow> xattr list \<Rightarrow> unit vfs_result \<times> xattr list" where
  "xattr_set name v attrs =
     (if length name > XATTR_NAME_LEN then (Inl NameTooLong, attrs)
      else if length v > XATTR_VAL_LEN then (Inl XattrTooLarge, attrs)
      else case tbl_put (\<lambda>a. xa_active a \<and> xattr_name_matches name a) (\<lambda>a. \<not> xa_active a)
          (put_value v) (new_xattr name v) attrs of
        Some as \<Rightarrow> (Inr (), as)
      | None \<Rightarrow> (Inl NoSpace, attrs))"

definition value_bytes :: "xattr \<Rightarrow> u8 list" where
  "value_bytes a = take (unat (xa_value_len a)) (xa_value a)"

definition xattr_get :: "u8 list \<Rightarrow> xattr list \<Rightarrow> u8 list vfs_result" where
  "xattr_get name attrs =
     (case first_slot (\<lambda>a. xa_active a \<and> xattr_name_matches name a) attrs of
        Some i \<Rightarrow> Inr (value_bytes (attrs ! i))
      | None \<Rightarrow> Inl NotFound)"

definition xattr_remove :: "u8 list \<Rightarrow> xattr list \<Rightarrow> unit vfs_result \<times> xattr list" where
  "xattr_remove name attrs =
     (case first_slot (\<lambda>a. xa_active a \<and> xattr_name_matches name a) attrs of
        Some i \<Rightarrow> (Inr (), attrs[i := xa_empty])
      | None \<Rightarrow> (Inl NotFound, attrs))"

text \<open>\<open>list_names\<close> fills a buffer of at most \<open>n\<close> names, in the order of the slots.\<close>

definition list_names :: "nat \<Rightarrow> xattr list \<Rightarrow> u8 list list" where
  "list_names n attrs = take n (map (\<lambda>a. take (unat (xa_name_len a)) (xa_name a)) (filter xa_active attrs))"

definition xattr_count :: "xattr list \<Rightarrow> nat" where
  "xattr_count attrs = length (filter xa_active attrs)"

definition xattr_clear :: "xattr list \<Rightarrow> xattr list" where
  "xattr_clear attrs = map (\<lambda>_. xa_empty) attrs"

section \<open>The tables are maps\<close>

lemma take_copy_at: "length v \<le> length xs \<Longrightarrow> take (length v) (copy_at 0 v xs) = v"
  using slice_copy_same [of 0 xs v] by (simp add: slice_def)

lemma unat_of_nat_u8: "n < 256 \<Longrightarrow> unat (of_nat n :: u8) = n"
  by (simp add: unat_of_nat)

definition sl_ok :: "security_label \<Rightarrow> bool" where
  "sl_ok sl = (length (sl_label sl) = 16)"

definition xa_ok :: "xattr \<Rightarrow> bool" where
  "xa_ok a = (length (xa_name a) = XATTR_NAME_LEN \<and> length (xa_value a) = XATTR_VAL_LEN)"

definition xa_key :: "xattr \<Rightarrow> nat \<times> u8 list" where
  "xa_key a = (unat (xa_name_len a), take (unat (xa_name_len a)) (xa_name a))"

lemma xattr_name_matches_key: "xattr_name_matches name a \<longleftrightarrow> xa_key a = (length name, name)"
  by (auto simp: xattr_name_matches_def xa_key_def)

interpretation quotas: key_table qe_active qe_uid "\<lambda>e. (qe_bytes_limit e, qe_inodes_limit e)" set_limits new_quota "\<lambda>_ _ _. True"
  by unfold_locales (auto simp: set_limits_def new_quota_def)

interpretation labels: key_table sl_active sl_vnode_id label_bytes write_label new_label
  "\<lambda>_ label sl. length label \<le> 16 \<and> sl_ok sl"
  by unfold_locales (auto simp: write_label_def new_label_def label_bytes_def sl_ok_def take_copy_at unat_of_nat_u8)

interpretation xattrs: key_table xa_active xa_key value_bytes put_value "\<lambda>k. new_xattr (snd k)"
  "\<lambda>k v a. fst k = length (snd k) \<and> length (snd k) \<le> XATTR_NAME_LEN \<and> length v \<le> XATTR_VAL_LEN \<and> xa_ok a"
  by unfold_locales
    (auto simp: put_value_def new_xattr_def value_bytes_def xa_key_def xa_ok_def take_copy_at unat_of_nat_u8
      XATTR_NAME_LEN_def XATTR_VAL_LEN_def)

lemma find_first_slot: "find P xs = map_option (\<lambda>i. xs ! i) (first_slot P xs)"
proof (cases "find P xs")
  case None
  then show ?thesis by (metis find_None_iff first_slot_None_set option.simps(8))
next
  case (Some x)
  then obtain i where "i < length xs" "P (xs ! i)" "x = xs ! i" "\<forall>j<i. \<not> P (xs ! j)"
    by (auto simp: find_Some_iff)
  then have "first_slot P xs = Some i" by (simp add: first_slot_Some)
  with Some \<open>x = xs ! i\<close> show ?thesis by simp
qed

lemma first_slot_update_all:
  assumes "\<And>e. Q (f e) = Q e"
  shows "first_slot Q (update_all P f xs) = first_slot Q xs"
  unfolding first_slot_def length_update_all
  by (rule find_from_cong) (simp add: nth_update_all assms)

lemma tbl_get_clear:
  assumes "uniq_keys act key xs" and "\<not> act d"
  shows "tbl_get act key val k' (update_all (\<lambda>e. act e \<and> key e = k) (\<lambda>_. d) xs) =
    (if k' = k then None else tbl_get act key val k' xs)"
proof (cases "k' = k")
  case True
  then show ?thesis using tbl_get_deactivate [of act "\<lambda>_. d" key val k xs] assms(2) by simp
next
  case False
  then show ?thesis using tbl_get_deactivate_other [of act key xs "\<lambda>_. d" k' k val] assms by simp
qed

section \<open>Properties of the quotas\<close>

lemma quota_get_charge:
  assumes "\<And>e. qe_active (f e) = qe_active e" and "\<And>e. qe_uid (f e) = qe_uid e"
  shows "quota_get u (charge uid f qm) = (if u = uid then map_option f (quota_get u qm) else quota_get u qm)"
proof -
  have *: "first_slot (\<lambda>e. qe_active e \<and> qe_uid e = v) (update_all (\<lambda>e. qe_active e \<and> qe_uid e = uid) f xs)
     = first_slot (\<lambda>e. qe_active e \<and> qe_uid e = v) xs" for xs v
    by (rule first_slot_update_all) (simp add: assms)
  show ?thesis
  proof (cases "first_slot (\<lambda>e. qe_active e \<and> qe_uid e = u) (qm_entries qm)")
    case (Some i)
    then have "i < length (qm_entries qm)" "qe_active (qm_entries qm ! i)" "qe_uid (qm_entries qm ! i) = u"
      by (simp_all add: first_slot_Some)
    with Some show ?thesis by (cases "u = uid") (simp_all add: quota_get_def charge_def find_first_slot * nth_update_all)
  qed (cases "u = uid", simp_all add: quota_get_def charge_def find_first_slot *)
qed

lemma check_bytes_ok:
  assumes "check_bytes uid n qm = Inr ()" and "qm_enabled qm" and "quota_get uid qm = Some e" and "qe_bytes_limit e > 0"
  shows "qe_bytes_used e + n \<le> qe_bytes_limit e"
proof -
  have "e \<in> set (qm_entries qm)" "qe_active e" "qe_uid e = uid"
    using assms(3) by (auto simp: quota_get_def find_Some_iff)
  with assms show ?thesis by (auto simp: check_bytes_def split: if_splits)
qed


definition two_users :: quota_manager where
  "two_users = (snd (set_quota 7 100 3 (snd (set_quota 5 1000 2 qm_new))))\<lparr>qm_enabled := True\<rparr>"


text \<open>The sum in \<open>check_bytes\<close> wraps. A user with a limit of 100 bytes, 10 of them used, who asks
  for two to the 64 minus 5 bytes more is not refused, while a request of 91 bytes is.\<close>

lemma quota_check_wraps:
  "let qm = add_bytes 7 10 two_users in
     check_bytes 7 91 qm = Inl QuotaExceeded \<and> check_bytes 7 0xFFFFFFFFFFFFFFFB qm = Inr ()"
  by code_simp

section \<open>Properties of the security labels\<close>

definition se_inv :: "security_manager \<Rightarrow> bool" where
  "se_inv sm = (uniq_keys sl_active sl_vnode_id (se_labels sm) \<and> (\<forall>sl\<in>set (se_labels sm). sl_ok sl))"

lemma tbl_put_all:
  assumes "tbl_put k f u n xs = Some ys" and "\<forall>e\<in>set xs. P e" and "\<And>e. P e \<Longrightarrow> P (u e)" and "\<And>e. P e \<Longrightarrow> P (n e)"
  shows "\<forall>e\<in>set ys. P e"
  using assms by (auto simp: tbl_put_def first_slot_Some dest!: set_update_subset_insert [THEN subsetD] split: option.splits)

lemma sl_ok_simps [simp]: "sl_ok sl \<Longrightarrow> length label \<le> 16 \<Longrightarrow> sl_ok (write_label label sl)"
  "sl_ok sl \<Longrightarrow> length label \<le> 16 \<Longrightarrow> sl_ok (new_label i label sl)" "sl_ok sl_empty"
  by (simp_all add: sl_ok_def write_label_def new_label_def sl_empty_def)

lemma se_inv_new: "se_inv se_new"
  by (simp add: se_inv_def se_new_def uniq_keys_def sl_empty_def sl_ok_def)

lemma se_inv_set:
  assumes "se_inv sm" and "set_label i label sm = (Inr (), sm')"
  shows "se_inv sm'" and "get_label j sm' = (if j = i then Some label else get_label j sm)"
    and "se_enforcing sm' = se_enforcing sm"
proof -
  have len: "length label \<le> 16" and put: "labels.put i label (se_labels sm) = Some (se_labels sm')"
    and sm': "se_enforcing sm' = se_enforcing sm"
    using assms(2) by (auto simp: set_label_def split: if_splits option.splits)
  have ok: "\<forall>sl\<in>set (se_labels sm). length label \<le> 16 \<and> sl_ok sl" using assms(1) len by (simp add: se_inv_def)
  note u = assms(1) [unfolded se_inv_def, THEN conjunct1]
  have "\<forall>sl\<in>set (se_labels sm'). sl_ok sl" by (rule tbl_put_all [OF put]) (use ok len in auto)
  then show "se_inv sm'" using labels.put_uniq [OF put ok u] by (simp add: se_inv_def)
  show "get_label j sm' = (if j = i then Some label else get_label j sm)"
    unfolding get_label_def by (rule labels.get_put [OF put ok u])
  show "se_enforcing sm' = se_enforcing sm" by (rule sm')
qed

lemma se_inv_remove:
  assumes "se_inv sm"
  shows "se_inv (remove_label i sm)" and "get_label j (remove_label i sm) = (if j = i then None else get_label j sm)"
proof -
  note u = assms [unfolded se_inv_def, THEN conjunct1]
  have na: "\<not> sl_active sl_empty" by (simp add: sl_empty_def)
  show "se_inv (remove_label i sm)"
    using uniq_keys_deactivate [where f = "\<lambda>_. sl_empty", OF u na] assms
    by (auto simp: se_inv_def remove_label_def update_all_def)
  show "get_label j (remove_label i sm) = (if j = i then None else get_label j sm)"
    by (simp add: get_label_def remove_label_def tbl_get_clear [OF u na])
qed

text \<open>C39: A security label decides the access to its node and to no other. Setting a label keeps
  the table well formed (one active entry per node, labels of at most 16 bytes), every other
  node keeps its label, and in enforcing mode exactly the users other than root are refused
  the node when the label is \<open>restricted\<close>. Removing the label again leaves the node unlabelled
  and open, and every other node as it was.\<close>

theorem label_decides_access:
  assumes "se_inv sm" and "set_label i label sm = (Inr (), sm')"
  shows "se_inv sm' \<and> (\<forall>j. get_label j sm' = (if j = i then Some label else get_label j sm))
    \<and> (label_allows i cred sm' \<longleftrightarrow> \<not> (se_enforcing sm \<and> \<not> is_root cred \<and> label = restricted))
    \<and> (\<forall>j. j \<noteq> i \<longrightarrow> label_allows j cred sm' = label_allows j cred sm)
    \<and> se_inv (remove_label i sm') \<and> label_allows i cred (remove_label i sm')
    \<and> (\<forall>j. get_label j (remove_label i sm') = (if j = i then None else get_label j sm))"
  using se_inv_set [OF assms] se_inv_remove [OF se_inv_set(1) [OF assms]] by (auto simp: label_allows_def)

theorem label_decides_access_witness:
  "\<not> label_allows 3 (cred_user 1 1) (snd (set_label 3 restricted (se_new\<lparr>se_enforcing := True\<rparr>)))
   \<and> label_allows 4 (cred_user 1 1) (snd (set_label 3 restricted (se_new\<lparr>se_enforcing := True\<rparr>)))"
proof -
  let ?sm = "se_new\<lparr>se_enforcing := True\<rparr>"
  have inv: "se_inv ?sm" using se_inv_new by (simp add: se_inv_def)
  have none: "\<forall>sl\<in>set (se_labels ?sm). \<not> sl_active sl" by (simp add: se_new_def sl_empty_def)
  then have "labels.put 3 restricted (se_labels ?sm) \<noteq> None"
    unfolding labels.put_None by (simp add: se_new_def)
  then have ok: "set_label 3 restricted ?sm = (Inr (), snd (set_label 3 restricted ?sm))"
    by (auto simp: set_label_def restricted_def)
  have "\<not> is_root (cred_user 1 1)" by code_simp
  moreover have "get_label 4 ?sm = None" using none by (simp add: get_label_def tbl_get_None)
  then have "label_allows 4 (cred_user 1 1) ?sm" by (simp add: label_allows_def)
  ultimately
  show ?thesis using label_decides_access [OF inv ok, of "cred_user 1 1"] by (simp add: se_new_def)
qed

section \<open>Properties of the extended attributes\<close>

definition xa_inv :: "xattr list \<Rightarrow> bool" where
  "xa_inv as = (uniq_keys xa_active xa_key as \<and> (\<forall>a\<in>set as. xa_ok a) \<and> length as = MAX_XATTRS_PER_NODE)"

text \<open>The attributes of a node as a map from names to values.\<close>

definition xattr_map :: "xattr list \<Rightarrow> u8 list \<Rightarrow> u8 list option" where
  "xattr_map as name = (case xattr_get name as of Inr v \<Rightarrow> Some v | Inl _ \<Rightarrow> None)"

lemma xattr_map_get: "xattr_map as name = tbl_get xa_active xa_key value_bytes (length name, name) as"
  by (simp add: xattr_map_def xattr_get_def tbl_get_def xattr_name_matches_key split: option.split)

lemma xa_ok_simps [simp]: "xa_ok a \<Longrightarrow> length v \<le> XATTR_VAL_LEN \<Longrightarrow> xa_ok (put_value v a)"
  "xa_ok a \<Longrightarrow> length name \<le> XATTR_NAME_LEN \<Longrightarrow> length v \<le> XATTR_VAL_LEN \<Longrightarrow> xa_ok (new_xattr name v a)" "xa_ok xa_empty"
  by (simp_all add: xa_ok_def put_value_def new_xattr_def xa_empty_def)

lemma xa_inv_new: "xa_inv xattrs_new" "xattr_map xattrs_new = Map.empty"
  unfolding xa_inv_def fun_eq_iff xattr_map_get
  by (auto simp: xattrs_new_def uniq_keys_def xa_empty_def xa_ok_def tbl_get_None)

lemma xattr_set_ok:
  assumes "xa_inv as" and "xattr_set name v as = (Inr (), bs)"
  shows "xa_inv bs" and "xattr_map bs = (xattr_map as)(name \<mapsto> v)"
proof -
  have len: "length name \<le> XATTR_NAME_LEN" "length v \<le> XATTR_VAL_LEN"
    and put: "xattrs.put (length name, name) v as = Some bs"
    using assms(2) by (auto simp: xattr_set_def xattr_name_matches_key split: if_splits option.splits)
  have ok: "\<forall>a\<in>set as. fst (length name, name) = length (snd (length name, name)) \<and> length (snd (length name, name)) \<le> XATTR_NAME_LEN
    \<and> length v \<le> XATTR_VAL_LEN \<and> xa_ok a" using assms(1) len by (simp add: xa_inv_def)
  note u = assms(1) [unfolded xa_inv_def, THEN conjunct1]
  have "\<forall>a\<in>set bs. xa_ok a" by (rule tbl_put_all [OF put]) (use ok len in auto)
  then show "xa_inv bs" using xattrs.put_uniq [OF put ok u] length_tbl_put [OF put] assms(1) by (simp add: xa_inv_def)
  show "xattr_map bs = (xattr_map as)(name \<mapsto> v)"
    unfolding fun_eq_iff xattr_map_get xattrs.get_put [OF put ok u] by auto
qed

text \<open>Under the invariant the loop that stops at the first match clears the only one.\<close>

lemma clear_first:
  assumes "uniq_keys act key xs" and "first_slot (\<lambda>e. act e \<and> key e = k) xs = Some i"
  shows "xs[i := d] = update_all (\<lambda>e. act e \<and> key e = k) (\<lambda>_. d) xs"
proof (rule nth_equalityI)
  fix j
  assume "j < length (xs[i := d])"
  moreover have "i < length xs" "act (xs ! i)" "key (xs ! i) = k" using assms(2) by (auto simp: first_slot_Some)
  ultimately show "xs[i := d] ! j = update_all (\<lambda>e. act e \<and> key e = k) (\<lambda>_. d) xs ! j"
    using assms(1) by (cases "j = i") (auto simp: nth_update_all uniq_keys_def)
qed simp

lemma xattr_remove_ok:
  assumes "xa_inv as" and "xattr_remove name as = (Inr (), bs)"
  shows "xa_inv bs" and "xattr_map bs = (xattr_map as)(name := None)"
proof -
  note u = assms(1) [unfolded xa_inv_def, THEN conjunct1]
  have na: "\<not> xa_active xa_empty" by (simp add: xa_empty_def)
  have bs: "bs = update_all (\<lambda>a. xa_active a \<and> xa_key a = (length name, name)) (\<lambda>_. xa_empty) as"
    using assms(2) by (auto simp: xattr_remove_def xattr_name_matches_key clear_first [OF u] split: option.splits)
  show "xa_inv bs" using uniq_keys_deactivate [where f = "\<lambda>_. xa_empty", OF u na] assms(1)
    by (auto simp: xa_inv_def bs update_all_def)
  show "xattr_map bs = (xattr_map as)(name := None)"
    unfolding fun_eq_iff xattr_map_get bs tbl_get_clear [OF u na] by auto
qed

datatype xattr_op = XSet "u8 list" "u8 list" | XRemove "u8 list" | XClear

primrec xattr_do :: "xattr_op \<Rightarrow> xattr list \<Rightarrow> unit vfs_result \<times> xattr list" where
  "xattr_do (XSet name v) as = xattr_set name v as"
| "xattr_do (XRemove name) as = xattr_remove name as"
| "xattr_do XClear as = (Inr (), xattr_clear as)"

text \<open>What each call means on maps. \<open>full\<close> says that all slots are taken.\<close>

primrec xattr_spec :: "bool \<Rightarrow> xattr_op \<Rightarrow> (u8 list \<Rightarrow> u8 list option) \<Rightarrow> unit vfs_result \<times> (u8 list \<Rightarrow> u8 list option)" where
  "xattr_spec full (XSet name v) m =
     (if length name > 16 then (Inl NameTooLong, m)
      else if length v > 32 then (Inl XattrTooLarge, m)
      else if m name = None \<and> full then (Inl NoSpace, m)
      else (Inr (), m(name \<mapsto> v)))"
| "xattr_spec full (XRemove name) m = (if m name = None then (Inl NotFound, m) else (Inr (), m(name := None)))"
| "xattr_spec full XClear m = (Inr (), Map.empty)"

definition xattr_full :: "xattr list \<Rightarrow> bool" where
  "xattr_full as = (xattr_count as = MAX_XATTRS_PER_NODE)"

lemma xattr_full_iff: "xa_inv as \<Longrightarrow> xattr_full as \<longleftrightarrow> (\<forall>a\<in>set as. xa_active a)"
  unfolding xattr_full_def xattr_count_def xa_inv_def
  using filter_id_conv [of xa_active as] length_filter_less [of _ as xa_active] by fastforce

lemma xattr_set_error:
  assumes "xa_inv as"
  shows "fst (xattr_set name v as) = fst (xattr_spec (xattr_full as) (XSet name v) (xattr_map as))"
    and "fst (xattr_set name v as) \<noteq> Inr () \<Longrightarrow> snd (xattr_set name v as) = as"
proof -
  have "xattrs.put (length name, name) v as = None \<longleftrightarrow> xattr_map as name = None \<and> xattr_full as"
    unfolding xattrs.put_None xattr_full_iff [OF assms] xattr_map_get tbl_get_None by (metis in_set_conv_nth)
  then show "fst (xattr_set name v as) = fst (xattr_spec (xattr_full as) (XSet name v) (xattr_map as))"
    by (auto simp: xattr_set_def xattr_name_matches_key XATTR_NAME_LEN_def XATTR_VAL_LEN_def split: option.split)
  show "fst (xattr_set name v as) \<noteq> Inr () \<Longrightarrow> snd (xattr_set name v as) = as"
    by (auto simp: xattr_set_def split: if_splits option.splits)
qed

text \<open>C40: The extended attributes of a node are a map from names to values. Every call on a well
  formed store answers and changes the map as the specification on maps says, with the
  length limits, the error of a full store and the error of an absent name, and leaves the
  store well formed; the empty store is well formed and has no attribute.\<close>

theorem xattr_refines_map:
  assumes "xa_inv as"
  shows "fst (xattr_do c as) = fst (xattr_spec (xattr_full as) c (xattr_map as))
    \<and> xattr_map (snd (xattr_do c as)) = snd (xattr_spec (xattr_full as) c (xattr_map as))
    \<and> xa_inv (snd (xattr_do c as)) \<and> xa_inv xattrs_new \<and> xattr_map xattrs_new = Map.empty"
proof (cases c)
  case (XSet name v)
  show ?thesis
  proof (cases "fst (xattr_set name v as) = Inr ()")
    case True
    then have s: "xattr_set name v as = (Inr (), snd (xattr_set name v as))" by (metis prod.collapse)
    show ?thesis using XSet True xattr_set_ok [OF assms s] xattr_set_error(1) [OF assms, of name v] xa_inv_new
      by (auto split: if_splits)
  next
    case False
    then show ?thesis using XSet xattr_set_error [OF assms, of name v] xa_inv_new assms by (auto split: if_splits)
  qed
next
  case (XRemove name)
  have none: "xattr_map as name = None \<longleftrightarrow> fst (xattr_remove name as) \<noteq> Inr ()"
    "fst (xattr_remove name as) \<noteq> Inr () \<Longrightarrow> xattr_remove name as = (Inl NotFound, as)"
    by (auto simp: xattr_map_def xattr_get_def xattr_remove_def split: option.splits)
  show ?thesis
  proof (cases "fst (xattr_remove name as) = Inr ()")
    case True
    then have "xattr_remove name as = (Inr (), snd (xattr_remove name as))" by (metis prod.collapse)
    from xattr_remove_ok [OF assms this] show ?thesis using XRemove True none xa_inv_new by simp
  next
    case False
    then show ?thesis using XRemove none xa_inv_new assms by simp
  qed
next
  case XClear
  have "xattr_clear as = xattrs_new" using assms
    by (simp add: xattr_clear_def xattrs_new_def xa_inv_def map_replicate_const)
  then show ?thesis using XClear xa_inv_new by simp
qed

theorem xattr_refines_map_witness:
  "let as = snd (xattr_do (XSet [1, 2] [9]) xattrs_new) in
     xa_inv as \<and> xattr_map as [1, 2] = Some [9] \<and> fst (xattr_do (XSet (replicate 17 0) []) xattrs_new) = Inl NameTooLong"
proof -
  have "\<not> xattr_full xattrs_new" by code_simp
  then show ?thesis
    using xattr_refines_map [OF xa_inv_new(1), of "XSet [1, 2] [9]"]
      xattr_refines_map [OF xa_inv_new(1), of "XSet (replicate 17 0) []"] by (simp add: Let_def)
qed

end
