(* ===== verification/Spec2Isabelle.thy ===== *)
theory Spec2Isabelle
  imports Cow Swap SwapMap Vma Sched Locks VfsInv NodeTables
begin

text \<open>
  A verification library for miku-os, a Rust kernel for x86_64. Part of the memory management
  and the virtual file system are modelled; every operation of a modelled part is a function on
  an explicit state, and the theorems hold for all states the operations reach.

  \<^bold>\<open>Memory.\<close> \<open>Pmm\<close> is the frame allocator of \<open>kernel/mm/pmm.rs\<close> over the bitmaps of \<open>Bitmap\<close>: its
  counters, bitmap and hints stay consistent, a request takes a run of free frames, the word-wise
  search is the first fit. \<open>Cow\<close> adds the reference counts of shared frames and the emergency
  pool. \<open>Swap\<close> is the swap area of \<open>kernel/mm/swap.rs\<close>, \<open>SwapMap\<close> the reverse map, the clock
  policy and the swap page-table entries of \<open>kernel/mm/swap_map.rs\<close>. \<open>Vma\<close> is the table of mapped
  ranges of \<open>kernel/mm/mmap.rs\<close> with \<open>mmap\<close>, \<open>munmap\<close>, \<open>mprotect\<close>, \<open>msync\<close>, \<open>brk\<close> and the page
  faults: ranges stay disjoint, \<open>mmap\<close> finds the lowest free range, \<open>munmap\<close> removes exactly its
  range. \<open>BTree\<close> is the sorted map both the mappings and the file system use.

  \<^bold>\<open>Scheduler.\<close> \<open>RunQueue\<close> is the linked run queue of \<open>kernel/sched/runqueue.rs\<close>: its operations return on
  every well-formed queue and are those of a list sorted by virtual run time. \<open>Sched\<close> has the CPUs,
  one pass of the scheduler (\<open>core.rs\<close>), the calls of \<open>control.rs\<close> and the life of processes of
  \<open>lifecycle.rs\<close>; its locale \<open>fair_step\<close> gives a bound on the wait of a task, and the interpretation
  shows it for the yields of one CPU.

  \<^bold>\<open>Virtual file system.\<close> The files under \<open>kernel/fs/vfs\<close>. \<open>VfsTypes\<close> has the types of \<open>types.rs\<close>;
  \<open>Slab\<close>, \<open>Lru\<close> and \<open>Pages\<close> the page cache; \<open>AddrSpace\<close> the pages of a file; \<open>Fd\<close> the descriptor
  table; \<open>Hash\<close> and \<open>Children\<close> the directory tables; \<open>Locks\<close> the advisory locks; \<open>Mount\<close> the
  mount table; \<open>SlotTable\<close> and \<open>NodeTables\<close> quotas, labels and extended attributes. \<open>VfsOp\<close> is the
  calculus of operations that return a value, an error, or do not return; \<open>VfsState\<close> the state
  \<open>MikuVFS\<close>; \<open>PathRes\<close>, \<open>FileOps\<close>, \<open>DirOps\<close>, \<open>Attr\<close> and \<open>Boot\<close> the operations of \<open>core/\<close>.
  \<open>FileData\<close> proves what reads and writes do to the bytes of files, \<open>VfsInv\<close> that no
  two files share a page in any reachable state.

  \<^bold>\<open>Conventions.\<close> Machine integers that can overflow are words and wrap, as in the release build;
  array indices and identifiers are natural numbers, and an index out of range is a panic, the
  value \<open>None\<close>. A Rust \<open>&str\<close> is its list of bytes. A function that runs under a lock is one step.
  Loops whose end is not clear from the code (the climb of \<open>rename\<close>, the eviction of ext children)
  are partial functions; all other loops are total.

  \<^bold>\<open>Not modelled.\<close> The drivers, the architecture layer, the console, the shell and the system call
  adapters are input and output or hardware state. The ext driver, the devices behind \<open>devfs\<close> and
  the generated texts of \<open>procfs\<close> are functions on an abstract world, arguments of the operations
  that use them, with no assumption on what they return.
\<close>

end
